(* ===== verification/PP_Prelude.thy ===== *)
theory PP_Prelude
  imports Complex_Main "HOL-Library.Word" "HOL-Library.Multiset" "HOL-Library.Monad_Syntax"
    "HOL-Library.Log_Nat" "HOL-Library.Signed_Division"
begin

unbundle bit_operations_syntax

text \<open>
  Shared vocabulary of the development.

  \<^item> C++ machine types: \<open>u8\<close> (uint8_t), \<open>u32\<close> (uint32_t and the bit flags kept in an
    \<open>int\<close>), \<open>time_t\<close> and plain counters as \<open>int\<close>, \<open>double\<close> as the rational it denotes.
  \<^item> \<open>'a option\<close> is the result of code that can reach undefined behaviour: \<open>None\<close> stands
    for a null or out-of-range access, an overflow of a signed \<open>int\<close>, or \<open>top()\<close> of an
    empty priority queue. Ordinary error returns are the \<open>int\<close> the C++ function returns.
  \<^item> The arithmetic of \<open>double\<close> multiplication by a constant followed by a cast to \<open>int\<close>
    (\<open>dmul_trunc\<close>) rounds the product to 53 significant bits, ties to even.
  \<^item> Collections: \<open>flag_simps\<close> (values of the bit flags), \<open>frame_simps\<close> (fields an
    operation leaves alone), \<open>len_simps\<close> (lengths of updated lists).
\<close>

named_theorems flag_simps
named_theorems frame_simps
named_theorems len_simps

type_synonym u8 = "8 word"
type_synonym u32 = "32 word"

section \<open>Definitions\<close>

definition has_flag :: "'a::len word \<Rightarrow> 'a word \<Rightarrow> bool" where
  "has_flag x m \<longleftrightarrow> x AND m \<noteq> 0"

text \<open>A value of C++ \<open>int\<close>: outside 32 bits the arithmetic is undefined.\<close>

definition c_int :: "int \<Rightarrow> int option" where
  "c_int x = (if - (2 ^ 31) \<le> x \<and> x < 2 ^ 31 then Some x else None)"

text \<open>Narrowing of a \<open>long\<close> to \<open>int\<close>: reduction modulo 2 ^ 32 (two's complement).\<close>

definition wrap_int :: "int \<Rightarrow> int" where
  "wrap_int x = (x + 2 ^ 31) mod 2 ^ 32 - 2 ^ 31"

text \<open>\<open>static_cast<int>\<close> of a \<open>double\<close>: truncation towards zero.\<close>

definition trunc_rat :: "rat \<Rightarrow> int" where
  "trunc_rat x = (if 0 \<le> x then \<lfloor>x\<rfloor> else \<lceil>x\<rceil>)"

text \<open>
  Round to nearest, ties to even, of \<open>n / 2 ^ s\<close>; then rounding of a natural number to 53
  significant bits; then the product of an \<open>int\<close> with the double \<open>R / 2 ^ k\<close>, truncated.
\<close>

definition rne_shift :: "nat \<Rightarrow> nat \<Rightarrow> nat" where
  "rne_shift n s =
     (let q = n div 2 ^ s; r = n mod 2 ^ s in
      if 2 * r < 2 ^ s then q
      else if 2 * r > 2 ^ s then q + 1
      else if even q then q else q + 1)"

definition round53 :: "nat \<Rightarrow> nat" where
  "round53 n = (let s = floorlog 2 n - 53 in rne_shift n s * 2 ^ s)"

definition dmul_trunc :: "nat \<Rightarrow> nat \<Rightarrow> int \<Rightarrow> int" where
  "dmul_trunc R k d = sgn d * int (round53 (R * nat \<bar>d\<bar>) div 2 ^ k)"

text \<open>
  A non-negative \<open>double\<close> as the pair of its mantissa and the exponent of its denominator:
  its value, and the rounded sum of two of them.
\<close>

type_synonym cdouble = "nat \<times> nat"

definition dval :: "cdouble \<Rightarrow> rat" where
  "dval x = of_nat (fst x) / 2 ^ snd x"

definition dadd :: "cdouble \<Rightarrow> cdouble \<Rightarrow> cdouble" where
  "dadd x y = (let k = max (snd x) (snd y) in
     (round53 (fst x * 2 ^ (k - snd x) + fst y * 2 ^ (k - snd y)), k))"

definition dmulc :: "int \<Rightarrow> cdouble \<Rightarrow> int" where
  "dmulc d x = dmul_trunc (fst x) (snd x) d"

text \<open>
  Reading and writing a slot of a C array through an \<open>int\<close> index; out of range is undefined.
\<close>

definition arr_get :: "'a list \<Rightarrow> int \<Rightarrow> 'a option" where
  "arr_get xs i = (if 0 \<le> i \<and> nat i < length xs then Some (xs ! nat i) else None)"

definition arr_set :: "'a list \<Rightarrow> int \<Rightarrow> 'a \<Rightarrow> 'a list option" where
  "arr_set xs i v = (if 0 \<le> i \<and> nat i < length xs then Some (xs[nat i := v]) else None)"

section \<open>Integers\<close>

lemma c_int_Some_iff: "c_int x = Some y \<longleftrightarrow> y = x \<and> - (2 ^ 31) \<le> x \<and> x < 2 ^ 31"
  by (auto simp: c_int_def)

lemma wrap_int_id: "- (2 ^ 31) \<le> x \<Longrightarrow> x < 2 ^ 31 \<Longrightarrow> wrap_int x = x"
  by (simp add: wrap_int_def)

lemma trunc_rat_of_int [simp]: "trunc_rat (of_int x) = x"
  by (simp add: trunc_rat_def)

lemma sdiv_nonneg: "0 \<le> (a::int) \<Longrightarrow> 0 < b \<Longrightarrow> a sdiv b = a div b"
  by (auto simp: signed_divide_int_def sgn_if)

lemma smod_nonneg: "0 \<le> (a::int) \<Longrightarrow> 0 < b \<Longrightarrow> a smod b = a mod b"
  by (auto simp: signed_modulo_int_def signed_divide_int_def sgn_if minus_div_mult_eq_mod)

section \<open>Flags\<close>

lemma has_flag_zero [simp]: "\<not> has_flag 0 m" "\<not> has_flag x 0"
  by (simp_all add: has_flag_def)

lemma has_flag_or: "has_flag x (a OR b) \<longleftrightarrow> has_flag x a \<or> has_flag x b"
  by (auto simp: has_flag_def bit_eq_iff bit_simps)

section \<open>Arrays\<close>

lemma arr_get_Some_iff:
  "arr_get xs i = Some v \<longleftrightarrow> 0 \<le> i \<and> nat i < length xs \<and> xs ! nat i = v"
  by (auto simp: arr_get_def)

lemma arr_get_int [simp]: "n < length xs \<Longrightarrow> arr_get xs (int n) = Some (xs ! n)"
  by (simp add: arr_get_def)

lemma arr_get_take: "0 \<le> i \<Longrightarrow> nat i < n \<Longrightarrow> arr_get (take n xs) i = arr_get xs i"
  by (auto simp: arr_get_def)

lemma arr_set_Some_iff:
  "arr_set xs i v = Some ys \<longleftrightarrow> 0 \<le> i \<and> nat i < length xs \<and> ys = xs[nat i := v]"
  by (auto simp: arr_set_def)

lemma arr_set_length [len_simps]: "arr_set xs i v = Some ys \<Longrightarrow> length ys = length xs"
  by (auto simp: arr_set_Some_iff)

lemma take_list_update_snoc: "n < length xs \<Longrightarrow> take (Suc n) (xs[n := v]) = take n xs @ [v]"
  by (simp add: take_Suc_conv_app_nth)

section \<open>Bounded quantifiers\<close>

lemma all_from_step:
  "(\<forall>j. i \<le> j \<and> j < n \<longrightarrow> P j) \<longleftrightarrow> (i < n \<longrightarrow> P i) \<and> (\<forall>j. Suc i \<le> j \<and> j < n \<longrightarrow> P j)"
  for i n :: nat
proof (intro iffI allI impI)
  fix j
  assume "(i < n \<longrightarrow> P i) \<and> (\<forall>j. Suc i \<le> j \<and> j < n \<longrightarrow> P j)" "i \<le> j \<and> j < n"
  then show "P j" by (cases "j = i") auto
qed auto

section \<open>Rounding\<close>

lemma rne_shift_ge: "n div 2 ^ s \<le> rne_shift n s"
  by (simp add: rne_shift_def Let_def)

lemma rne_shift_le: "rne_shift n s \<le> n div 2 ^ s + 1"
  by (simp add: rne_shift_def Let_def)

lemma rne_shift_exact: "n mod 2 ^ s = 0 \<Longrightarrow> rne_shift n s = n div 2 ^ s"
  by (simp add: rne_shift_def Let_def)


lemma rne_shift_le_div: "n \<le> c * 2 ^ s \<Longrightarrow> rne_shift n s \<le> c"
proof -
  assume n: "n \<le> c * 2 ^ s"
  show ?thesis
  proof (cases "n mod 2 ^ s = 0")
    case True
    have "n div 2 ^ s \<le> c * 2 ^ s div 2 ^ s" using n by (rule div_le_mono)
    then show ?thesis by (simp add: rne_shift_exact True)
  next
    case False
    have "n div 2 ^ s < c"
    proof (rule ccontr)
      assume "\<not> n div 2 ^ s < c"
      then have "c * 2 ^ s \<le> n div 2 ^ s * 2 ^ s" by simp
      then show False using n False div_mult_mod_eq [of n "2 ^ s"] by linarith
    qed
    then show ?thesis using rne_shift_le [of n s] by linarith
  qed
qed

lemma exp_lt_of_53:
  assumes "2 ^ (52 + s) \<le> (d::nat) * 2 ^ k" "d < 2 ^ 53"
  shows "s \<le> k"
proof (rule ccontr)
  assume "\<not> s \<le> k"
  then have "(2::nat) ^ (53 + k) \<le> 2 ^ (52 + s)" by (intro power_increasing) auto
  moreover have "d * 2 ^ k < 2 ^ 53 * 2 ^ k" using assms(2) by (intro mult_strict_right_mono) auto
  then have "d * 2 ^ k < 2 ^ (53 + k)" by (simp only: power_add)
  ultimately show False using assms(1) by linarith
qed

lemma floorlog_53:
  assumes "0 < n" "53 < floorlog 2 n"
  shows "2 ^ (52 + (floorlog 2 n - 53)) \<le> n"
proof -
  have "52 + (floorlog 2 n - 53) = floorlog 2 n - 1" using assms by simp
  then show ?thesis using floorlog_bounds [of n 2] assms by simp
qed

lemma round53_small: "floorlog 2 n \<le> 53 \<Longrightarrow> round53 n = n"
  by (simp add: round53_def rne_shift_exact)

text \<open>Rounding never crosses a number of at most 53 significant bits.\<close>

lemma round53_le:
  assumes "n \<le> d * 2 ^ k" "d < 2 ^ 53"
  shows "round53 n \<le> d * 2 ^ k"
proof (cases "floorlog 2 n \<le> 53")
  case False
  define s where "s = floorlog 2 n - 53"
  have "0 < n" using False by (cases n) (auto simp: floorlog_def)
  then have "2 ^ (52 + s) \<le> n" using floorlog_53 [of n] False unfolding s_def by (simp only: not_le)
  then have "2 ^ (52 + s) \<le> d * 2 ^ k" using assms(1) by (rule order_trans)
  then have "s \<le> k" using assms(2) by (rule exp_lt_of_53)
  then have eq: "d * 2 ^ k = (d * 2 ^ (k - s)) * 2 ^ s"
    by (simp only: mult.assoc flip: power_add) simp
  have "n \<le> (d * 2 ^ (k - s)) * 2 ^ s" using assms(1) unfolding eq .
  then have "rne_shift n s \<le> d * 2 ^ (k - s)" by (rule rne_shift_le_div)
  then show ?thesis unfolding round53_def Let_def s_def [symmetric] eq by simp
qed (use assms in \<open>simp add: round53_small\<close>)

lemma round53_ge:
  assumes "d * 2 ^ k \<le> n" "d < 2 ^ 53"
  shows "d * 2 ^ k \<le> round53 n"
proof (cases "floorlog 2 n \<le> 53")
  case False
  define s where "s = floorlog 2 n - 53"
  have n: "0 < n" "2 ^ (52 + s) \<le> n"
    using False floorlog_53 [of n] by (cases n; auto simp: floorlog_def s_def)+
  have r: "round53 n = rne_shift n s * 2 ^ s" by (simp add: round53_def s_def Let_def)
  show ?thesis
  proof (cases "s \<le> k")
    case True
    then have eq: "d * 2 ^ k = (d * 2 ^ (k - s)) * 2 ^ s"
      by (simp only: mult.assoc flip: power_add) simp
    have "(d * 2 ^ (k - s)) * 2 ^ s div 2 ^ s \<le> n div 2 ^ s"
      using assms(1) unfolding eq by (rule div_le_mono)
    then have "d * 2 ^ (k - s) \<le> rne_shift n s" using rne_shift_ge [of n s] by simp
    then show ?thesis unfolding r eq by simp
  next
    case False
    have "(2::nat) ^ (53 + k) \<le> 2 ^ (52 + s)" using False by (intro power_increasing) auto
    moreover have "d * 2 ^ k < 2 ^ 53 * 2 ^ k" using assms(2) by (intro mult_strict_right_mono) auto
    then have "d * 2 ^ k < 2 ^ (53 + k)" by (simp only: power_add)
    moreover have "2 ^ 52 * 2 ^ s div 2 ^ s \<le> n div 2 ^ s"
      using n(2) unfolding power_add by (rule div_le_mono)
    then have "2 ^ 52 * 2 ^ s \<le> rne_shift n s * 2 ^ s"
      using rne_shift_ge [of n s] by (intro mult_right_mono) auto
    then have "2 ^ (52 + s) \<le> rne_shift n s * 2 ^ s" by (simp only: power_add)
    ultimately show ?thesis unfolding r by linarith
  qed
qed (use assms in \<open>simp add: round53_small\<close>)

lemma dmul_trunc_le:
  assumes "0 \<le> d" "int R * d \<le> e * 2 ^ k" "0 \<le> e" "e < 2 ^ 53"
  shows "dmul_trunc R k d \<le> e"
proof -
  have "int (R * nat d) \<le> int (nat e * 2 ^ k)" using assms by simp
  then have "R * nat d \<le> nat e * 2 ^ k" by linarith
  moreover have "nat e < 2 ^ 53" using assms by (simp add: nat_less_iff)
  ultimately have "round53 (R * nat d) \<le> nat e * 2 ^ k" by (rule round53_le)
  then have "round53 (R * nat d) div 2 ^ k \<le> nat e * 2 ^ k div 2 ^ k" by (rule div_le_mono)
  then show ?thesis using assms by (auto simp: dmul_trunc_def sgn_if)
qed

lemma dmul_trunc_ge:
  assumes "0 \<le> d" "e * 2 ^ k \<le> int R * d" "0 \<le> e" "e < 2 ^ 53"
  shows "e \<le> dmul_trunc R k d"
proof -
  have "int (nat e * 2 ^ k) \<le> int (R * nat d)" using assms by simp
  then have "nat e * 2 ^ k \<le> R * nat d" by linarith
  moreover have "nat e < 2 ^ 53" using assms by (simp add: nat_less_iff)
  ultimately have "nat e * 2 ^ k \<le> round53 (R * nat d)" by (rule round53_ge)
  then have "nat e * 2 ^ k div 2 ^ k \<le> round53 (R * nat d) div 2 ^ k" by (rule div_le_mono)
  moreover have "d = 0 \<Longrightarrow> e = 0" using assms by (simp add: mult_le_0_iff)
  ultimately show ?thesis using assms by (auto simp: dmul_trunc_def sgn_if)
qed

end
