(* ===== verification/MyTime.thy ===== *)
theory MyTime
  imports PP_Prelude
begin

text \<open>
  The clock and calendar helper \<open>MJ::MyTime\<close> (common/src/MyTime.h): parsing a stamp
  \<open>YYYYMMDD_HH:MM\<close> to seconds since 1970, printing it back, comparing days.
  \<open>strtol\<close>, \<open>atoi\<close>, \<open>gmtime_r\<close> and \<open>strftime\<close> are the C library's; they are modelled
  on the Gregorian calendar in UTC. The time zone is the rational value of the \<open>double\<close>
  of hours. The specification is \<open>civil_days\<close>, the number of days before a date counted
  year by year and month by month; the lemmas show that the closed formula of \<open>toTime\<close>
  computes it, that \<open>toString\<close> inverts \<open>toTime\<close>, and where \<open>toTime\<close> overflows.
\<close>

section \<open>Characters and numbers of the C library\<close>

definition is_digit :: "char \<Rightarrow> bool" where
  "is_digit c \<longleftrightarrow> (48::nat) \<le> of_char c \<and> (of_char c :: nat) \<le> 57"

definition digit_val :: "char \<Rightarrow> int" where
  "digit_val c = int (of_char c) - 48"

definition is_space :: "char \<Rightarrow> bool" where
  "is_space c \<longleftrightarrow> (of_char c :: nat) = 32 \<or> (9 \<le> (of_char c :: nat) \<and> (of_char c :: nat) \<le> 13)"

definition digits_val :: "string \<Rightarrow> int" where
  "digits_val ds = foldl (\<lambda>a c. 10 * a + digit_val c) 0 ds"

definition clamp_long :: "int \<Rightarrow> int" where
  "clamp_long x = max (- (2 ^ 63)) (min (2 ^ 63 - 1) x)"

text \<open>\<open>strtol(s, &end, 10)\<close>: the value and the rest of the string at \<open>end\<close>.\<close>

definition strtol :: "string \<Rightarrow> int \<times> string" where
  "strtol s =
     (let t = dropWhile is_space s;
          neg = (t \<noteq> [] \<and> hd t = CHR ''-'');
          u = (if t \<noteq> [] \<and> (hd t = CHR ''-'' \<or> hd t = CHR ''+'') then tl t else t);
          ds = takeWhile is_digit u
      in if ds = [] then (0, s)
         else (clamp_long (if neg then - digits_val ds else digits_val ds), dropWhile is_digit u))"

definition atoi :: "string \<Rightarrow> int" where
  "atoi s = wrap_int (fst (strtol s))"

definition digit_char :: "nat \<Rightarrow> char" where
  "digit_char n = char_of (48 + n)"

definition pad2 :: "nat \<Rightarrow> string" where
  "pad2 n = [digit_char (n div 10 mod 10), digit_char (n mod 10)]"

fun nat_str :: "nat \<Rightarrow> string" where
  "nat_str n = (if n < 10 then [digit_char n] else nat_str (n div 10) @ [digit_char (n mod 10)])"

declare nat_str.simps [simp del]

definition int_str :: "int \<Rightarrow> string" where
  "int_str x = (if x < 0 then CHR ''-'' # nat_str (nat (- x)) else nat_str (nat x))"

section \<open>The calendar\<close>

definition mon_day :: "int list" where
  "mon_day = [31, 28, 31, 30, 31, 30, 31, 31, 30, 31, 30, 31]"

definition is_leap :: "int \<Rightarrow> bool" where
  "is_leap y \<longleftrightarrow> (y mod 4 = 0 \<and> y mod 100 \<noteq> 0) \<or> y mod 400 = 0"

definition year_len :: "int \<Rightarrow> nat" where
  "year_len y = (if is_leap y then 366 else 365)"

definition month_lens :: "int \<Rightarrow> nat list" where
  "month_lens y = [31, if is_leap y then 29 else 28, 31, 30, 31, 30, 31, 31, 30, 31, 30, 31]"

text \<open>Specification: days from 1970-01-01 to the first day of a year, and to a date.\<close>

fun days_to_year :: "nat \<Rightarrow> nat" where
  "days_to_year 0 = 0"
| "days_to_year (Suc k) = days_to_year k + year_len (1970 + int k)"

definition civil_days :: "int \<Rightarrow> nat \<Rightarrow> nat \<Rightarrow> nat" where
  "civil_days y m d =
     days_to_year (nat (y - 1970)) + sum_list (take (m - 1) (month_lens y)) + (d - 1)"

definition valid_date :: "int \<Rightarrow> nat \<Rightarrow> nat \<Rightarrow> bool" where
  "valid_date y m d \<longleftrightarrow> 1 \<le> m \<and> m \<le> 12 \<and> 1 \<le> d \<and> d \<le> month_lens y ! (m - 1)"

text \<open>
  \<open>gmtime_r\<close>: the year is found by counting whole years off from a multiple of the
  400-year cycle (146097 days), the month by counting whole months off.
\<close>

record tm =
  tm_year :: int
  tm_mon :: nat
  tm_mday :: nat
  tm_hour :: nat
  tm_min :: nat
  tm_wday :: nat

function split_year :: "nat \<Rightarrow> int \<Rightarrow> int \<times> nat" where
  "split_year d y = (if d < year_len y then (y, d) else split_year (d - year_len y) (y + 1))"
  by pat_completeness auto
termination
  by (relation "measure fst") (auto simp: year_len_def split: if_splits)

declare split_year.simps [simp del]

fun split_month :: "nat \<Rightarrow> nat list \<Rightarrow> nat \<Rightarrow> nat \<times> nat" where
  "split_month d [] m = (m, d)"
| "split_month d (l # ls) m = (if d < l then (m, d) else split_month (d - l) ls (Suc m))"

definition gmtime :: "int \<Rightarrow> tm" where
  "gmtime t =
     (let days = t div 86400; secs = nat (t mod 86400);
          (y, doy) = split_year (nat (days mod 146097)) (1970 + 400 * (days div 146097));
          (m, dom) = split_month doy (month_lens y) 1
      in \<lparr>tm_year = y, tm_mon = m, tm_mday = dom + 1, tm_hour = secs div 3600,
          tm_min = secs mod 3600 div 60, tm_wday = nat ((days + 4) mod 7)\<rparr>)"

section \<open>MJ::MyTime\<close>

text \<open>\<open>toString\<close> with its default format \<open>%Y%m%d_%R\<close>; \<open>buff[14]\<close> ends the string.\<close>

definition toString :: "int \<Rightarrow> rat \<Rightarrow> string" where
  "toString t zone =
     (let tmv = gmtime (t + trunc_rat (zone * 3600))
      in take 14 (int_str (tm_year tmv) @ pad2 (tm_mon tmv) @ pad2 (tm_mday tmv) @
           ''_'' @ pad2 (tm_hour tmv) @ '':'' @ pad2 (tm_min tmv)))"

text \<open>\<open>toString(t, zone, "%Y%m%d")\<close>, and \<open>toString(t, zone).substr(0, 8)\<close>.\<close>

definition toDateStr :: "int \<Rightarrow> rat \<Rightarrow> string" where
  "toDateStr t zone =
     (let tmv = gmtime (t + trunc_rat (zone * 3600))
      in take 14 (int_str (tm_year tmv) @ pad2 (tm_mon tmv) @ pad2 (tm_mday tmv)))"

definition date8 :: "int \<Rightarrow> rat \<Rightarrow> string" where
  "date8 t zone = take 8 (toString t zone)"

text \<open>The number of leap days the closed formula of \<open>toTime\<close> counts before a year.\<close>

definition leap_days :: "int \<Rightarrow> int" where
  "leap_days year =
     (let i = wrap_int ((year - 2001) sdiv 100)
      in wrap_int ((year - 1969) sdiv 4) - ((i sdiv 4) * 3 + i smod 4))"

definition toTime :: "string \<Rightarrow> rat \<Rightarrow> int option" where
  "toTime s zone =
     (let (ymd, p1) = strtol s;
          month = (ymd sdiv 100) smod 100;
          day = ymd smod 100;
          year = ymd sdiv 10000;
          (hour, p2) = (if p1 \<noteq> [] then strtol (tl p1) else (0, p1));
          minu = (if p1 \<noteq> [] \<and> p2 \<noteq> [] then fst (strtol (tl p2)) else 0);
          isLeap = ((year smod 4 = 0 \<and> year smod 100 \<noteq> 0) \<or> year smod 400 = 0)
      in if month - 1 > 12 then None
         else do {
           let off0 = sum_list (take (nat (month - 1)) mon_day)
                        + (if isLeap \<and> month > 2 then 1 else 0) + (day - 1);
           let day_offset = wrap_int (off0 + ((year - 1970) * 365 + leap_days year));
           secs \<leftarrow> c_int (day_offset * 86400);
           hours \<leftarrow> c_int (trunc_rat ((of_int hour - zone) * 3600));
           part \<leftarrow> c_int (secs + hours);
           Some (part + minu * 60)
         })"

definition compareDayStr :: "string \<Rightarrow> string \<Rightarrow> int option" where
  "compareDayStr a b =
     (if a = b then Some 0
      else do {
        a_t \<leftarrow> toTime (a @ ''_00:00'') 0;
        b_t \<leftarrow> toTime (b @ ''_00:00'') 0;
        Some (wrap_int ((b_t - a_t) sdiv 86400))
      })"

definition compareTimeStr :: "string \<Rightarrow> string \<Rightarrow> int option" where
  "compareTimeStr a b = do {
     a_t \<leftarrow> toTime a 0;
     b_t \<leftarrow> toTime b 0;
     Some (wrap_int (b_t - a_t))
   }"

definition datePlusOf :: "string \<Rightarrow> int \<Rightarrow> string option" where
  "datePlusOf day num = do {
     day_time \<leftarrow> toTime (take 8 day @ ''_00:00'') 0;
     step \<leftarrow> c_int (num * 86400);
     Some (date8 (day_time + step) 0)
   }"

definition datePlusOfHour :: "string \<Rightarrow> int \<Rightarrow> string option" where
  "datePlusOfHour date num = do {
     day_time \<leftarrow> toTime date 0;
     step \<leftarrow> c_int (num * 3600);
     Some (toString (day_time + step) 0)
   }"

definition getOffsetHM :: "string \<Rightarrow> int" where
  "getOffsetHM timeP =
     (if CHR '':'' \<notin> set timeP \<or> CHR '':'' \<in> set (tl (dropWhile (\<lambda>c. c \<noteq> CHR '':'') timeP))
      then 0
      else (atoi (takeWhile (\<lambda>c. c \<noteq> CHR '':'') timeP) smod 24) * 3600
           + (atoi (tl (dropWhile (\<lambda>c. c \<noteq> CHR '':'') timeP)) smod 60) * 60)"

text \<open>The textual form \<open>YYYYMMDD_HH:MM\<close> the program exchanges.\<close>

definition stamp :: "nat \<Rightarrow> nat \<Rightarrow> nat \<Rightarrow> nat \<Rightarrow> nat \<Rightarrow> string" where
  "stamp y m d h mi = nat_str y @ pad2 m @ pad2 d @ ''_'' @ pad2 h @ '':'' @ pad2 mi"

section \<open>Decimal digits\<close>

lemma of_char_digit_char: "k < 10 \<Longrightarrow> (of_char (digit_char k) :: nat) = 48 + k"
  by (simp add: digit_char_def)

lemma is_digit_digit_char [simp]: "k < 10 \<Longrightarrow> is_digit (digit_char k)"
  by (simp add: is_digit_def of_char_digit_char)

lemma digit_val_digit_char [simp]: "k < 10 \<Longrightarrow> digit_val (digit_char k) = int k"
  by (simp add: digit_val_def of_char_digit_char)

lemma digit_not_space_sign:
  "is_digit c \<Longrightarrow> \<not> is_space c \<and> c \<noteq> CHR ''-'' \<and> c \<noteq> CHR ''+''"
  by (auto simp: is_digit_def is_space_def)

lemma digits_val_append: "digits_val (a @ b) = digits_val a * 10 ^ length b + digits_val b"
proof (induction b rule: rev_induct)
  case Nil
  then show ?case by (simp add: digits_val_def)
next
  case (snoc c b)
  have step: "\<And>xs. digits_val (xs @ [c]) = 10 * digits_val xs + digit_val c"
    by (simp add: digits_val_def)
  show ?case
    using snoc step[of "a @ b"] step[of b] by (simp add: algebra_simps)
qed

lemma digits_val_pad2 [simp]: "n < 100 \<Longrightarrow> digits_val (pad2 n) = int n"
  by (simp add: digits_val_def pad2_def) presburger

lemma length_pad2 [simp]: "length (pad2 n) = 2"
  by (simp add: pad2_def)

lemma pad2_nonempty: "pad2 n \<noteq> []"
  by (simp add: pad2_def)

lemma colon_not_digit: "\<not> is_digit (CHR '':'')" "\<not> is_digit (CHR ''_'')"
  by (simp_all add: is_digit_def)

lemma pad2_digits: "\<forall>c \<in> set (pad2 n). is_digit c"
  by (simp add: pad2_def)

lemma digits_val_nat_str [simp]: "digits_val (nat_str n) = int n"
proof (induction n rule: nat_str.induct)
  case (1 n)
  show ?case
  proof (cases "n < 10")
    case True
    then show ?thesis by (simp add: nat_str.simps [of n] digits_val_def)
  next
    case False
    then have "digits_val (nat_str n) = int (n div 10) * 10 + int (n mod 10)"
      using 1 by (simp add: nat_str.simps [of n] digits_val_append, simp add: digits_val_def)
    then show ?thesis by presburger
  qed
qed

lemma nat_str_digits: "\<forall>c \<in> set (nat_str n). is_digit c"
proof (induction n rule: nat_str.induct)
  case (1 n)
  then show ?case by (simp add: nat_str.simps [of n])
qed

lemma nat_str_nonempty: "nat_str n \<noteq> []"
  by (subst nat_str.simps) simp

lemma nat_str_4: "1000 \<le> n \<Longrightarrow> n < 10000 \<Longrightarrow> length (nat_str n) = 4"
proof -
  assume n: "1000 \<le> n" "n < 10000"
  define a b c where "a = n div 10" and "b = a div 10" and "c = b div 10"
  have a: "100 \<le> a" "a < 1000" using n by (simp_all add: a_def)
  have b: "10 \<le> b" "b < 100" using a by (simp_all add: b_def)
  have c: "1 \<le> c" "c < 10" using b by (simp_all add: c_def)
  note a b c
  then show ?thesis
    using n by (simp add: nat_str.simps [of n] nat_str.simps [of a] nat_str.simps [of b]
        nat_str.simps [of c] flip: a_def b_def c_def)
qed

lemma strtol_digits:
  assumes "ds \<noteq> []" "\<forall>c \<in> set ds. is_digit c" "r = [] \<or> \<not> is_digit (hd r)"
    and "0 \<le> digits_val ds" "digits_val ds < 2 ^ 63"
  shows "strtol (ds @ r) = (digits_val ds, r)"
proof -
  obtain c cs where ds: "ds = c # cs" using assms(1) by (cases ds) auto
  have c: "\<not> is_space c" "c \<noteq> CHR ''-''" "c \<noteq> CHR ''+''"
    using assms(2) ds digit_not_space_sign[of c] by auto
  have tk: "takeWhile is_digit (ds @ r) = ds" "dropWhile is_digit (ds @ r) = r"
    using assms(2,3) by (auto simp: takeWhile_append2 dropWhile_append2 takeWhile_eq_Nil_iff
        dropWhile_eq_self_iff)
  show ?thesis
    using c tk assms(4,5) unfolding strtol_def Let_def ds by (simp add: clamp_long_def)
qed

section \<open>The leap-day formula\<close>

lemma div_succ_int:
  fixes z :: int
  assumes "0 \<le> z" "0 < n"
  shows "(z + 1) div n = z div n + (if (z + 1) mod n = 0 then 1 else 0)"
proof -
  obtain a b where ab: "z = int a" "n = int b"
    using assms by (metis nonneg_int_cases order_less_imp_le)
  have "(z + 1) div n = int (Suc a div b)" "(z + 1) mod n = int (Suc a mod b)"
    "z div n = int (a div b)"
    by (simp_all add: ab zdiv_int zmod_int add.commute)
  then show ?thesis by (simp add: div_Suc)
qed

lemma mod_zero_trans: "(m::int) dvd n \<Longrightarrow> y mod n = 0 \<Longrightarrow> y mod m = 0"
  by (meson dvd_trans mod_0_imp_dvd dvd_imp_mod_0)

lemma leap_days_eq:
  assumes "1970 \<le> y" "y < 2 ^ 31"
  shows "leap_days y = (y - 1969) div 4 -
    (if y < 2001 then 0 else (y - 2001) div 100 - (y - 2001) div 400)"
proof (cases "y < 2001")
  case True
  have "(y - 2001) sdiv 100 = 0"
    using assms True by (auto simp: signed_divide_int_def)
  then show ?thesis
    using assms True by (simp add: leap_days_def sdiv_nonneg wrap_int_id)
next
  case False
  define q where "q = (y - 2001) div 100"
  have q: "0 \<le> q" "q < 2 ^ 31" using assms False by (auto simp: q_def)
  have "q div 4 = (y - 2001) div 400"
    by (simp add: q_def zdiv_zmult2_eq [symmetric])
  moreover have "leap_days y = (y - 1969) div 4 - (q div 4 * 3 + q mod 4)"
    using assms False q by (simp add: leap_days_def Let_def sdiv_nonneg smod_nonneg wrap_int_id
        flip: q_def)
  moreover have "q div 4 * 3 + q mod 4 = q - q div 4"
    by presburger
  ultimately show ?thesis using False by (simp add: q_def)
qed

lemma leap_arith:
  "(p400 \<longrightarrow> p100) \<Longrightarrow> (p100 \<longrightarrow> p4) \<Longrightarrow> L = A - (B - C) \<Longrightarrow>
   L' = (A + (if p4 then 1 else 0)) -
     ((B + (if p100 then 1 else 0)) - (C + (if p400 then 1 else 0))) \<Longrightarrow>
   L' = L + (if (p4 \<and> \<not> p100) \<or> p400 then 1 else (0::int))"
  by auto

lemma leap_step:
  assumes "1970 \<le> y" "y + 1 < 2 ^ 31"
  shows "leap_days (y + 1) = leap_days y + (if is_leap y then 1 else 0)"
proof -
  have m4: "(y - 1969 + 1) mod 4 = y mod 4"
    by presburger
  have d4: "(y + 1 - 1969) div 4 = (y - 1969) div 4 + (if y mod 4 = 0 then 1 else 0)"
    using div_succ_int [of "y - 1969" 4] assms m4 by (simp add: algebra_simps)
  show ?thesis
  proof (cases "y < 2001")
    case True
    have "y mod 100 = 0 \<Longrightarrow> y mod 400 = 0"
    proof -
      assume "y mod 100 = 0"
      then obtain k where "y = 100 * k" by (auto elim: dvdE)
      then have "y = 2000" using True assms by auto
      then show "y mod 400 = 0" by simp
    qed
    moreover have "y mod 400 = 0 \<Longrightarrow> y mod 4 = 0"
      by (rule mod_zero_trans [of _ 400]) auto
    moreover have "leap_days (y + 1) = (y + 1 - 1969) div 4"
      using assms True by (subst leap_days_eq) (auto simp: order_less_le)
    ultimately show ?thesis
      using d4 True assms leap_days_eq [of y] unfolding is_leap_def by (simp split: if_split)
  next
    case False
    have m: "(y - 2001 + 1) mod 100 = y mod 100" "(y - 2001 + 1) mod 400 = y mod 400"
      by (simp_all add: mod_eq_dvd_iff)
    have d100: "(y + 1 - 2001) div 100 = (y - 2001) div 100 + (if y mod 100 = 0 then 1 else 0)"
      using div_succ_int [of "y - 2001" 100] False m by (simp add: algebra_simps)
    have d400: "(y + 1 - 2001) div 400 = (y - 2001) div 400 + (if y mod 400 = 0 then 1 else 0)"
      using div_succ_int [of "y - 2001" 400] False m by (simp add: algebra_simps)
    show ?thesis
      unfolding is_leap_def
    proof (rule leap_arith)
      show "y mod 400 = 0 \<longrightarrow> y mod 100 = 0" "y mod 100 = 0 \<longrightarrow> y mod 4 = 0"
        using mod_zero_trans [of 100 400 y] mod_zero_trans [of 4 100 y] by simp_all
      show "leap_days y = (y - 1969) div 4 - ((y - 2001) div 100 - (y - 2001) div 400)"
        using leap_days_eq [of y] False assms by simp
      show "leap_days (y + 1) = (y - 1969) div 4 + (if y mod 4 = 0 then 1 else 0) -
          ((y - 2001) div 100 + (if y mod 100 = 0 then 1 else 0) -
           ((y - 2001) div 400 + (if y mod 400 = 0 then 1 else 0)))"
        using leap_days_eq [of "y + 1"] False assms unfolding d4 d100 d400 by simp
    qed
  qed
qed

lemma days_formula:
  assumes "1970 + int k < 2 ^ 31"
  shows "int (days_to_year k) = int k * 365 + leap_days (1970 + int k)"
  using assms
proof (induction k)
  case 0
  then show ?case by (simp add: leap_days_eq)
next
  case (Suc k)
  then show ?case using leap_step [of "1970 + int k"]
    by (simp add: year_len_def algebra_simps)
qed

section \<open>Parsing and printing a stamp\<close>

lemma month_sum:
  assumes "1 \<le> m" "m \<le> 12"
  shows "sum_list (take (m - 1) mon_day) + (if is_leap y \<and> 2 < m then 1 else 0)
    = int (sum_list (take (m - 1) (month_lens y)))"
proof -
  have "m \<in> {1..12}" using assms by simp
  then have "m \<in> set [1..<13]" by auto
  then show ?thesis by (auto simp: upt_rec mon_day_def month_lens_def)
qed

lemma length_month_lens: "length (month_lens y) = 12"
  by (simp add: month_lens_def)

lemma split_month_sum:
  "j < length ls \<Longrightarrow> r < ls ! j \<Longrightarrow> split_month (sum_list (take j ls) + r) ls m0 = (m0 + j, r)"
proof (induction ls arbitrary: j m0)
  case Nil
  then show ?case by simp
next
  case (Cons l ls)
  then show ?case by (cases j) auto
qed

lemma split_year_skip: "split_year (days_to_year k + r) 1970 = split_year r (1970 + int k)"
proof (induction k arbitrary: r)
  case 0
  then show ?case by simp
next
  case (Suc k)
  have "split_year (days_to_year (Suc k) + r) 1970 =
      split_year (year_len (1970 + int k) + r) (1970 + int k)"
    using Suc [of "year_len (1970 + int k) + r"] by (simp add: add.assoc)
  moreover have "split_year (year_len (1970 + int k) + r) (1970 + int k) =
      split_year r (1970 + int (Suc k))"
    by (subst split_year.simps) (simp add: add.assoc add.commute)
  ultimately show ?case by simp
qed

lemma days_to_year_mono: "j \<le> k \<Longrightarrow> days_to_year j \<le> days_to_year k"
  by (rule lift_Suc_mono_le) auto

lemma valid_date_doy:
  assumes "valid_date y m d"
  shows "sum_list (take (m - 1) (month_lens y)) + (d - 1) < year_len y"
proof -
  have "m \<in> set [1..<13]" using assms by (auto simp: valid_date_def)
  then show ?thesis
    using assms by (auto simp: valid_date_def upt_rec month_lens_def year_len_def split: if_splits)
qed

lemma valid_date_bounds: "valid_date y m d \<Longrightarrow> 1 \<le> m \<and> m \<le> 12 \<and> 1 \<le> d \<and> d \<le> 31"
proof -
  assume v: "valid_date y m d"
  then have "m - 1 \<in> set [0..<12]" by (auto simp: valid_date_def)
  then have "month_lens y ! (m - 1) \<le> 31"
    by (auto simp: upt_rec month_lens_def)
  with v show ?thesis by (auto simp: valid_date_def)
qed

lemma strtol_stamp:
  assumes "valid_date (int y) m d" "y < 10000" "h < 24" "mi < 60"
  shows "strtol (stamp y m d h mi) =
      (int (y * 10000 + m * 100 + d), CHR ''_'' # pad2 h @ CHR '':'' # pad2 mi)"
    and "strtol (pad2 h @ CHR '':'' # pad2 mi) = (int h, CHR '':'' # pad2 mi)"
    and "strtol (pad2 mi) = (int mi, [])"
proof -
  have b: "1 \<le> m" "m \<le> 12" "1 \<le> d" "d \<le> 31"
    using valid_date_bounds [OF assms(1)] by auto
  have v: "digits_val (nat_str y @ pad2 m @ pad2 d) = int (y * 10000 + m * 100 + d)"
    using b by (simp add: digits_val_append)
  have "strtol ((nat_str y @ pad2 m @ pad2 d) @ CHR ''_'' # pad2 h @ CHR '':'' # pad2 mi) =
      (digits_val (nat_str y @ pad2 m @ pad2 d), CHR ''_'' # pad2 h @ CHR '':'' # pad2 mi)"
    using assms b nat_str_digits pad2_digits
    by (intro strtol_digits) (auto simp: v nat_str_nonempty is_digit_def)
  then show "strtol (stamp y m d h mi) =
      (int (y * 10000 + m * 100 + d), CHR ''_'' # pad2 h @ CHR '':'' # pad2 mi)"
    by (simp add: stamp_def v)
  show "strtol (pad2 h @ CHR '':'' # pad2 mi) = (int h, CHR '':'' # pad2 mi)"
    using strtol_digits [of "pad2 h" "CHR '':'' # pad2 mi"] assms(3) pad2_digits pad2_nonempty
    by (simp add: colon_not_digit)
  show "strtol (pad2 mi) = (int mi, [])"
    using strtol_digits [of "pad2 mi" "[]"] assms(4) pad2_digits pad2_nonempty by simp
qed

lemma civil_days_int:
  assumes "valid_date (int y) m d" "1970 \<le> y" "y < 10000"
  shows "sum_list (take (m - 1) mon_day) + (if is_leap (int y) \<and> 2 < m then 1 else 0)
     + (int d - 1) + ((int y - 1970) * 365 + leap_days (int y)) = int (civil_days (int y) m d)"
proof -
  have "int (days_to_year (y - 1970)) = int (y - 1970) * 365 + leap_days (int y)"
    using days_formula [of "y - 1970"] assms by (simp add: of_nat_diff)
  moreover have "1 \<le> m" "m \<le> 12" "1 \<le> d"
    using valid_date_bounds [OF assms(1)] by auto
  ultimately show ?thesis
    using month_sum [of m "int y"] assms
    by (simp add: civil_days_def of_nat_diff nat_diff_distrib)
qed

lemma civil_days_less:
  assumes "valid_date (int y) m d" "1970 \<le> y" "y < 10000"
  shows "civil_days (int y) m d < 2932897"
proof -
  have "days_to_year (Suc (y - 1970)) \<le> days_to_year 8030"
    using assms by (intro days_to_year_mono) auto
  moreover have "int (days_to_year 8030) = 2932897"
    using days_formula [of 8030] by (simp add: leap_days_eq)
  ultimately show ?thesis
    using valid_date_doy [OF assms(1)] assms(2) by (simp add: civil_days_def nat_diff_distrib)
qed

text \<open>The numbers \<open>toTime\<close> reads off the leading \<open>YYYYMMDD\<close>.\<close>

lemma date_number:
  assumes "valid_date (int y) m d"
  shows "int (y * 10000 + m * 100 + d) sdiv 100 smod 100 = int m" "int (y * 10000 + m * 100 + d) smod 100 = int d"
    "int (y * 10000 + m * 100 + d) sdiv 10000 = int y"
proof -
  have b: "1 \<le> m" "m \<le> 12" "1 \<le> d" "d \<le> 31" using valid_date_bounds [OF assms] by auto
  define w where "w = int (y * 10000 + m * 100 + d)"
  have v1: "w = int d + (int y * 100 + int m) * 100" and v2: "w = int (m * 100 + d) + int y * 10000"
    by (simp_all add: w_def)
  have "w div 100 = int y * 100 + int m"
    unfolding v1 using b by (subst div_mult_self1) auto
  moreover have "w mod 100 = int d"
    unfolding v1 using b by (subst mod_mult_self1) auto
  moreover have "(int m + int y * 100) mod 100 = int m"
    using b by (subst mod_mult_self1) auto
  moreover have "w div 10000 = int y"
    unfolding v2 using b by (subst div_mult_self1) auto
  moreover have "0 \<le> w" by (simp add: w_def)
  ultimately show "int (y * 10000 + m * 100 + d) sdiv 100 smod 100 = int m" "int (y * 10000 + m * 100 + d) smod 100 = int d"
      "int (y * 10000 + m * 100 + d) sdiv 10000 = int y"
    unfolding w_def [symmetric] by (simp_all add: sdiv_nonneg smod_nonneg add.commute)
qed

text \<open>\<open>toTime\<close> on a text that starts with a date: the day number, the hours of the zone and the minutes.\<close>

lemma toTime_date:
  assumes v: "valid_date (int y) m d" and y: "1970 \<le> y" "y < 10000"
    and s: "strtol s = (int (y * 10000 + m * 100 + d), p1)"
    and h: "(if p1 \<noteq> [] then strtol (tl p1) else (0, p1)) = (int h, p2)"
    and mi: "(if p1 \<noteq> [] \<and> p2 \<noteq> [] then fst (strtol (tl p2)) else 0) = int mi"
  shows "toTime s zone = do {
     secs \<leftarrow> c_int (int (civil_days (int y) m d) * 86400);
     hours \<leftarrow> c_int (trunc_rat ((of_nat h - zone) * 3600));
     part \<leftarrow> c_int (secs + hours);
     Some (part + int mi * 60) }"
proof -
  have b: "1 \<le> m" "m \<le> 12" using valid_date_bounds [OF v] by auto
  have leap: "((int y smod 4 = 0 \<and> int y smod 100 \<noteq> 0) \<or> int y smod 400 = 0) = is_leap (int y)"
    by (simp add: is_leap_def smod_nonneg)
  have "wrap_int (int (civil_days (int y) m d)) = int (civil_days (int y) m d)"
    using civil_days_less [OF v y] by (intro wrap_int_id) auto
  moreover have "nat (int m - 1) = m - 1" "\<not> 13 < int m" "(2 < int m) = (2 < m)"
    using b by auto
  moreover note civil_days_int [OF v y]
  ultimately show ?thesis
    unfolding toTime_def Let_def s prod.case h mi date_number [OF v] leap by simp
qed

lemma toTime_stamp:
  assumes v: "valid_date (int y) m d" and y: "1970 \<le> y" "y < 10000" and hm: "h < 24" "mi < 60"
  shows "toTime (stamp y m d h mi) zone = do {
     secs \<leftarrow> c_int (int (civil_days (int y) m d) * 86400);
     hours \<leftarrow> c_int (trunc_rat ((of_nat h - zone) * 3600));
     part \<leftarrow> c_int (secs + hours);
     Some (part + int mi * 60) }"
  using strtol_stamp [OF v y(2) hm] by (intro toTime_date [OF v y]) auto

lemma civil_days_2037:
  assumes "valid_date (int y) m d" "1970 \<le> y" "y \<le> 2037"
  shows "civil_days (int y) m d < 24837"
proof -
  have "days_to_year (Suc (y - 1970)) \<le> days_to_year 68"
    using assms by (intro days_to_year_mono) auto
  moreover have "int (days_to_year 68) = 24837"
    using days_formula [of 68] by (simp add: leap_days_eq)
  ultimately show ?thesis
    using valid_date_doy [OF assms(1)] assms(2) by (simp add: civil_days_def nat_diff_distrib)
qed

lemma gmtime_civil:
  assumes v: "valid_date (int y) m d" and y: "1970 \<le> y" "y \<le> 2037" and hm: "h < 24" "mi < 60"
  shows "gmtime (int (civil_days (int y) m d) * 86400 + int h * 3600 + int mi * 60) =
     \<lparr>tm_year = int y, tm_mon = m, tm_mday = d, tm_hour = h, tm_min = mi,
      tm_wday = (civil_days (int y) m d + 4) mod 7\<rparr>"
proof -
  let ?D = "civil_days (int y) m d"
  let ?s = "int h * 3600 + int mi * 60"
  let ?t = "int ?D * 86400 + int h * 3600 + int mi * 60"
  have s: "0 \<le> ?s" "?s < 86400" using hm by auto
  have dm: "?t div 86400 = int ?D" "?t mod 86400 = ?s"
    using s div_mult_self1 [of 86400 ?s "int ?D"] mod_mult_self1 [of ?s "int ?D" 86400]
    by (simp_all add: algebra_simps)
  have D: "?D < 146097" using civil_days_2037 [OF v y] by simp
  let ?r = "sum_list (take (m - 1) (month_lens (int y))) + (d - 1)"
  have sy: "split_year ?D 1970 = (int y, ?r)"
    using split_year_skip [of "y - 1970" ?r] valid_date_doy [OF v] y
    by (simp add: civil_days_def nat_diff_distrib add.assoc of_nat_diff
        split_year.simps [of _ "int y"])
  have sm: "split_month ?r (month_lens (int y)) 1 = (m, d - 1)"
  proof -
    have "m - 1 < length (month_lens (int y))" "d - 1 < month_lens (int y) ! (m - 1)" "1 + (m - 1) = m"
      using v by (auto simp: valid_date_def length_month_lens)
    then show ?thesis using split_month_sum [of "m - 1" "month_lens (int y)" "d - 1" 1] by simp
  qed
  have hh: "nat ?s div 3600 = h" "nat ?s mod 3600 div 60 = mi"
  proof -
    have n: "nat ?s = mi * 60 + h * 3600" by simp
    show "nat ?s div 3600 = h"
      unfolding n using hm by (subst div_mult_self1) auto
    show "nat ?s mod 3600 div 60 = mi"
      unfolding n using hm by (subst mod_mult_self1) auto
  qed
  have w: "nat ((int ?D + 4) mod 7) = (?D + 4) mod 7"
  proof -
    have "(int ?D + 4) mod 7 = int ((?D + 4) mod 7)" by (simp add: zmod_int)
    then show ?thesis by simp
  qed
  have "1 \<le> d" using valid_date_bounds [OF v] by simp
  then show ?thesis
    using D sm by (simp add: gmtime_def dm sy hh w)
qed

lemma toString_toTime_stamp:
  assumes v: "valid_date (int y) m d" and y: "1970 \<le> y" "y \<le> 2037" and hm: "h < 24" "mi < 60"
    and z: "zone * 3600 = of_int q" "\<bar>q\<bar> \<le> 86400"
  shows "toTime (stamp y m d h mi) zone =
      Some (int (civil_days (int y) m d) * 86400 + int h * 3600 - q + int mi * 60)"
    and "map_option (\<lambda>t. toString t zone) (toTime (stamp y m d h mi) zone) = Some (stamp y m d h mi)"
proof -
  have "(of_nat h - zone) * 3600 = of_int (int h * 3600 - q)"
    using z(1) by (simp add: algebra_simps)
  then have tr: "trunc_rat (of_nat h * 3600 - zone * 3600) = int h * 3600 - q"
    using trunc_rat_of_int [of "int h * 3600 - q"] by (simp add: left_diff_distrib)
  show eq: "toTime (stamp y m d h mi) zone =
      Some (int (civil_days (int y) m d) * 86400 + int h * 3600 - q + int mi * 60)"
    using civil_days_2037 [OF v y] hm y abs_le_D1 [OF z(2)] abs_le_D2 [OF z(2)]
    by (auto simp add: toTime_stamp [OF v] left_diff_distrib tr c_int_def)
  have "toString (int (civil_days (int y) m d) * 86400 + int h * 3600 - q + int mi * 60) zone =
      stamp y m d h mi"
    using gmtime_civil [OF v y hm] z(1) nat_str_4 [of y] y
    by (simp add: toString_def stamp_def int_str_def algebra_simps)
  then show "map_option (\<lambda>t. toString t zone) (toTime (stamp y m d h mi) zone) =
      Some (stamp y m d h mi)"
    by (simp add: eq)
qed

section \<open>Properties\<close>

text \<open>C27: For every calendar date from 1970 to 2037, parsing its stamp in a zone of whole
  seconds gives the civil day count (365 or 366 days a year, counted year by year) plus the
  time of day, shifted by the zone, and printing that time in the same zone gives the stamp
  back.\<close>

theorem toTime_toString_roundtrip:
  assumes "valid_date (int y) m d" "1970 \<le> y" "y \<le> 2037" "h < 24" "mi < 60"
    and "zone * 3600 = of_int q" "\<bar>q\<bar> \<le> 86400"
  shows "toTime (stamp y m d h mi) zone =
      Some (int (civil_days (int y) m d) * 86400 + int h * 3600 - q + int mi * 60) \<and>
    map_option (\<lambda>t. toString t zone) (toTime (stamp y m d h mi) zone) = Some (stamp y m d h mi)"
  using toString_toTime_stamp [OF assms] by blast

theorem toTime_toString_roundtrip_witness:
  "map_option (\<lambda>t. toString t 8) (toTime (stamp 2016 2 29 23 45) 8) = Some (stamp 2016 2 29 23 45)"
  using toTime_toString_roundtrip [of 2016 2 29 23 45 8 28800]
  by (auto simp add: valid_date_def month_lens_def is_leap_def)

text \<open>C28: From 2038-01-20 on (24856 days after the epoch) every stamp overflows the 32-bit
  product \<open>day_offset * 86400\<close> in \<open>toTime\<close>: the function has no defined result for any later
  date, whatever the zone.\<close>

theorem toTime_overflows_2038:
  assumes "valid_date (int y) m d" "1970 \<le> y" "y < 10000" "h < 24" "mi < 60"
    and "24856 \<le> civil_days (int y) m d"
  shows "toTime (stamp y m d h mi) zone = None"
  using assms by (simp add: toTime_stamp c_int_def)

theorem toTime_overflows_2038_witness: "toTime (stamp 2038 1 20 0 0) 8 = None"
proof -
  have "int (days_to_year 68) = 24837"
    using days_formula [of 68] by (simp add: leap_days_eq)
  then have "24856 \<le> civil_days (int 2038) 1 20"
    by (simp add: civil_days_def)
  then show ?thesis
    using toTime_overflows_2038 [of 2038 1 20 0 0 8] by (simp add: valid_date_def month_lens_def)
qed

end
