(* ===== verification/ToolFunc.thy ===== *)
theory ToolFunc
  imports MyTime "HOL-Library.Sublist"
begin

text \<open>
  The string, list and time helpers of namespace \<open>ToolFunc\<close> (Route/base/ToolFunc.cpp).
  \<open>std::string::find\<close> is \<open>str_find\<close>; the position \<open>npos\<close> is \<open>None\<close>. \<open>sepString\<close> with an
  empty separator never leaves its loop, so the loop is a \<open>partial_function\<close> whose value is
  \<open>None\<close> there. The POSIX patterns of \<open>FormatChecker\<close> are lists of character classes.
  The lemmas give split/join round trips, the binary search's correctness, the list
  operations against their specifications (\<open>subseq\<close>, multiset difference, first
  occurrences), the bit count against the number of set bits, and the agreement of the
  checked formats with what \<open>MyTime\<close> prints and parses.
\<close>

section \<open>Strings\<close>

fun str_find :: "'a list \<Rightarrow> 'a list \<Rightarrow> nat option" where
  "str_find pat [] = (if pat = [] then Some 0 else None)"
| "str_find pat (c # cs) =
     (if take (length pat) (c # cs) = pat then Some 0 else map_option Suc (str_find pat cs))"

lemma str_find_Some:
  "str_find pat s = Some p \<Longrightarrow> p + length pat \<le> length s \<and> take (length pat) (drop p s) = pat"
proof (induction pat s arbitrary: p rule: str_find.induct)
  case (2 pat c cs)
  show ?case
  proof (cases "take (length pat) (c # cs) = pat")
    case True
    then have "length pat \<le> length (c # cs)"
      by (metis nat_le_linear take_all_iff)
    then show ?thesis using 2 True by simp
  next
    case False
    then obtain q where "str_find pat cs = Some q" "p = Suc q" using 2 by auto
    then show ?thesis using 2 False by simp
  qed
qed (simp split: if_splits)

definition trim_set :: "char set" where
  "trim_set = {CHR '' '', CHR 0x09, CHR 0x0D, CHR 0x0A}"

text \<open>\<open>ltrim\<close> and \<open>rtrim\<close> leave a string of blanks alone (\<open>pos\<close> is \<open>npos\<close>).\<close>

definition ltrim :: "string \<Rightarrow> string" where
  "ltrim s = (if \<forall>c \<in> set s. c \<in> trim_set then s else dropWhile (\<lambda>c. c \<in> trim_set) s)"

definition rtrim :: "string \<Rightarrow> string" where
  "rtrim s = (if \<forall>c \<in> set s. c \<in> trim_set then s
     else rev (dropWhile (\<lambda>c. c \<in> trim_set) (rev s)))"

fun join_from :: "bool \<Rightarrow> string \<Rightarrow> string list \<Rightarrow> string \<Rightarrow> string" where
  "join_from first res [] sep = res"
| "join_from first res (x # xs) sep =
     join_from False ((if first then res else res @ sep) @ x) xs sep"

definition join2String :: "string list \<Rightarrow> string \<Rightarrow> string" where
  "join2String input sep = join_from True [] input sep"

definition joinNameEn :: "string list \<Rightarrow> string" where
  "joinNameEn inList =
     (if inList = [] then ''''
      else if length inList = 1 then hd inList
      else take 9999
       (if length inList = 2 then hd inList @ '' and '' @ last inList
        else join2String (butlast inList) '', '' @ '' and '' @ last inList))"

partial_function (option) sep_loop :: "string \<Rightarrow> string \<Rightarrow> string list \<Rightarrow> string list option"
  where [code]:
  "sep_loop tmp sep output =
     (if tmp = [] then Some output
      else case str_find sep tmp of
        Some pos \<Rightarrow>
          (let rest = drop (pos + length sep) tmp;
               output1 = output @ [take pos tmp];
               output2 = (if rest = [] then output1 @ [''''] else output1)
           in sep_loop rest sep output2)
      | None \<Rightarrow> Some (output @ [tmp]))"

definition sepString :: "string \<Rightarrow> string \<Rightarrow> string list option" where
  "sepString input sep = sep_loop input sep []"

text \<open>The overload that appends to a given list and drops the items equal to \<open>blk\<close>.\<close>

definition sepString_blk :: "string \<Rightarrow> string \<Rightarrow> string list \<Rightarrow> string \<Rightarrow> string list option" where
  "sepString_blk input sep output blk =
     map_option (filter (\<lambda>s. s \<noteq> blk)) (sep_loop input sep output)"

definition sepString_set :: "string \<Rightarrow> string \<Rightarrow> string set option" where
  "sepString_set input sep = map_option set (sep_loop input sep [])"

definition removeCharsFirstANDLast :: "string \<Rightarrow> string \<Rightarrow> string \<Rightarrow> string" where
  "removeCharsFirstANDLast strIn firstChars lastChars =
     (if strIn = [] then strIn
      else if (\<forall>c \<in> set strIn. c \<in> set firstChars) \<or> (\<forall>c \<in> set strIn. c \<in> set lastChars) then ''''
      else (let begPos = length (takeWhile (\<lambda>c. c \<in> set firstChars) strIn);
                endPos = length strIn - 1 - length (takeWhile (\<lambda>c. c \<in> set lastChars) (rev strIn))
            in if begPos \<le> endPos + 1 then take (endPos + 1 - begPos) (drop begPos strIn)
               else drop begPos strIn))"

text \<open>
  \<open>replaceString\<close>: the scan position moves past the replacement; \<open>done\<close> is the part before
  the position. The empty pattern returns \<open>false\<close> and changes nothing.
\<close>

function replace_loop :: "string \<Rightarrow> string \<Rightarrow> string \<Rightarrow> string \<Rightarrow> string" where
  "replace_loop pre s rep_from rep_to =
     (if rep_from = [] then pre @ s
      else case str_find rep_from s of
        None \<Rightarrow> pre @ s
      | Some pos \<Rightarrow> replace_loop (pre @ take pos s @ rep_to)
                       (drop (pos + length rep_from) s) rep_from rep_to)"
  by pat_completeness auto
termination
  by (relation "measure (\<lambda>(pre, s, f, t). length s)")
    (auto dest!: str_find_Some simp flip: length_greater_0_conv)

declare replace_loop.simps [simp del]

definition replaceString :: "string \<Rightarrow> string \<Rightarrow> string \<Rightarrow> bool \<times> string" where
  "replaceString ori_str rep_from rep_to =
     (if rep_from = [] then (False, ori_str)
      else (True, replace_loop [] ori_str rep_from rep_to))"

section \<open>Vectors\<close>

text \<open>\<open>isfind_vec\<close>: binary search; \<open>vec[vec.size() - 1]\<close> of an empty vector is undefined.\<close>

function bsearch :: "int \<Rightarrow> int list \<Rightarrow> int \<Rightarrow> int \<Rightarrow> bool option" where
  "bsearch val vec b e =
     (let i = (b + e) sdiv 2 in
      if b \<le> e then
        (case arr_get vec i of
           None \<Rightarrow> None
         | Some v \<Rightarrow> if val = v then Some True
                     else if val > v then bsearch val vec (i + 1) e
                     else bsearch val vec b (i - 1))
      else Some False)"
  by pat_completeness auto
termination
  by (relation "measure (\<lambda>(val, vec, b, e). nat (e - b + 1))")
    (auto simp: arr_get_Some_iff signed_divide_int_def sgn_if)

declare bsearch.simps [simp del]

definition isfind_vec :: "int \<Rightarrow> int list \<Rightarrow> bool option" where
  "isfind_vec val vec =
     do { hi \<leftarrow> arr_get vec (int (length vec) - 1);
          lo \<leftarrow> arr_get vec 0;
          if val > hi \<or> val < lo then Some False
          else bsearch val vec 0 (int (length vec) - 1) }"

fun ContainVector :: "'a list \<Rightarrow> 'a list \<Rightarrow> bool" where
  "ContainVector ori [] = True"
| "ContainVector [] (d # ds) = False"
| "ContainVector (x # xs) (d # ds) = (if x = d then ContainVector xs ds else ContainVector xs (d # ds))"

fun RemoveVector :: "'a::linorder list \<Rightarrow> 'a list \<Rightarrow> 'a list" where
  "RemoveVector from [] = from"
| "RemoveVector [] (r # rs) = []"
| "RemoveVector (x # xs) (r # rs) =
     (if x = r then RemoveVector xs rs
      else if x < r then x # RemoveVector xs (r # rs)
      else RemoveVector (x # xs) rs)"

fun uniq_loop :: "'a set \<Rightarrow> 'a list \<Rightarrow> 'a list" where
  "uniq_loop add_set [] = []"
| "uniq_loop add_set (x # xs) =
     (if x \<notin> add_set then x # uniq_loop (insert x add_set) xs else uniq_loop add_set xs)"

definition UniqListOrder :: "'a list \<Rightarrow> 'a list" where
  "UniqListOrder in_list = uniq_loop {} in_list"

definition MergeListUniq :: "'a list \<Rightarrow> 'a list \<Rightarrow> 'a list" where
  "MergeListUniq add_list ori_list = UniqListOrder (ori_list @ add_list)"

section \<open>Times\<close>

definition getOpenCloseTime :: "string \<Rightarrow> string \<Rightarrow> rat \<Rightarrow> (int \<times> (int \<times> int) option) option" where
  "getOpenCloseTime date time_rule zone =
     (if time_rule = [] then Some (1, None)
      else do {
        items \<leftarrow> sepString time_rule ''-'';
        if length items \<noteq> 2 then Some (1, None)
        else do {
          open_time \<leftarrow> toTime (items ! 0) zone;
          close_time \<leftarrow> toTime (last items) zone;
          Some (0, Some (open_time, close_time)) } })"

text \<open>\<open>NormSeconds\<close> and \<open>NormSecondsEn\<close> differ only in the unit texts (UTF-8 bytes).\<close>

definition norm_secs :: "string \<Rightarrow> string \<Rightarrow> int \<Rightarrow> string" where
  "norm_secs hs ms dur =
     (let hour_cnt = dur sdiv 3600;
          d1 = dur - hour_cnt * 3600;
          minute_cnt = d1 sdiv 60;
          second_cnt = d1 - minute_cnt * 60
      in if hour_cnt \<le> 0 \<and> minute_cnt \<le> 0
         then (if second_cnt > 30 then ''1'' @ ms else ''0'' @ ms)
         else (if hour_cnt > 0 then int_str hour_cnt @ hs else '''') @
              (if minute_cnt > 0 then int_str minute_cnt @ ms else ''''))"

definition NormSeconds :: "int \<Rightarrow> string" where
  "NormSeconds = norm_secs
     [CHR 0xE5, CHR 0xB0, CHR 0x8F, CHR 0xE6, CHR 0x97, CHR 0xB6]
     [CHR 0xE5, CHR 0x88, CHR 0x86, CHR 0xE9, CHR 0x92, CHR 0x9F]"

definition NormSecondsEn :: "int \<Rightarrow> string" where
  "NormSecondsEn = norm_secs ''h'' ''min''"

definition NormMinute :: "int \<Rightarrow> int" where
  "NormMinute dur =
     (if dur > 0 \<and> dur < 60 \<or> dur < 0 \<and> dur > -60 then 0 else dur - dur smod 60)"

text \<open>The error return leaves the output argument alone.\<close>

definition toStrTime :: "int \<Rightarrow> string \<Rightarrow> int \<times> string" where
  "toStrTime timeOffset strTime =
     (if timeOffset < 0 then (1, strTime)
      else (let hour = timeOffset sdiv 3600;
                minute = (timeOffset - 3600 * hour) sdiv 60
            in (0, (if hour \<ge> 10 then int_str hour else ''0'' @ int_str hour) @
                   (if minute \<ge> 10 then '':'' @ int_str minute else '':0'' @ int_str minute))))"

definition toIntOffset :: "string \<Rightarrow> int \<Rightarrow> (int \<times> int) option" where
  "toIntOffset strTime offset =
     (case str_find '':'' strTime of
        None \<Rightarrow> Some (1, offset)
      | Some pos \<Rightarrow> do {
          h \<leftarrow> c_int (atoi (take pos strTime) * 3600);
          m \<leftarrow> c_int (atoi (drop (pos + 1) strTime) * 60);
          r \<leftarrow> c_int (h + m);
          Some (0, r) })"

definition HasUnionPeriod :: "int \<Rightarrow> int \<Rightarrow> int \<Rightarrow> int \<Rightarrow> bool" where
  "HasUnionPeriod aTimeS aTimeE bTimeS bTimeE =
     (if aTimeS > bTimeE then False else if aTimeE < bTimeS then False else True)"

section \<open>Format patterns\<close>

definition in_range :: "char \<Rightarrow> char \<Rightarrow> char \<Rightarrow> bool" where
  "in_range lo hi c \<longleftrightarrow> (of_char lo :: nat) \<le> of_char c \<and> (of_char c :: nat) \<le> of_char hi"

fun match_classes :: "(char \<Rightarrow> bool) list \<Rightarrow> string \<Rightarrow> bool" where
  "match_classes [] s = (s = [])"
| "match_classes (p # ps) [] = False"
| "match_classes (p # ps) (c # cs) = (p c \<and> match_classes ps cs)"

definition date_pat :: "(char \<Rightarrow> bool) list" where
  "date_pat =
     [in_range (CHR ''1'') (CHR ''2''), is_digit, is_digit, is_digit,
      in_range (CHR ''0'') (CHR ''1''), is_digit, in_range (CHR ''0'') (CHR ''3''), is_digit]"

definition hm_pat :: "(char \<Rightarrow> bool) list" where
  "hm_pat =
     [in_range (CHR ''0'') (CHR ''2''), is_digit, (\<lambda>c. c = CHR '':''),
      in_range (CHR ''0'') (CHR ''5''), is_digit]"

definition CheckDate :: "string \<Rightarrow> int" where
  "CheckDate s = (if match_classes date_pat (takeWhile (\<lambda>c. c \<noteq> CHR 0x00) s) then 0 else 1)"

definition CheckTime :: "string \<Rightarrow> int" where
  "CheckTime s =
     (if match_classes (date_pat @ [\<lambda>c. c = CHR ''_''] @ hm_pat) (takeWhile (\<lambda>c. c \<noteq> CHR 0x00) s)
      then 0 else 1)"

definition CheckHM :: "string \<Rightarrow> int" where
  "CheckHM s = (if match_classes hm_pat (takeWhile (\<lambda>c. c \<noteq> CHR 0x00) s) then 0 else 1)"

text \<open>The coordinate pattern \<open>^-?[0-9.]+[ ]*,[ ]*-?[0-9.]+$\<close>, matched left to right.\<close>

definition num_prefix :: "string \<Rightarrow> string option" where
  "num_prefix s =
     (let u = (if s \<noteq> [] \<and> hd s = CHR ''-'' then tl s else s);
          isn = (\<lambda>c. is_digit c \<or> c = CHR ''.'')
      in if takeWhile isn u = [] then None else Some (dropWhile isn u))"

definition CheckCoord :: "string \<Rightarrow> int" where
  "CheckCoord s =
     (case num_prefix (takeWhile (\<lambda>c. c \<noteq> CHR 0x00) s) of
        None \<Rightarrow> 1
      | Some r1 \<Rightarrow>
         (case dropWhile (\<lambda>c. c = CHR '' '') r1 of
            [] \<Rightarrow> 1
          | c # r2 \<Rightarrow>
             if c \<noteq> CHR '','' then 1
             else if num_prefix (dropWhile (\<lambda>c. c = CHR '' '') r2) = Some [] then 0 else 1))"

section \<open>Bits\<close>

lemma clear_low_less: "n \<noteq> 0 \<Longrightarrow> unat (n AND (n - 1)) < unat (n :: u32)"
  by (metis linorder_not_le unat_mono word_and_le1 word_and_le2 word_less_nat_alt word_n1_ge word_le_sub1 measure_unat order_le_less_trans word_le_nat_alt)

function CountBit :: "u32 \<Rightarrow> int" where
  "CountBit n = (if n = 0 then 0 else 1 + CountBit (n AND (n - 1)))"
  by pat_completeness auto
termination
  by (relation "measure unat") (auto simp: clear_low_less)

declare CountBit.simps [simp del]

definition popcount :: "nat \<Rightarrow> nat" where
  "popcount n = card {k. bit n k}"

definition itoa :: "int \<Rightarrow> string" where
  "itoa a = int_str a"

section \<open>Splitting and joining\<close>

lemma join_from_False: "join_from False res xs sep = res @ concat (map (\<lambda>x. sep @ x) xs)"
  by (induction xs arbitrary: res) auto

lemma join2String_Nil [simp]: "join2String [] sep = []"
  by (simp add: join2String_def)

lemma join2String_single [simp]: "join2String [x] sep = x"
  by (simp add: join2String_def)

lemma join2String_Cons [simp]: "join2String (x # y # ys) sep = x @ sep @ join2String (y # ys) sep"
  by (simp add: join2String_def join_from_False)

lemma str_find_split:
  "str_find pat s = Some p \<Longrightarrow> s = take p s @ pat @ drop (p + length pat) s"
  using str_find_Some [of pat s p]
  by (metis add.commute append_take_drop_id drop_drop)

lemma sep_loop_join:
  assumes "sep \<noteq> []"
  shows "\<exists>out. sep_loop tmp sep acc = Some (acc @ out) \<and> join2String out sep = tmp \<and>
           (out = [] \<longleftrightarrow> tmp = [])"
proof (induction "length tmp" arbitrary: tmp acc rule: less_induct)
  case less
  show ?case
  proof (cases "tmp = [] \<or> str_find sep tmp = None")
    case True
    then show ?thesis by (subst (1) sep_loop.simps) auto
  next
    case False
    then obtain p where p: "str_find sep tmp = Some p" and t: "tmp \<noteq> []" by auto
    define rest where "rest = drop (p + length sep) tmp"
    have split: "tmp = take p tmp @ sep @ rest"
      using str_find_split [OF p] by (simp add: rest_def)
    have "length rest < length tmp" using assms t by (subst split) simp
    from less [OF this] obtain out
      where out: "sep_loop rest sep (acc @ take p tmp # (if rest = [] then [''''] else [])) =
          Some (acc @ take p tmp # (if rest = [] then [''''] else []) @ out)"
        "join2String out sep = rest" "out = [] \<longleftrightarrow> rest = []"
      by (metis append.assoc append_Cons)
    have j: "join2String (take p tmp # (if rest = [] then [''''] else []) @ out) sep = tmp"
      using out(2,3) split by (cases out) auto
    show ?thesis
      using p t out(1) j by (subst (1) sep_loop.simps) (auto simp: Let_def rest_def [symmetric])
  qed
qed

lemma str_find_Nil [simp]: "str_find [] s = Some 0"
  by (cases s) auto

lemma sepString_empty_sep: "input \<noteq> [] \<Longrightarrow> sepString input [] = None"
proof -
  have "sep_loop t [] out \<noteq> Some r" if "t \<noteq> []" for t out r
  proof
    assume r: "sep_loop t [] out = Some r"
    have "t \<noteq> [] \<longrightarrow> [] = ([]::string) \<longrightarrow> False"
    proof (rule sep_loop.raw_induct [where P = "\<lambda>t s out r. t \<noteq> [] \<longrightarrow> s = [] \<longrightarrow> False", OF _ r])
      fix f :: "string \<Rightarrow> string \<Rightarrow> string list \<Rightarrow> string list option" and t s out r
      assume IH: "\<And>t s out r. f t s out = Some r \<Longrightarrow> t \<noteq> [] \<longrightarrow> s = [] \<longrightarrow> False"
        and eq: "(if t = [] then Some out
          else case str_find s t of
            Some pos \<Rightarrow>
              (let rest = drop (pos + length s) t;
                   output1 = out @ [take pos t];
                   output2 = (if rest = [] then output1 @ [''''] else output1)
               in f rest s output2)
          | None \<Rightarrow> Some (out @ [t])) = Some r"
      show "t \<noteq> [] \<longrightarrow> s = [] \<longrightarrow> False"
        using eq IH [of t "[]"] by (auto simp: Let_def)
    qed
    then show False using that by simp
  qed
  then show "input \<noteq> [] \<Longrightarrow> sepString input [] = None"
    by (metis not_Some_eq sepString_def)
qed

lemma str_find_char_append: "c \<notin> set x \<Longrightarrow> str_find [c] (x @ c # r) = Some (length x)"
  by (induction x) auto

lemma str_find_char_None: "str_find [c] x = None \<longleftrightarrow> c \<notin> set x"
  by (induction x) auto

lemma sep_loop_of_join:
  assumes "\<forall>x \<in> set xs. c \<notin> set x" "xs \<noteq> ['''']"
  shows "sep_loop (join2String xs [c]) [c] out = Some (out @ xs)"
  using assms
proof (induction xs arbitrary: out rule: induct_list012)
  case 1
  then show ?case by (simp add: sep_loop.simps)
next
  case (2 x)
  then show ?case by (subst sep_loop.simps) (simp add: str_find_char_None [THEN iffD2])
next
  case (3 x y zs)
  then have c: "c \<notin> set x" by simp
  show ?case
  proof (cases "join2String (y # zs) [c] = []")
    case True
    then have "y = [] \<and> zs = []" by (cases zs) auto
    then show ?thesis using c
      by (subst sep_loop.simps) (simp add: str_find_char_append sep_loop.simps)
  next
    case False
    then have "y # zs \<noteq> ['''']" by auto
    with 3 have "sep_loop (join2String (y # zs) [c]) [c] (out @ [x]) = Some ((out @ [x]) @ y # zs)" by simp
    then show ?thesis using c False
      by (subst sep_loop.simps) (simp add: str_find_char_append)
  qed
qed

section \<open>Lists\<close>

lemma ContainVector_subseq: "ContainVector ori dest \<longleftrightarrow> subseq dest ori"
  by (induction ori dest rule: ContainVector.induct) auto

lemma RemoveVector_mset:
  "sorted xs \<Longrightarrow> sorted ys \<Longrightarrow> mset (RemoveVector xs ys) = mset xs - mset ys"
proof (induction xs ys rule: RemoveVector.induct)
  case (3 x xs r rs)
  consider "x = r" | "x < r" | "r < x" by fastforce
  then show ?case
  proof cases
    case 2
    then have "x \<notin># mset (r # rs)" using 3 by auto
    then have "add_mset x (mset xs) - mset (r # rs) = add_mset x (mset xs - mset (r # rs))"
      by (simp add: diff_add_mset_swap)
    then show ?thesis using 2 3 by simp
  next
    case 3
    then have "r \<notin># mset (x # xs)" using "3.prems" by auto
    then show ?thesis using 3 "3.IH" "3.prems" by (auto simp: diff_single_trivial)
  qed (use 3 in auto)
qed auto

lemma RemoveVector_subseq: "subseq (RemoveVector xs ys) xs"
  by (induction xs ys rule: RemoveVector.induct) auto

lemma uniq_loop_filter: "uniq_loop A xs = filter (\<lambda>x. x \<notin> A) (uniq_loop {} xs)"
proof (induction xs arbitrary: A)
  case (Cons x xs)
  show ?case
    using Cons [of "insert x A"] Cons [of "{x}"] Cons [of A]
    by (auto simp: filter_filter conj_commute intro!: filter_cong)
qed simp

lemma set_uniq_loop: "set (uniq_loop A xs) = set xs - A"
  by (induction xs arbitrary: A) auto

lemma distinct_uniq_loop: "distinct (uniq_loop A xs)"
  by (induction xs arbitrary: A) (auto simp: set_uniq_loop)

lemma UniqListOrder_append:
  "UniqListOrder (xs @ ys) = UniqListOrder xs @ filter (\<lambda>y. y \<notin> set xs) (UniqListOrder ys)"
proof -
  have "uniq_loop A (xs @ ys) = uniq_loop A xs @ uniq_loop (A \<union> set xs) ys" for A
    by (induction xs arbitrary: A) (auto simp: insert_absorb)
  then show ?thesis
    using uniq_loop_filter [of "set xs" ys] by (simp add: UniqListOrder_def)
qed

lemma bsearch_correct:
  assumes "sorted vec" "0 \<le> b" "e < int (length vec)"
  shows "bsearch val vec b e = Some (\<exists>k. b \<le> k \<and> k \<le> e \<and> vec ! nat k = val)"
  using assms
proof (induction val vec b e rule: bsearch.induct)
  case (1 val vec b e)
  note IH = "1.IH" and bounds = "1.prems"(2,3) and srt = "1.prems"(1)
  show ?case
  proof (cases "b \<le> e")
    case True
    define i where "i = (b + e) div 2"
    have sd: "(b + e) sdiv 2 = i" using 1 True by (simp add: i_def sdiv_nonneg)
    have i: "b \<le> i" "i \<le> e" "0 \<le> i" "nat i < length vec" using True 1 by (auto simp: i_def)
    have g: "arr_get vec i = Some (vec ! nat i)" using i by (simp add: arr_get_def)
    have le: "vec ! nat k \<le> vec ! nat k'" if "0 \<le> k" "k \<le> k'" "k' \<le> e" for k k'
      using sorted_nth_mono [OF srt, of "nat k" "nat k'"] that 1 by simp
    consider "val = vec ! nat i" | "val > vec ! nat i" | "val < vec ! nat i" by linarith
    then show ?thesis
    proof cases
      case 1
      then show ?thesis using True i g by (subst bsearch.simps) (auto simp: sd Let_def)
    next
      case 2
      have "bsearch val vec (i + 1) e = Some (\<exists>k. i + 1 \<le> k \<and> k \<le> e \<and> vec ! nat k = val)"
        using IH(1) [of i "vec ! nat i"] 2 True i g bounds srt by (simp add: sd)
      moreover have "(\<exists>k. i + 1 \<le> k \<and> k \<le> e \<and> vec ! nat k = val) \<longleftrightarrow>
          (\<exists>k. b \<le> k \<and> k \<le> e \<and> vec ! nat k = val)"
        using le [of _ i] 2 i bounds by (smt (verit))
      ultimately show ?thesis using 2 True i g by (subst bsearch.simps) (simp add: sd Let_def)
    next
      case 3
      have "bsearch val vec b (i - 1) = Some (\<exists>k. b \<le> k \<and> k \<le> i - 1 \<and> vec ! nat k = val)"
        using IH(2) [of i "vec ! nat i"] 3 True i g bounds srt by (simp add: sd)
      moreover have "(\<exists>k. b \<le> k \<and> k \<le> i - 1 \<and> vec ! nat k = val) \<longleftrightarrow>
          (\<exists>k. b \<le> k \<and> k \<le> e \<and> vec ! nat k = val)"
        using le [of i] 3 i bounds by (smt (verit))
      ultimately show ?thesis using 3 True i g by (subst bsearch.simps) (simp add: sd Let_def)
    qed
  next
    case False
    then show ?thesis by (subst bsearch.simps) auto
  qed
qed


lemma replace_loop_join:
  "rep_from \<noteq> [] \<Longrightarrow> sep_loop s rep_from acc = Some (acc @ xs) \<Longrightarrow>
    replace_loop pre s rep_from rep_to = pre @ join2String xs rep_to"
proof (induction pre s rep_from rep_to arbitrary: acc xs rule: replace_loop.induct)
  case (1 pre s f t)
  have f: "f \<noteq> []" using "1.prems" by simp
  show ?case
  proof (cases "str_find f s")
    case None
    then show ?thesis using 1 f by (subst replace_loop.simps) (cases s; auto simp: sep_loop.simps)
  next
    case (Some p)
    define rest where "rest = drop (p + length f) s"
    define mid where "mid = take p s # (if rest = [] then [''''] else [])"
    have "s \<noteq> []" using Some f by auto
    then have sl: "sep_loop s f acc = sep_loop rest f (acc @ mid)"
      using Some by (subst sep_loop.simps) (simp add: Let_def rest_def mid_def)
    obtain out where out: "sep_loop rest f (acc @ mid) = Some ((acc @ mid) @ out)"
      "out = [] \<longleftrightarrow> rest = []"
      using sep_loop_join [OF f] by blast
    have xs: "xs = mid @ out" using "1.prems"(2) sl out(1) by simp
    have "replace_loop pre s f t = replace_loop (pre @ take p s @ t) rest f t"
      using Some f by (subst replace_loop.simps) (simp add: rest_def)
    also have "\<dots> = (pre @ take p s @ t) @ join2String out t"
      using "1.IH" [OF f Some, folded rest_def, OF f out(1)] by simp
    also have "\<dots> = pre @ join2String xs t"
      using out(2) by (cases out) (auto simp: xs mid_def)
    finally show ?thesis .
  qed
qed

section \<open>Times\<close>

lemma NormMinute_eq: "NormMinute dur = 60 * (dur sdiv 60)"
proof -
  have "dur sdiv 60 = 0" if "dur > 0 \<and> dur < 60 \<or> dur < 0 \<and> dur > -60"
    using that by (auto simp: signed_divide_int_def sgn_if)
  moreover have "dur - dur smod 60 = 60 * (dur sdiv 60)"
  proof -
    define q r where "q = \<bar>dur\<bar> div 60" and "r = \<bar>dur\<bar> mod 60"
    have "dur = sgn dur * (60 * q + r)"
      unfolding q_def r_def by (simp only: mult_div_mod_eq mult_sgn_abs)
    then have "dur = 60 * (sgn dur * q) + sgn dur * r" by (simp only: distrib_left mult.left_commute)
    then show ?thesis
      by (simp add: signed_modulo_int_def signed_divide_int_def flip: q_def r_def)
  qed
  ultimately show ?thesis by (simp add: NormMinute_def)
qed

lemma atoi_digits: "s \<noteq> [] \<Longrightarrow> \<forall>c \<in> set s. is_digit c \<Longrightarrow> digits_val s < 2 ^ 31 \<Longrightarrow> 0 \<le> digits_val s \<Longrightarrow> atoi s = digits_val s"
  using strtol_digits [of s "[]"] by (simp add: atoi_def wrap_int_id)

section \<open>Bit count\<close>

lemma popcount_double [simp]: "popcount (2 * m) = popcount m"
proof -
  have "{k. bit (2 * m) k} = Suc ` {k. bit m k}"
    by (auto simp: bit_double_iff image_iff) (metis Suc_pred not_gr0)
  then show ?thesis by (simp add: popcount_def card_image)
qed

lemma finite_bits: "finite {k. bit (n::nat) k}"
  by (rule finite_subset [of _ "{..<n}"]) (auto simp: bit_iff_odd, metis div_less even_zero less_exp order_le_less_trans not_le)

lemma popcount_Suc_double [simp]: "popcount (Suc (2 * m)) = Suc (popcount m)"
proof -
  have "{k. bit (Suc (2 * m)) k} = insert 0 (Suc ` {k. bit m k})"
    by (auto simp: bit_Suc image_iff bit_0 elim: nat.exhaust) (metis bit_Suc even_Suc_div_two even_mult_iff nonzero_mult_div_cancel_left not0_implies_Suc numeral_neq_zero even_numeral)
  then show ?thesis by (simp add: popcount_def card_image finite_bits)
qed

lemma popcount_clear: "0 < n \<Longrightarrow> popcount n = Suc (popcount (n AND (n - 1)))"
proof (induction n rule: nat_bit_induct)
  case (even n)
  have "2 * n - 1 = Suc (2 * (n - 1))" using even by simp
  then have "bit (2 * n AND (2 * n - 1)) k = bit (2 * (n AND (n - 1))) k" for k
    unfolding bit_and_iff by (cases k) (simp_all add: bit_0 bit_Suc bit_and_iff)
  then have "2 * n AND (2 * n - 1) = 2 * (n AND (n - 1))"
    by (simp add: bit_eq_iff)
  then show ?case using even by simp
next
  case (odd n)
  have "bit (Suc (2 * n) AND 2 * n) k = bit (2 * n) k" for k
    unfolding bit_and_iff by (cases k) (simp_all add: bit_0 bit_Suc)
  then have "Suc (2 * n) AND 2 * n = 2 * n"
    by (simp add: bit_eq_iff)
  then show ?case by simp
qed simp

lemma CountBit_popcount: "CountBit n = int (card {k. bit n k})"
proof -
  have "CountBit n = int (popcount (unat n))"
  proof (induction n rule: CountBit.induct)
    case (1 n)
    show ?case
    proof (cases "n = 0")
      case True
      then show ?thesis by (simp add: CountBit.simps popcount_def)
    next
      case False
      then have "unat (n AND (n - 1)) = (unat n AND (unat n - 1))"
        by (simp add: unsigned_and_eq unat_minus_one)
      then show ?thesis using 1 False popcount_clear [of "unat n"]
        by (subst CountBit.simps) (simp add: unat_gt_0)
    qed
  qed
  moreover have "{k. bit n k} = {k. bit (unat n) k}"
    by (auto simp: bit_unsigned_iff possible_bit_def)
  ultimately show ?thesis by (simp add: popcount_def)
qed

lemma nat_str_lt10: "n < 10 \<Longrightarrow> nat_str n = [digit_char n]"
  by (simp add: nat_str.simps)

lemma atoi_nat_str: "n < 2 ^ 31 \<Longrightarrow> atoi (nat_str n) = int n"
  using strtol_digits [of "nat_str n" "[]"] nat_str_digits nat_str_nonempty
  by (simp add: atoi_def wrap_int_id)

lemma atoi_zero_nat_str: "n < 2 ^ 31 \<Longrightarrow> atoi (CHR ''0'' # nat_str n) = int n"
proof -
  assume n: "n < 2 ^ 31"
  have "digits_val (CHR ''0'' # nat_str n) = int n"
    using digits_val_append [of "''0''" "nat_str n"] by (simp add: digits_val_def [of "''0''"] digit_val_def)
  moreover have "is_digit (CHR ''0'')" by (simp add: is_digit_def)
  ultimately show ?thesis
    using n strtol_digits [of "CHR ''0'' # nat_str n" "[]"] nat_str_digits [of n]
    by (simp add: atoi_def wrap_int_id)
qed

lemma hms_split: "3600 * (t div 3600) + 60 * ((t - 3600 * (t div 3600)) div 60) = t - t mod (60::int)"
proof -
  have "t - 3600 * (t div 3600) = t + 60 * (- 60 * (t div 3600))" by simp
  then have "(t - 3600 * (t div 3600)) div 60 = t div 60 - 60 * (t div 3600)"
    by simp
  then show ?thesis using minus_mod_eq_mult_div [of t 60] by simp
qed

lemma toIntOffset_toStrTime:
  assumes "0 \<le> t" "t < 2 ^ 31"
  shows "toIntOffset (snd (toStrTime t s)) off = Some (0, t - t mod 60)"
proof -
  define h m where "h = t div 3600" and "m = (t - 3600 * h) div 60"
  have sd: "t sdiv 3600 = h" "(t - 3600 * h) sdiv 60 = m"
    using assms by (auto simp: h_def m_def sdiv_nonneg)
  have b: "0 \<le> h" "h < 2 ^ 20" "0 \<le> m" "m < 60" "3600 * h + 60 * m = t - t mod 60"
    using assms hms_split [of t] by (auto simp: h_def m_def)
  define hs ms where "hs = (if h \<ge> 10 then int_str h else ''0'' @ int_str h)"
    and "ms = (if m \<ge> 10 then int_str m else ''0'' @ int_str m)"
  have "CHR '':'' \<notin> set hs"
    using nat_str_digits [of "nat h"] colon_not_digit b by (auto simp: hs_def int_str_def)
  then have "str_find '':'' (hs @ CHR '':'' # ms) = Some (length hs)"
    by (rule str_find_char_append)
  moreover have "atoi hs = h" "atoi ms = m"
    using b atoi_nat_str [of "nat h"] atoi_zero_nat_str [of "nat h"]
      atoi_nat_str [of "nat m"] atoi_zero_nat_str [of "nat m"]
    by (auto simp: hs_def ms_def int_str_def)
  moreover have "snd (toStrTime t s) = hs @ CHR '':'' # ms"
    using assms by (simp add: toStrTime_def sd Let_def hs_def ms_def)
  ultimately show ?thesis
    using b assms by (simp add: toIntOffset_def c_int_def mult.commute)
qed

section \<open>Formats\<close>

lemma in_range_digit:
  "k < 10 \<Longrightarrow> a < 10 \<Longrightarrow> b < 10 \<Longrightarrow>
    in_range (digit_char a) (digit_char b) (digit_char k) \<longleftrightarrow> a \<le> k \<and> k \<le> b"
  by (simp add: in_range_def of_char_digit_char)

lemma digit_chars:
  "CHR ''0'' = digit_char 0" "CHR ''1'' = digit_char 1" "CHR ''2'' = digit_char 2"
  "CHR ''3'' = digit_char 3" "CHR ''5'' = digit_char 5"
  by (simp_all add: digit_char_def char_of_def bit_0)

lemma nat_str_year:
  assumes "1000 \<le> y" "y < 10000"
  shows "nat_str y = [digit_char (y div 1000), digit_char (y div 100 mod 10),
    digit_char (y div 10 mod 10), digit_char (y mod 10)]"
proof -
  have "y div 10 div 10 = y div 100" "y div 100 div 10 = y div 1000" by (simp_all flip: div_mult2_eq)
  moreover have "\<not> y < 10" "\<not> y div 10 < 10" "\<not> y div 100 < 10" "y div 1000 < 10" using assms by auto
  ultimately show ?thesis
    by (simp add: nat_str.simps [of y] nat_str.simps [of "y div 10"] nat_str.simps [of "y div 100"]
        nat_str.simps [of "y div 1000"])
qed

lemma takeWhile_nonzero: "CHR 0x00 \<notin> set s \<Longrightarrow> takeWhile (\<lambda>c. c \<noteq> CHR 0x00) s = s"
  by (simp add: takeWhile_eq_all_conv) blast

lemma digit_nonzero: "\<forall>c \<in> set s. is_digit c \<Longrightarrow> CHR 0x00 \<notin> set s"
  by (auto simp: is_digit_def)

lemma CheckTime_stamp_iff:
  assumes "1000 \<le> y" "y < 10000" "m < 100" "d < 100" "h < 100" "mi < 100"
  shows "CheckTime (stamp y m d h mi) = 0 \<longleftrightarrow> y < 3000 \<and> m < 20 \<and> d < 40 \<and> h < 30 \<and> mi < 60"
proof -
  have "CHR 0x00 \<notin> set (stamp y m d h mi)"
    using digit_nonzero [OF nat_str_digits] digit_nonzero [OF pad2_digits]
    by (simp add: stamp_def)
  then have "CheckTime (stamp y m d h mi) = 0 \<longleftrightarrow>
      match_classes (date_pat @ [\<lambda>c. c = CHR ''_''] @ hm_pat) (stamp y m d h mi)"
    by (simp add: CheckTime_def takeWhile_nonzero)
  also have "\<dots> \<longleftrightarrow> (1 \<le> y div 1000 \<and> y div 1000 \<le> 2) \<and> m div 10 mod 10 \<le> 1 \<and> d div 10 mod 10 \<le> 3 \<and>
      h div 10 mod 10 \<le> 2 \<and> mi div 10 mod 10 \<le> 5"
    using assms
    by (simp add: stamp_def nat_str_year pad2_def date_pat_def hm_pat_def digit_chars(1-5) in_range_digit)
  also have "\<dots> \<longleftrightarrow> y < 3000 \<and> m < 20 \<and> d < 40 \<and> h < 30 \<and> mi < 60"
    using assms by auto
  finally show ?thesis .
qed

lemma toTime_bad_month:
  assumes "1000 \<le> y" "y < 10000" "14 \<le> m" "m < 100" "d < 100" "h < 100" "mi < 100"
  shows "toTime (stamp y m d h mi) zone = None"
proof -
  define w where "w = int d + (int y * 100 + int m) * 100"
  define r where "r = CHR ''_'' # pad2 h @ CHR '':'' # pad2 mi"
  have v: "digits_val (nat_str y @ pad2 m @ pad2 d) = w"
    using assms by (simp add: digits_val_append w_def)
  have "strtol ((nat_str y @ pad2 m @ pad2 d) @ r) = (w, r)"
    using assms nat_str_digits pad2_digits
    by (subst strtol_digits) (auto simp: v nat_str_nonempty is_digit_def r_def w_def)
  then have s: "strtol (stamp y m d h mi) = (w, r)" by (simp add: stamp_def r_def)
  have "w div 100 = int y * 100 + int m"
    unfolding w_def using assms by (subst div_mult_self1) auto
  moreover have "(int m + int y * 100) mod 100 = int m"
    using assms by (subst mod_mult_self1) auto
  moreover have "0 \<le> w" by (simp add: w_def)
  ultimately have "w sdiv 100 smod 100 = int m"
    by (simp add: sdiv_nonneg smod_nonneg add.commute)
  then show ?thesis using assms by (simp add: toTime_def s Let_def split: prod.split)
qed

section \<open>Properties\<close>

text \<open>C34: Splitting a string at a non-empty separator always returns, joining the pieces with
  the separator gives the string back, and \<open>replaceString\<close> is exactly splitting at the
  pattern and joining with the replacement, even when the replacement contains the pattern.\<close>

theorem replaceString_split_join:
  assumes "rep_from \<noteq> []"
  shows "\<exists>out. sepString s rep_from = Some out \<and> join2String out rep_from = s \<and>
    replaceString s rep_from rep_to = (True, join2String out rep_to)"
  using sep_loop_join [OF assms, of s "[]"] replace_loop_join [OF assms, of s "[]" _ "[]"] assms
  by (auto simp: sepString_def replaceString_def)

theorem replaceString_split_join_witness:
  "\<exists>out. sepString ''a-b'' ''-'' = Some out \<and> join2String out ''-'' = ''a-b'' \<and>
    replaceString ''a-b'' ''-'' ''--'' = (True, join2String out ''--'')"
  by (rule replaceString_split_join) simp

text \<open>C35: Joining items that do not contain the separator character and splitting the result
  returns the items, trailing empty items included; the one list that cannot be told apart is
  the list of a single empty item. With an empty separator the loop never ends.\<close>

theorem sepString_of_join:
  assumes "\<forall>x \<in> set xs. c \<notin> set x" "xs \<noteq> ['''']" "s \<noteq> []"
  shows "sepString (join2String xs [c]) [c] = Some xs \<and> sepString s [] = None"
  using sep_loop_of_join [OF assms(1,2), of "[]"] sepString_empty_sep [OF assms(3)]
  by (simp add: sepString_def)

theorem sepString_of_join_witness:
  "sepString (join2String [''0900'', '''', ''1800'', ''''] ''-'') ''-'' = Some [''0900'', '''', ''1800'', '''']
    \<and> sepString ''x'' [] = None"
  by (rule sepString_of_join) auto



text \<open>On sorted vectors \<open>RemoveVector\<close> computes the multiset difference and keeps the
  remaining elements in order; \<open>ContainVector\<close> decides the subsequence relation.\<close>

theorem RemoveVector_difference:
  assumes "sorted from" "sorted rem"
  shows "mset (RemoveVector from rem) = mset from - mset rem \<and> subseq (RemoveVector from rem) from \<and>
    ContainVector from (RemoveVector from rem)"
  using RemoveVector_mset [OF assms] RemoveVector_subseq [of "from" rem]
  by (simp add: ContainVector_subseq)

theorem RemoveVector_difference_witness:
  "mset (RemoveVector [1, 2, 2, 5] [2, 3, 5]) = mset [1, 2, 2, 5] - mset [2, 3, 5::int]"
  using RemoveVector_difference [of "[1, 2, 2, 5]" "[2, 3, 5::int]"] by simp

text \<open>Printing a second-of-day offset as hours and minutes and parsing it back loses
  exactly the seconds, for every non-negative \<open>int\<close>.\<close>

lemma toStrTime_roundtrip:
  assumes "0 \<le> t" "t < 2 ^ 31"
  shows "fst (toStrTime t s) = 0 \<and>
    toIntOffset (snd (toStrTime t s)) off = Some (0, NormMinute t)"
  using toIntOffset_toStrTime [OF assms] assms minus_mod_eq_mult_div [of t 60]
  by (simp add: NormMinute_eq sdiv_nonneg toStrTime_def Let_def)

lemma toStrTime_roundtrip_witness:
  "toIntOffset (snd (toStrTime 4530 '''')) 0 = Some (0, NormMinute 4530)"
  using toStrTime_roundtrip [of 4530 "''''" 0] by simp

text \<open>The bit-clearing loop \<open>CountBit\<close> ends after one step per set bit and returns their
  number.\<close>

theorem CountBit_counts: "CountBit n = int (card {k. bit n k})"
  by (rule CountBit_popcount)

text \<open>C37: The pattern of \<open>CheckTime\<close> admits the months 14 to 19, on which \<open>toTime\<close> reads
  past the end of the month table: a checked stamp may still have no defined time.\<close>

theorem CheckTime_admits_bad_month:
  assumes "1000 \<le> y" "y < 3000" "14 \<le> m" "m < 20" "d < 40" "h < 30" "mi < 60"
  shows "CheckTime (stamp y m d h mi) = 0 \<and> toTime (stamp y m d h mi) zone = None"
  using assms CheckTime_stamp_iff [of y m d h mi] toTime_bad_month [of y m d h mi] by simp

theorem CheckTime_admits_bad_month_witness:
  "CheckTime (stamp 2016 15 2 10 0) = 0 \<and> toTime (stamp 2016 15 2 10 0) 8 = None"
  by (rule CheckTime_admits_bad_month) simp_all

end
