(* ===== verification/PP_Types.thy ===== *)
theory PP_Types
  imports ToolFunc "HOL-Library.Char_ord" "HOL-Library.List_Lexorder"
    "HOL-Library.Product_Lexorder"
begin

text \<open>
  The planner's data (Route/base/define.h, Route/base/Utils.h and .cpp).

  \<^item> A place is a record with its address \<open>lp_addr\<close>: two \<open>const LYPlace*\<close> are equal exactly
    when the addresses are. \<open>lp_isVar\<close> says whether \<open>dynamic_cast<const VarPlace*>\<close> succeeds.
  \<^item> A duration table \<open>durS\<close> holds the five bounds of a visit; an \<open>openclose\<close> is one opening
    window with its latest arrival; a \<open>keynode\<close> is a fixed appointment of the trip (arrival,
    departure, night at the hotel, luggage) and a \<open>timeblock\<close> is the free time after it.
  \<^item> A pointer that may be null is an \<open>option\<close>. \<open>int\<close> durations and \<open>time_t\<close> are unbounded
    integers here; the flags stored in an \<open>int\<close> are 32-bit words.

  The lemmas show that \<open>DurS::Fix\<close> orders the five bounds, that the key node operations keep
  its opening window in step with its own fields, that the statistics count the thrown
  places, and what \<open>varPlaceCmp\<close> orders.
\<close>

section \<open>Flags (define.h)\<close>

definition LY_PLACE_TYPE_VIEW :: u32 where [flag_simps]: "LY_PLACE_TYPE_VIEW = 0x2"
definition LY_PLACE_TYPE_HOTEL :: u32 where [flag_simps]: "LY_PLACE_TYPE_HOTEL = 0x4"
definition LY_PLACE_TYPE_RESTAURANT :: u32 where [flag_simps]: "LY_PLACE_TYPE_RESTAURANT = 0x8"
definition LY_PLACE_TYPE_AIRPORT :: u32 where [flag_simps]: "LY_PLACE_TYPE_AIRPORT = 0x10"
definition LY_PLACE_TYPE_STATION :: u32 where [flag_simps]: "LY_PLACE_TYPE_STATION = 0x20"
definition LY_PLACE_TYPE_CAR_STORE :: u32 where [flag_simps]: "LY_PLACE_TYPE_CAR_STORE = 0x40"
definition LY_PLACE_TYPE_BUS_STATION :: u32 where [flag_simps]: "LY_PLACE_TYPE_BUS_STATION = 0x80"
definition LY_PLACE_TYPE_SAIL_STATION :: u32 where [flag_simps]: "LY_PLACE_TYPE_SAIL_STATION = 0x2000"
definition LY_PLACE_TYPE_ARRIVE :: u32 where
  [flag_simps]: "LY_PLACE_TYPE_ARRIVE = LY_PLACE_TYPE_AIRPORT OR LY_PLACE_TYPE_STATION
     OR LY_PLACE_TYPE_BUS_STATION OR LY_PLACE_TYPE_SAIL_STATION"
definition LY_PLACE_TYPE_SHOP :: u32 where [flag_simps]: "LY_PLACE_TYPE_SHOP = 0x100"
definition LY_PLACE_TYPE_TOURALL :: u32 where
  [flag_simps]: "LY_PLACE_TYPE_TOURALL = 0x4000 OR 0x8000 OR 0x10000"
definition LY_PLACE_TYPE_VAR_PLACE :: u32 where
  [flag_simps]: "LY_PLACE_TYPE_VAR_PLACE = LY_PLACE_TYPE_VIEW OR LY_PLACE_TYPE_RESTAURANT
     OR LY_PLACE_TYPE_SHOP OR LY_PLACE_TYPE_TOURALL"

definition NODE_FUNC_PLACE_RESTAURANT :: u8 where [flag_simps]: "NODE_FUNC_PLACE_RESTAURANT = 0xF"
definition NODE_FUNC_PLACE_VIEW :: u8 where [flag_simps]: "NODE_FUNC_PLACE_VIEW = 0x10"
definition NODE_FUNC_PLACE_SHOP :: u8 where [flag_simps]: "NODE_FUNC_PLACE_SHOP = 0x20"
definition NODE_FUNC_PLACE_TOUR :: u32 where [flag_simps]: "NODE_FUNC_PLACE_TOUR = 0x40"
definition NODE_FUNC_PLACE :: u32 where
  [flag_simps]: "NODE_FUNC_PLACE = ucast NODE_FUNC_PLACE_VIEW OR ucast NODE_FUNC_PLACE_SHOP
     OR ucast NODE_FUNC_PLACE_RESTAURANT OR NODE_FUNC_PLACE_TOUR"
definition NODE_FUNC_KEY_ARRIVE :: u32 where [flag_simps]: "NODE_FUNC_KEY_ARRIVE = 0x1000"
definition NODE_FUNC_KEY_DEPART :: u32 where [flag_simps]: "NODE_FUNC_KEY_DEPART = 0x2000"
definition NODE_FUNC_KEY_STATION :: u32 where
  [flag_simps]: "NODE_FUNC_KEY_STATION = NODE_FUNC_KEY_ARRIVE OR NODE_FUNC_KEY_DEPART"
definition NODE_FUNC_KEY_HOTEL_SLEEP :: u32 where [flag_simps]: "NODE_FUNC_KEY_HOTEL_SLEEP = 0x10000"
definition NODE_FUNC_KEY_HOTEL_LEFT_LUGGAGE :: u32 where
  [flag_simps]: "NODE_FUNC_KEY_HOTEL_LEFT_LUGGAGE = 0x20000"
definition NODE_FUNC_KEY_HOTEL_RECLAIM_LUGGAGE :: u32 where
  [flag_simps]: "NODE_FUNC_KEY_HOTEL_RECLAIM_LUGGAGE = 0x40000"
definition NODE_FUNC_KEY_HOTEL :: u32 where
  [flag_simps]: "NODE_FUNC_KEY_HOTEL = NODE_FUNC_KEY_HOTEL_SLEEP OR NODE_FUNC_KEY_HOTEL_LEFT_LUGGAGE
     OR NODE_FUNC_KEY_HOTEL_RECLAIM_LUGGAGE"
definition NODE_FUNC_KEY_SEGMENT :: u32 where [flag_simps]: "NODE_FUNC_KEY_SEGMENT = 0x1000000"
definition NODE_FUNC_KEY :: u32 where
  [flag_simps]: "NODE_FUNC_KEY = NODE_FUNC_KEY_STATION OR NODE_FUNC_KEY_SEGMENT OR NODE_FUNC_KEY_HOTEL"

datatype TRAF_MODE = TRAF_MODE_TAXI | TRAF_MODE_WALKING | TRAF_MODE_BUS | TRAF_MODE_UBER
  | TRAF_MODE_DRIVING

primrec traf_mode_int :: "TRAF_MODE \<Rightarrow> int" where
  "traf_mode_int TRAF_MODE_TAXI = 0"
| "traf_mode_int TRAF_MODE_WALKING = 1"
| "traf_mode_int TRAF_MODE_BUS = 2"
| "traf_mode_int TRAF_MODE_UBER = 3"
| "traf_mode_int TRAF_MODE_DRIVING = 4"

section \<open>Places\<close>

record tour_info =
  ti_preTime :: int
  ti_refPoi :: "string list"

record lyplace =
  lp_addr :: nat
  lp_ID :: string
  lp_name :: string
  lp_t :: u32
  lp_isVar :: bool
  lp_hot_level :: rat
  lp_rec_priority :: int
  lp_ranking :: int
  lp_hot_rank :: rat
  lp_intensity :: "int list"
  lp_rcmd_intensity :: "int option"
  lp_tagSmallStr :: string
  lp_tour :: "tour_info option"

definition same_place :: "lyplace \<Rightarrow> lyplace \<Rightarrow> bool" where
  "same_place p q \<longleftrightarrow> lp_addr p = lp_addr q"

text \<open>
  \<open>varPlaceCmp\<close>; \<open>std::string\<close> compares byte by byte.
\<close>

fun str_less :: "string \<Rightarrow> string \<Rightarrow> bool" where
  "str_less xs [] = False"
| "str_less [] (y # ys) = True"
| "str_less (x # xs) (y # ys) =
     (if (of_char x :: nat) < of_char y then True
      else if (of_char y :: nat) < of_char x then False
      else str_less xs ys)"

definition varPlaceCmp :: "lyplace \<Rightarrow> lyplace \<Rightarrow> bool" where
  "varPlaceCmp A B =
     (if \<not> lp_isVar A \<or> \<not> lp_isVar B then True
      else if lp_rec_priority A = lp_rec_priority B then
        (if lp_hot_level A > lp_hot_level B then True
         else if lp_hot_level A < lp_hot_level B then False
         else str_less (lp_ID A) (lp_ID B))
      else if lp_rec_priority A = 10 then True
      else False)"

text \<open>Specification: recommended places first, then the hotter, then by identifier.\<close>

definition cmp_key :: "lyplace \<Rightarrow> bool \<times> rat \<times> string" where
  "cmp_key p = (lp_rec_priority p \<noteq> 10, - lp_hot_level p, lp_ID p)"

definition place0 :: lyplace where
  "place0 = \<lparr>lp_addr = 0, lp_ID = '''', lp_name = '''', lp_t = 0, lp_isVar = False,
     lp_hot_level = 1, lp_rec_priority = 0, lp_ranking = 0, lp_hot_rank = 0, lp_intensity = [],
     lp_rcmd_intensity = None, lp_tagSmallStr = '''', lp_tour = None\<rparr>"

section \<open>Durations, opening hours, traffic\<close>

record durS =
  ds_min :: int
  ds_zip :: int
  ds_rcmd :: int
  ds_extend :: int
  ds_max :: int

definition DurS_new :: "int \<Rightarrow> int \<Rightarrow> int \<Rightarrow> int \<Rightarrow> int \<Rightarrow> durS" where
  "DurS_new mn zp rc ex mx = \<lparr>ds_min = mn, ds_zip = zp, ds_rcmd = rc, ds_extend = ex, ds_max = mx\<rparr>"

definition DurS_SetMax :: "int \<Rightarrow> durS \<Rightarrow> durS" where
  "DurS_SetMax maxDur d = d\<lparr>ds_max := maxDur\<rparr>"

definition DurS_Set :: "int \<Rightarrow> int \<Rightarrow> int \<Rightarrow> int \<Rightarrow> int \<Rightarrow> durS \<Rightarrow> durS" where
  "DurS_Set mn zp rc ex mx d =
     d\<lparr>ds_min := mn, ds_zip := zp, ds_rcmd := rc, ds_extend := ex, ds_max := mx\<rparr>"

definition DurS_Fix :: "durS \<Rightarrow> durS" where
  "DurS_Fix d0 =
     (let d1 = d0\<lparr>ds_min := min (ds_min d0) (ds_max d0)\<rparr>;
          d2 = d1\<lparr>ds_rcmd := max (ds_min d1) (ds_rcmd d1)\<rparr>;
          d3 = d2\<lparr>ds_rcmd := min (ds_rcmd d2) (ds_max d2)\<rparr>;
          d4 = d3\<lparr>ds_zip := max (ds_min d3) (ds_zip d3)\<rparr>;
          d5 = d4\<lparr>ds_zip := min (ds_zip d4) (ds_rcmd d4)\<rparr>;
          d6 = d5\<lparr>ds_extend := min (ds_extend d5) (ds_max d5)\<rparr>;
          d7 = d6\<lparr>ds_extend := max (ds_rcmd d6) (ds_extend d6)\<rparr>
      in d7)"

definition durS_ordered :: "durS \<Rightarrow> bool" where
  "durS_ordered d \<longleftrightarrow> ds_min d \<le> ds_zip d \<and> ds_zip d \<le> ds_rcmd d \<and>
     ds_rcmd d \<le> ds_extend d \<and> ds_extend d \<le> ds_max d"

record openclose =
  oc_open :: int
  oc_latestArv :: int
  oc_close :: int
  oc_meals :: int

definition OpenClose_new :: "int \<Rightarrow> int \<Rightarrow> int \<Rightarrow> int \<Rightarrow> openclose" where
  "OpenClose_new op cl la me = \<lparr>oc_open = op, oc_latestArv = la, oc_close = cl, oc_meals = me\<rparr>"

definition OpenClose_Set :: "int \<Rightarrow> int \<Rightarrow> int \<Rightarrow> int \<Rightarrow> openclose \<Rightarrow> openclose" where
  "OpenClose_Set op cl la me oc =
     oc\<lparr>oc_open := op, oc_close := cl, oc_latestArv := la, oc_meals := me\<rparr>"

record placeinfo =
  pi_vPlace :: lyplace
  pin_arvID :: string
  pin_deptID :: string
  pin_openCloseList :: "openclose option list"
  pin_availOpenCloseList :: "openclose option list"
  pin_dur :: int
  pin_cost :: rat
  pin_type :: u32
  pin_timeZone :: int

record traffic =
  tr_mode :: int
  tr_time :: int
  tr_dist :: int
  tr_realDist :: int
  tr_mid :: string
  tr_stat :: int
  tr_order :: int
  tr_custom :: bool
  tr_startP :: string
  tr_stopP :: string

definition TrafficItem_new :: traffic where
  "TrafficItem_new = \<lparr>tr_mode = traf_mode_int TRAF_MODE_WALKING, tr_time = 0, tr_dist = 0,
     tr_realDist = 0, tr_mid = '''', tr_stat = 0, tr_order = -1, tr_custom = False,
     tr_startP = '''', tr_stopP = ''''\<rparr>"

definition TrafficItem_eq :: "traffic \<Rightarrow> traffic \<Rightarrow> bool" where
  "TrafficItem_eq a b \<longleftrightarrow> tr_mode a = tr_mode b \<and> tr_time a = tr_time b \<and> tr_dist a = tr_dist b
     \<and> tr_mid a = tr_mid b"

definition UserTrafMode2InnerDefine :: "int \<Rightarrow> int" where
  "UserTrafMode2InnerDefine userMode =
     (if userMode = traf_mode_int TRAF_MODE_TAXI + 1 then traf_mode_int TRAF_MODE_TAXI
      else if userMode = traf_mode_int TRAF_MODE_WALKING + 1 then traf_mode_int TRAF_MODE_WALKING
      else if userMode = traf_mode_int TRAF_MODE_BUS + 1 then traf_mode_int TRAF_MODE_BUS
      else if userMode = traf_mode_int TRAF_MODE_UBER + 1 then traf_mode_int TRAF_MODE_UBER
      else if userMode = traf_mode_int TRAF_MODE_DRIVING + 1 then traf_mode_int TRAF_MODE_DRIVING
      else -1)"

definition InnerTrafMode2UserDefine :: "int \<Rightarrow> bool \<Rightarrow> bool \<Rightarrow> int" where
  "InnerTrafMode2UserDefine innerMode isCharterCar custom =
     (if innerMode = traf_mode_int TRAF_MODE_TAXI then
        (if \<not> custom then
           (if \<not> isCharterCar then traf_mode_int TRAF_MODE_TAXI + 1
            else traf_mode_int TRAF_MODE_DRIVING + 1)
         else traf_mode_int TRAF_MODE_TAXI + 1)
      else if innerMode = traf_mode_int TRAF_MODE_WALKING then traf_mode_int TRAF_MODE_WALKING + 1
      else if innerMode = traf_mode_int TRAF_MODE_BUS then traf_mode_int TRAF_MODE_BUS + 1
      else if innerMode = traf_mode_int TRAF_MODE_UBER then traf_mode_int TRAF_MODE_UBER + 1
      else if innerMode = traf_mode_int TRAF_MODE_DRIVING then traf_mode_int TRAF_MODE_DRIVING + 1
      else 0)"

section \<open>Time blocks and key nodes (Utils.h, Utils.cpp)\<close>

record timeblock =
  tb_start :: int
  tb_stop :: int
  tb_interval_dur :: int
  tb_avail_dur :: int
  tb_left_avail_dur :: int
  tb_pInfoList :: "placeinfo list"
  tb_pInfoMap :: "string \<Rightarrow> placeinfo option"
  tb_nodeFuncMap :: "string \<Rightarrow> u32 option"
  tb_time_zone :: rat
  tb_trafDate :: string
  tb_stable_list :: "lyplace list"
  tb_used_dur :: int
  tb_restNeed :: u8
  tb_restNum :: int
  tb_restOpenCloseList :: "openclose list"
  tb_is_not_play :: bool

definition TimeBlock_new :: "int \<Rightarrow> int \<Rightarrow> string \<Rightarrow> int \<Rightarrow> u8 \<Rightarrow> rat \<Rightarrow> timeblock" where
  "TimeBlock_new start stop trafDate avail_dur restNeed time_zone =
     \<lparr>tb_start = start, tb_stop = stop, tb_interval_dur = stop - start, tb_avail_dur = avail_dur,
      tb_left_avail_dur = 0, tb_pInfoList = [], tb_pInfoMap = Map.empty,
      tb_nodeFuncMap = Map.empty, tb_time_zone = time_zone, tb_trafDate = trafDate,
      tb_stable_list = [], tb_used_dur = 0, tb_restNeed = restNeed,
      tb_restNum = CountBit (ucast restNeed),
      tb_restOpenCloseList = [OpenClose_new 0 0 0 2, OpenClose_new 0 0 0 4],
      tb_is_not_play = False\<rparr>"

definition TimeBlock_SetNotPlay :: "bool \<Rightarrow> timeblock \<Rightarrow> timeblock" where
  "TimeBlock_SetNotPlay notPlay tb = tb\<lparr>tb_is_not_play := notPlay\<rparr>"

definition TimeBlock_ClearNode :: "timeblock \<Rightarrow> timeblock" where
  "TimeBlock_ClearNode tb = tb\<lparr>tb_pInfoList := [], tb_pInfoMap := Map.empty\<rparr>"

definition TimeBlock_PushStable :: "lyplace \<Rightarrow> int \<Rightarrow> timeblock \<Rightarrow> timeblock" where
  "TimeBlock_PushStable place alloc_dur tb =
     tb\<lparr>tb_stable_list := tb_stable_list tb @ [place], tb_used_dur := tb_used_dur tb + alloc_dur\<rparr>"

definition TimeBlock_Has :: "string \<Rightarrow> timeblock \<Rightarrow> bool" where
  "TimeBlock_Has pid tb \<longleftrightarrow> tb_nodeFuncMap tb pid \<noteq> None"

definition TimeBlock_GetFunc :: "string \<Rightarrow> timeblock \<Rightarrow> u32" where
  "TimeBlock_GetFunc pid tb = (case tb_nodeFuncMap tb pid of Some f \<Rightarrow> f | None \<Rightarrow> 0)"

definition TimeBlock_GetPlaceInfo :: "string \<Rightarrow> timeblock \<Rightarrow> placeinfo option" where
  "TimeBlock_GetPlaceInfo pid tb = tb_pInfoMap tb pid"

record keynode =
  kn_place :: lyplace
  kn_open :: int
  kn_close :: int
  kn_trafDate :: string
  kn_open_date :: string
  kn_close_date :: string
  kn_notPlan :: int
  kn_continuous :: int
  kn_cost :: rat
  kn_type :: u32
  kn_adjustable :: int
  kn_deletable :: bool
  kn_time_zone :: rat
  kn_openClose :: openclose
  kn_durS :: durS

text \<open>\<open>m_openCloseList\<close> holds the one pointer \<open>m_openClose\<close>.\<close>

definition KeyNode_openCloseList :: "keynode \<Rightarrow> openclose option list" where
  "KeyNode_openCloseList kn = [Some (kn_openClose kn)]"

definition KeyNode_SetOpen :: "int \<Rightarrow> keynode \<Rightarrow> keynode" where
  "KeyNode_SetOpen op kn =
     kn\<lparr>kn_open := op, kn_open_date := toDateStr op (kn_time_zone kn),
        kn_openClose := (kn_openClose kn)\<lparr>oc_open := op,
          oc_latestArv := kn_close kn - ds_min (kn_durS kn)\<rparr>\<rparr>"

definition KeyNode_SetClose :: "int \<Rightarrow> keynode \<Rightarrow> keynode" where
  "KeyNode_SetClose cl kn =
     kn\<lparr>kn_close := cl, kn_close_date := toDateStr cl (kn_time_zone kn),
        kn_openClose := (kn_openClose kn)\<lparr>oc_close := cl,
          oc_latestArv := cl - ds_min (kn_durS kn)\<rparr>\<rparr>"

definition KeyNode_SetDur :: "int \<Rightarrow> int \<Rightarrow> int \<Rightarrow> int \<Rightarrow> int \<Rightarrow> keynode \<Rightarrow> keynode" where
  "KeyNode_SetDur mn zp rc ex mx kn =
     (let d = DurS_Set mn zp rc ex mx (kn_durS kn) in
      kn\<lparr>kn_durS := d,
         kn_openClose := (kn_openClose kn)\<lparr>oc_latestArv := kn_close kn - ds_min d\<rparr>\<rparr>)"

definition KeyNode_FixDurS :: "keynode \<Rightarrow> keynode" where
  "KeyNode_FixDurS kn =
     (let d = DurS_Fix (DurS_SetMax (kn_close kn - kn_open kn) (kn_durS kn)) in
      kn\<lparr>kn_durS := d,
         kn_openClose := (kn_openClose kn)\<lparr>oc_latestArv := kn_close kn - ds_min d\<rparr>\<rparr>)"

definition KeyNode_SetTrafDate :: "string \<Rightarrow> keynode \<Rightarrow> keynode" where
  "KeyNode_SetTrafDate newTrafDate kn = kn\<lparr>kn_trafDate := newTrafDate\<rparr>"

text \<open>
  The constructor: \<open>SetOpen\<close> runs while \<open>_close\<close> is still uninitialised (the value \<open>garbage\<close>).
\<close>

definition KeyNode_new ::
  "int \<Rightarrow> lyplace \<Rightarrow> int \<Rightarrow> int \<Rightarrow> string \<Rightarrow> int \<Rightarrow> int \<Rightarrow> int \<Rightarrow> int \<Rightarrow> int \<Rightarrow> int \<Rightarrow> int \<Rightarrow> u32 \<Rightarrow> int
     \<Rightarrow> bool \<Rightarrow> rat \<Rightarrow> keynode" where
  "KeyNode_new garbage place op cl trafDate mn zp rc ex mx conti cost type adj del zone =
     KeyNode_SetClose cl (KeyNode_SetOpen op
       \<lparr>kn_place = place, kn_open = 0, kn_close = garbage, kn_trafDate = trafDate,
        kn_open_date = '''', kn_close_date = '''', kn_notPlan = 0, kn_continuous = conti,
        kn_cost = of_int cost, kn_type = type, kn_adjustable = adj, kn_deletable = del,
        kn_time_zone = zone, kn_openClose = OpenClose_new 0 0 0 0,
        kn_durS = DurS_new mn zp rc ex mx\<rparr>)"

definition keynode_ok :: "keynode \<Rightarrow> bool" where
  "keynode_ok kn \<longleftrightarrow>
     oc_open (kn_openClose kn) = kn_open kn \<and> oc_close (kn_openClose kn) = kn_close kn \<and>
     oc_latestArv (kn_openClose kn) = kn_close kn - ds_min (kn_durS kn) \<and>
     kn_open_date kn = toDateStr (kn_open kn) (kn_time_zone kn) \<and>
     kn_close_date kn = toDateStr (kn_close kn) (kn_time_zone kn)"

section \<open>Orders and statistics\<close>

record placeorder =
  po_place :: lyplace
  po_date :: string
  po_index :: int
  po_type :: u8

definition PlaceOrder_eq :: "placeorder \<Rightarrow> placeorder \<Rightarrow> bool" where
  "PlaceOrder_eq a b \<longleftrightarrow>
     (if same_place (po_place b) (po_place a) \<and> po_date b = po_date a \<and> po_index b = po_index a
         \<and> po_type b = po_type a then True else False)"

definition PlaceOrder_neq :: "placeorder \<Rightarrow> placeorder \<Rightarrow> bool" where
  "PlaceOrder_neq a b \<longleftrightarrow>
     (if \<not> same_place (po_place b) (po_place a) \<or> po_date b \<noteq> po_date a \<or> po_index b \<noteq> po_index a
         \<or> po_type b \<noteq> po_type a then True else False)"

text \<open>The statistics maps are keyed by the place's address.\<close>

record planstats =
  st_trafTime :: int
  st_leftTime :: int
  st_throwNum :: int
  st_placeStatsMap :: "nat \<Rightarrow> int option"
  st_placeDurMap :: "nat \<Rightarrow> int option"

definition PlanStats_new :: planstats where
  "PlanStats_new = \<lparr>st_trafTime = 0, st_leftTime = 0, st_throwNum = 0,
     st_placeStatsMap = Map.empty, st_placeDurMap = Map.empty\<rparr>"

definition PlanStats_HasPlaceStats :: "lyplace \<Rightarrow> planstats \<Rightarrow> bool" where
  "PlanStats_HasPlaceStats place st \<longleftrightarrow> st_placeStatsMap st (lp_addr place) \<noteq> None"

definition PlanStats_SetPlaceStats :: "lyplace \<Rightarrow> int \<Rightarrow> planstats \<Rightarrow> planstats" where
  "PlanStats_SetPlaceStats place stats st =
     (let st1 = (if st_placeStatsMap st (lp_addr place) = None
                 then st\<lparr>st_throwNum := st_throwNum st + 1\<rparr> else st)
      in st1\<lparr>st_placeStatsMap := (st_placeStatsMap st1)(lp_addr place \<mapsto> stats)\<rparr>)"

definition PlanStats_DelPlaceStats :: "lyplace \<Rightarrow> planstats \<Rightarrow> planstats" where
  "PlanStats_DelPlaceStats place st =
     (if st_placeStatsMap st (lp_addr place) \<noteq> None
      then st\<lparr>st_throwNum := st_throwNum st - 1,
              st_placeStatsMap := (st_placeStatsMap st)(lp_addr place := None)\<rparr>
      else st)"

definition PlanStats_SetPlaceDur :: "lyplace \<Rightarrow> int \<Rightarrow> planstats \<Rightarrow> planstats" where
  "PlanStats_SetPlaceDur place dur st =
     st\<lparr>st_placeDurMap := (st_placeDurMap st)(lp_addr place \<mapsto> dur)\<rparr>"

definition PlanStats_DelPlaceDur :: "lyplace \<Rightarrow> planstats \<Rightarrow> planstats" where
  "PlanStats_DelPlaceDur place st =
     (if st_placeDurMap st (lp_addr place) \<noteq> None
      then st\<lparr>st_placeDurMap := (st_placeDurMap st)(lp_addr place := None)\<rparr> else st)"

definition planstats_ok :: "planstats \<Rightarrow> bool" where
  "planstats_ok st \<longleftrightarrow> finite (dom (st_placeStatsMap st)) \<and>
     st_throwNum st = int (card (dom (st_placeStatsMap st)))"

datatype stats_op = SetStats lyplace int | DelStats lyplace | SetDur lyplace int | DelDur lyplace

primrec stats_run :: "stats_op \<Rightarrow> planstats \<Rightarrow> planstats" where
  "stats_run (SetStats p s) st = PlanStats_SetPlaceStats p s st"
| "stats_run (DelStats p) st = PlanStats_DelPlaceStats p st"
| "stats_run (SetDur p d) st = PlanStats_SetPlaceDur p d st"
| "stats_run (DelDur p) st = PlanStats_DelPlaceDur p st"

datatype key_op = SetOpen int | SetClose int | SetKeyDur int int int int int | FixDur
  | SetTrafDate string

primrec key_run :: "key_op \<Rightarrow> keynode \<Rightarrow> keynode" where
  "key_run (SetOpen t) kn = KeyNode_SetOpen t kn"
| "key_run (SetClose t) kn = KeyNode_SetClose t kn"
| "key_run (SetKeyDur mn zp rc ex mx) kn = KeyNode_SetDur mn zp rc ex mx kn"
| "key_run FixDur kn = KeyNode_FixDurS kn"
| "key_run (SetTrafDate d) kn = KeyNode_SetTrafDate d kn"

section \<open>Lemmas\<close>

lemma DurS_Fix_ordered: "durS_ordered (DurS_Fix d)" and DurS_Fix_max: "ds_max (DurS_Fix d) = ds_max d"
  by (auto simp: durS_ordered_def DurS_Fix_def Let_def)

lemma DurS_Fix_id: "durS_ordered d \<Longrightarrow> DurS_Fix d = d"
  by (simp add: durS_ordered_def DurS_Fix_def Let_def)

lemmas key_defs = KeyNode_SetOpen_def KeyNode_SetClose_def KeyNode_SetDur_def KeyNode_FixDurS_def
  KeyNode_SetTrafDate_def

lemma key_run_ok: "keynode_ok kn \<Longrightarrow> keynode_ok (key_run op kn)"
  by (cases op) (simp_all add: keynode_ok_def key_defs Let_def)

lemma KeyNode_new_ok:
  "keynode_ok (KeyNode_new g place op cl date mn zp rc ex mx conti cost ty adj del zone)"
  by (simp add: KeyNode_new_def keynode_ok_def key_defs)

lemma fold_key_run_ok: "keynode_ok kn \<Longrightarrow> keynode_ok (fold key_run ops kn)"
  by (induction ops arbitrary: kn) (auto intro: key_run_ok)

lemma stats_run_ok: "planstats_ok st \<Longrightarrow> planstats_ok (stats_run op st)"
proof (cases op)
  case (DelStats p)
  assume ok: "planstats_ok st"
  show ?thesis
  proof (cases "st_placeStatsMap st (lp_addr p)")
    case (Some s)
    then have "lp_addr p \<in> dom (st_placeStatsMap st)" by blast
    then show ?thesis using ok Some DelStats card_gt_0_iff [of "dom (st_placeStatsMap st)"]
      by (auto simp: planstats_ok_def PlanStats_DelPlaceStats_def card_Diff_singleton of_nat_diff)
  qed (use ok DelStats in \<open>simp add: PlanStats_DelPlaceStats_def\<close>)
next
  case (SetStats p s)
  assume ok: "planstats_ok st"
  then show ?thesis
    using SetStats by (cases "st_placeStatsMap st (lp_addr p)")
      (auto simp: planstats_ok_def PlanStats_SetPlaceStats_def insert_absorb domIff card_insert_if)
qed (simp_all add: planstats_ok_def PlanStats_SetPlaceDur_def PlanStats_DelPlaceDur_def)

lemma str_less_less: "str_less xs ys \<longleftrightarrow> xs < ys"
proof (induction xs ys rule: str_less.induct)
  case (3 x xs y ys)
  then show ?case by (auto simp: less_char_def of_char_eq_iff)
qed auto

section \<open>Properties\<close>

text \<open>C24: \<open>DurS::Fix\<close> always orders the five durations min, zip, rcmd, extend, max, keeps the
  maximum, and leaves an ordered table unchanged.\<close>

theorem DurS_Fix_correct:
  "durS_ordered (DurS_Fix d) \<and> ds_max (DurS_Fix d) = ds_max d \<and>
    (durS_ordered d \<longrightarrow> DurS_Fix d = d)"
  by (simp add: DurS_Fix_ordered DurS_Fix_max DurS_Fix_id)

theorem DurS_Fix_correct_witness:
  "DurS_Fix (DurS_new 900 1800 1800 2700 3600) = DurS_new 900 1800 1800 2700 3600"
  using DurS_Fix_correct [of "DurS_new 900 1800 1800 2700 3600"]
  by (simp add: durS_ordered_def DurS_new_def)


text \<open>Whatever places are marked as thrown or unmarked, in whatever order, the counter
  \<open>m_throwNum\<close> is the number of places in the map.\<close>

lemma PlanStats_history_ok: "planstats_ok (fold stats_run ops PlanStats_new)"
proof -
  have "planstats_ok st \<Longrightarrow> planstats_ok (fold stats_run ops st)" for st
    by (induction ops arbitrary: st) (auto intro: stats_run_ok)
  then show ?thesis by (simp add: PlanStats_new_def planstats_ok_def)
qed

text \<open>On places that all derive from \<open>VarPlace\<close> and whose priority is either 10 or one
  other common value, \<open>varPlaceCmp\<close> is the linear order of the key (recommended first, then
  the hotter, then the smaller identifier), as \<open>std::sort\<close> requires.\<close>

theorem varPlaceCmp_linear:
  assumes "lp_isVar A" "lp_isVar B" "lp_rec_priority A \<in> {10, r}" "lp_rec_priority B \<in> {10, r}"
  shows "varPlaceCmp A B \<longleftrightarrow> cmp_key A < cmp_key B"
  using assms by (auto simp: varPlaceCmp_def cmp_key_def str_less_less)

theorem varPlaceCmp_linear_witness:
  "varPlaceCmp (place0\<lparr>lp_isVar := True, lp_ID := ''v2'', lp_rec_priority := 10\<rparr>)
     (place0\<lparr>lp_isVar := True, lp_ID := ''v1'', lp_hot_level := 9\<rparr>)"
  using varPlaceCmp_linear [of "place0\<lparr>lp_isVar := True, lp_ID := ''v2'', lp_rec_priority := 10\<rparr>"
      "place0\<lparr>lp_isVar := True, lp_ID := ''v1'', lp_hot_level := 9\<rparr>" 0]
  by (simp add: cmp_key_def place0_def)


text \<open>Converting an internal traffic mode to the user's numbering and back returns the
  mode, except that a taxi of a charter trip comes back as driving; every number outside the
  enumeration is rejected (0 and -1).\<close>

theorem TrafMode_roundtrip:
  "UserTrafMode2InnerDefine (InnerTrafMode2UserDefine (traf_mode_int m) charter custom) =
     traf_mode_int (if m = TRAF_MODE_TAXI \<and> charter \<and> \<not> custom then TRAF_MODE_DRIVING else m) \<and>
   (k \<notin> range traf_mode_int \<longrightarrow> InnerTrafMode2UserDefine k charter custom = 0 \<and>
      UserTrafMode2InnerDefine (k + 1) = -1)"
proof -
  have "k = 0 \<or> k = 1 \<or> k = 2 \<or> k = 3 \<or> k = 4 \<longrightarrow> k \<in> range traf_mode_int"
    by (metis rangeI traf_mode_int.simps)
  then show ?thesis
    by (cases m) (auto simp: UserTrafMode2InnerDefine_def InnerTrafMode2UserDefine_def)
qed

theorem TrafMode_roundtrip_witness: "InnerTrafMode2UserDefine 7 False False = 0"
proof -
  have "7 \<notin> range traf_mode_int"
  proof
    assume "7 \<in> range traf_mode_int"
    then obtain m where "7 = traf_mode_int m" by auto
    then show False by (cases m) auto
  qed
  then show ?thesis using TrafMode_roundtrip [of TRAF_MODE_BUS False False 7] by simp
qed

end
