(* ===== verification/BasePlan.thy ===== *)
theory BasePlan
  imports PP_Types
begin

text \<open>
  The request context \<open>BasePlan\<close> (Route/base/BasePlan.h and .cpp): the key nodes and time
  blocks of the trip, the duration, heat and traffic tables, and their accessors.

  \<^item> Hash maps are functions into \<open>option\<close>; sets that the code iterates over are lists in the
    order of iteration. \<open>bp_themeTag\<close> is the tag string the constant data gives to theme
    parks, \<open>bp_scalePrefer\<close> the double of the intensity preference.
  \<^item> \<open>GetKey\<close> and \<open>GetBlock\<close> compare an \<open>int\<close> with a \<open>size_t\<close>, so a negative index is also
    out of range and gives the null pointer.
  \<^item> The lemmas describe the traffic lookup (which table wins), the duration table a place
    gets, and that a stored table is returned unchanged.
\<close>

record resttime =
  rt_type :: u32
  rt_begin :: int
  rt_end :: int
  rt_time_cost :: int
  rt_min_time_cost :: int

record baseplan =
  bp_KeyNode :: "keynode list"
  bp_BlockList :: "timeblock list"
  bp_durSMap :: "string \<Rightarrow> durS option"
  bp_UserDurMap :: "string \<Rightarrow> int option"
  bp_vPlaceOpenMap :: "string \<Rightarrow> (int \<times> int) option"
  bp_hotMap :: "string \<Rightarrow> int option"
  bp_missLevelMap :: "nat \<Rightarrow> int option"
  bp_userMustPlaceSet :: "lyplace list"
  bp_userDelSet :: "lyplace list"
  bp_waitPlaceList :: "lyplace list"
  bp_allocDurMap :: "string \<Rightarrow> int option"
  bp_AvgTrafTimeMap :: "string \<Rightarrow> int option"
  bp_AvgTrafDistMap :: "string \<Rightarrow> int option"
  bp_ATRTimeCost :: int
  bp_ATRDist :: int
  bp_TrafficMap :: "string \<Rightarrow> traffic option"
  bp_customTrafMap :: "string \<Rightarrow> traffic option"
  bp_lastTripTrafMap :: "string \<Rightarrow> traffic option"
  bp_date2trafPrefer :: "string \<Rightarrow> u32 option"
  bp_qType :: string
  bp_TimeZone :: rat
  bp_scalePrefer :: cdouble
  bp_themeTag :: string
  bp_availDur :: int
  bp_planStats :: planstats
  bp_RestTypeMap :: "string \<Rightarrow> u32 option"
  bp_RestaurantTimeList :: "resttime list"
  bp_notPlanSet :: "string list"
  bp_PlaceDateMap :: "string \<Rightarrow> string list option"
  bp_entryCost :: "int list"
  bp_exitCost :: "int list"

definition BasePlan_new :: baseplan where
  "BasePlan_new =
     \<lparr>bp_KeyNode = [], bp_BlockList = [], bp_durSMap = Map.empty, bp_UserDurMap = Map.empty,
      bp_vPlaceOpenMap = Map.empty, bp_hotMap = Map.empty, bp_missLevelMap = Map.empty,
      bp_userMustPlaceSet = [], bp_userDelSet = [], bp_waitPlaceList = [],
      bp_allocDurMap = Map.empty, bp_AvgTrafTimeMap = Map.empty, bp_AvgTrafDistMap = Map.empty,
      bp_ATRTimeCost = 0, bp_ATRDist = 0, bp_TrafficMap = Map.empty,
      bp_customTrafMap = Map.empty, bp_lastTripTrafMap = Map.empty,
      bp_date2trafPrefer = Map.empty, bp_qType = '''', bp_TimeZone = 8, bp_scalePrefer = (1, 0),
      bp_themeTag = '''', bp_availDur = 0, bp_planStats = PlanStats_new,
      bp_RestTypeMap = Map.empty, bp_RestaurantTimeList = [], bp_notPlanSet = [],
      bp_PlaceDateMap = Map.empty,
      bp_entryCost = [], bp_exitCost = []\<rparr>"

section \<open>Two places of the constant data (LYConstData)\<close>

definition m_segmentPlace :: lyplace where
  "m_segmentPlace = place0\<lparr>lp_addr := 1, lp_ID := ''segment'', lp_t := 0x1000\<rparr>"

definition m_attachRest :: lyplace where
  "m_attachRest = place0\<lparr>lp_addr := 2, lp_ID := ''attach'', lp_t := LY_PLACE_TYPE_RESTAURANT,
     lp_isVar := True, lp_hot_level := 1\<rparr>"

definition IsRealID :: "string \<Rightarrow> bool" where
  "IsRealID pid = (if pid = lp_ID m_segmentPlace \<or> pid = lp_ID m_attachRest then False else True)"

definition blank_traffic_item :: traffic where
  "blank_traffic_item = TrafficItem_new\<lparr>tr_mode := traf_mode_int TRAF_MODE_DRIVING,
     tr_time := 0, tr_dist := 0, tr_mid := ''TrafficData::blank''\<rparr>"

definition self_traffic_item :: traffic where
  "self_traffic_item = TrafficItem_new\<lparr>tr_mode := traf_mode_int TRAF_MODE_DRIVING,
     tr_time := 0, tr_dist := 1, tr_mid := ''TrafficData::self''\<rparr>"

section \<open>Key nodes and blocks\<close>

definition GetKeyNum :: "baseplan \<Rightarrow> int" where
  "GetKeyNum bp = int (length (bp_KeyNode bp))"

definition GetKey :: "baseplan \<Rightarrow> int \<Rightarrow> keynode option" where
  "GetKey bp index = arr_get (bp_KeyNode bp) index"

definition GetBlockNum :: "baseplan \<Rightarrow> int" where
  "GetBlockNum bp = int (length (bp_BlockList bp))"

definition GetBlock :: "baseplan \<Rightarrow> int \<Rightarrow> timeblock option" where
  "GetBlock bp index = arr_get (bp_BlockList bp) index"

definition PushBlock :: "int \<Rightarrow> int \<Rightarrow> string \<Rightarrow> int \<Rightarrow> u8 \<Rightarrow> rat \<Rightarrow> baseplan \<Rightarrow> baseplan" where
  "PushBlock start stop trafDate avail_dur restNeed zone bp =
     bp\<lparr>bp_BlockList := bp_BlockList bp @ [TimeBlock_new start stop trafDate avail_dur restNeed zone]\<rparr>"

definition ClearBlock :: "baseplan \<Rightarrow> baseplan" where
  "ClearBlock bp = bp\<lparr>bp_BlockList := []\<rparr>"

definition IsUserDateAvail :: "baseplan \<Rightarrow> lyplace \<Rightarrow> string \<Rightarrow> bool" where
  "IsUserDateAvail bp place date =
     (case bp_PlaceDateMap bp (lp_ID place) of
        None \<Rightarrow> True
      | Some avail_date_set \<Rightarrow> if date \<in> set avail_date_set then True else False)"

section \<open>Durations\<close>

text \<open>Rounding to half hours in \<open>GetDurS\<close>, and the preference's scaling of the recommended
  duration (compressed below 0.9, stretched above 1.1).\<close>

definition norm_half_hour :: "int \<Rightarrow> int" where
  "norm_half_hour rcmdDur =
     (let hour = rcmdDur sdiv 1800; second = rcmdDur smod 1800
      in if second < 900 then hour * 1800 else (hour + 1) * 1800)"

definition d_0_9 :: cdouble where "d_0_9 = (8106479329266893, 53)"
definition d_1_1 :: cdouble where "d_1_1 = (2476979795053773, 51)"
definition d_0_01 :: cdouble where "d_0_01 = (5764607523034235, 59)"
definition d_1_9 :: cdouble where "d_1_9 = (4278419646001971, 51)"
definition d_0_7 :: cdouble where "d_0_7 = (3152519739159347, 52)"
definition d_1_6 :: cdouble where "d_1_6 = (3602879701896397, 51)"
definition d_0_5 :: cdouble where "d_0_5 = (1, 1)"
definition d_1_5 :: cdouble where "d_1_5 = (3, 1)"
definition d_0_1 :: cdouble where "d_0_1 = (3602879701896397, 55)"
definition d_0_3 :: cdouble where "d_0_3 = (5404319552844595, 54)"

definition scale_rcmd :: "cdouble \<Rightarrow> int \<Rightarrow> int" where
  "scale_rcmd scalePrefer rcmdDur =
     (if dval scalePrefer < dval d_0_9 then
        (if rcmdDur > 1800 \<and> rcmdDur < 3600 * 8 then
           (let r = norm_half_hour (dmulc rcmdDur scalePrefer)
            in if r \<le> 0 then 900 else r)
         else rcmdDur)
      else if dval scalePrefer > dval d_1_1 then
        (if rcmdDur \<le> 3600 * 6 then
           (let r = norm_half_hour (dmulc rcmdDur (dadd scalePrefer d_0_01))
            in if r > 3600 * 8 then 3600 * 8 else r)
         else rcmdDur)
      else rcmdDur)"

text \<open>The branch of \<open>GetDurS\<close> for a place with intensities.\<close>

definition var_durS :: "baseplan \<Rightarrow> lyplace \<Rightarrow> int \<Rightarrow> durS" where
  "var_durS bp vPlace rcmd0 =
     (let rcmdDur = scale_rcmd (bp_scalePrefer bp) rcmd0;
          minDur = hd (lp_intensity vPlace);
          maxDur = last (lp_intensity vPlace);
          (zipDur, extendDur) =
            (if lp_ranking vPlace \<le> 3 then (dmulc rcmdDur d_0_9, dmulc rcmdDur d_1_9)
             else if lp_hot_rank vPlace < dval d_0_1 then (dmulc rcmdDur d_0_7, dmulc rcmdDur d_1_6)
             else if lp_hot_rank vPlace < dval d_0_3 then (dmulc rcmdDur d_0_5, dmulc rcmdDur d_1_5)
             else (minDur, rcmdDur));
          theme = (bp_themeTag bp \<noteq> [] \<and> lp_tagSmallStr vPlace \<noteq> [] \<and>
                   str_find (bp_themeTag bp) (lp_tagSmallStr vPlace) \<noteq> None);
          zip1 = (if theme then rcmdDur else zipDur);
          min1 = (if theme then rcmdDur else minDur);
          extend1 = (if theme then maxDur else extendDur);
          pre = (case lp_tour vPlace of Some t \<Rightarrow> ti_preTime t | None \<Rightarrow> 0)
      in DurS_new (min1 + pre) (max (zip1 + pre) (min1 + pre)) (rcmdDur + pre)
           (min (extend1 + pre) (maxDur + pre)) (maxDur + pre))"

text \<open>\<open>None\<close>: a variable place type on an object that is not a \<open>VarPlace\<close> is dereferenced.\<close>

definition GetDurS :: "baseplan \<Rightarrow> lyplace \<Rightarrow> durS option" where
  "GetDurS bp place =
     (case bp_durSMap bp (lp_ID place) of
        Some d \<Rightarrow> Some d
      | None \<Rightarrow>
         (case bp_UserDurMap bp (lp_ID place) of
            Some userDur \<Rightarrow> Some (DurS_new userDur userDur userDur userDur userDur)
          | None \<Rightarrow>
             (case bp_vPlaceOpenMap bp (lp_ID place) of
                Some w \<Rightarrow>
                  (let userDur = snd w - fst w
                   in Some (DurS_new (userDur - 10 * 60) userDur userDur userDur (userDur + 10 * 60)))
              | None \<Rightarrow>
                 if has_flag (lp_t place) LY_PLACE_TYPE_RESTAURANT then
                   Some (DurS_new (45 * 60) 5400 (2 * 3600) (2 * 3600) (2 * 3600))
                 else if has_flag (lp_t place) LY_PLACE_TYPE_VAR_PLACE then
                   (if \<not> lp_isVar place then None
                    else (case lp_rcmd_intensity place of
                            Some rcmd0 \<Rightarrow>
                              if lp_intensity place \<noteq> [] then Some (var_durS bp place rcmd0)
                              else Some (DurS_new (15 * 60) (30 * 60) (30 * 60) (30 * 60) (60 * 60))
                          | None \<Rightarrow> Some (DurS_new (15 * 60) (30 * 60) (30 * 60) (30 * 60) (60 * 60))))
                 else Some (DurS_new (15 * 60) (30 * 60) (30 * 60) (30 * 60) (60 * 60)))))"

definition GetRcmdDur :: "baseplan \<Rightarrow> lyplace \<Rightarrow> int option" where
  "GetRcmdDur bp place =
     (case bp_durSMap bp (lp_ID place) of
        None \<Rightarrow> map_option ds_rcmd (GetDurS bp place) | Some d \<Rightarrow> Some (ds_rcmd d))"

definition GetMinDur :: "baseplan \<Rightarrow> lyplace \<Rightarrow> int option" where
  "GetMinDur bp place =
     (case bp_durSMap bp (lp_ID place) of
        None \<Rightarrow> map_option ds_min (GetDurS bp place) | Some d \<Rightarrow> Some (ds_min d))"

definition GetMaxDur :: "baseplan \<Rightarrow> lyplace \<Rightarrow> int option" where
  "GetMaxDur bp place =
     (case bp_durSMap bp (lp_ID place) of
        None \<Rightarrow> map_option ds_max (GetDurS bp place) | Some d \<Rightarrow> Some (ds_max d))"

definition GetZipDur :: "baseplan \<Rightarrow> lyplace \<Rightarrow> int option" where
  "GetZipDur bp place =
     (case bp_durSMap bp (lp_ID place) of
        None \<Rightarrow> map_option ds_zip (GetDurS bp place) | Some d \<Rightarrow> Some (ds_zip d))"

definition GetExtendDur :: "baseplan \<Rightarrow> lyplace \<Rightarrow> int option" where
  "GetExtendDur bp place =
     (case bp_durSMap bp (lp_ID place) of
        None \<Rightarrow> map_option ds_extend (GetDurS bp place) | Some d \<Rightarrow> Some (ds_extend d))"

definition GetDurSP :: "baseplan \<Rightarrow> lyplace \<Rightarrow> durS option" where
  "GetDurSP bp place = bp_durSMap bp (lp_ID place)"

definition SetDurS :: "lyplace \<Rightarrow> durS \<Rightarrow> baseplan \<Rightarrow> baseplan" where
  "SetDurS place d bp =
     bp\<lparr>bp_durSMap := (bp_durSMap bp)(lp_ID place \<mapsto>
       DurS_new (ds_min d) (ds_zip d) (ds_rcmd d) (ds_extend d) (ds_max d))\<rparr>"

section \<open>Averages and heat\<close>

definition GetAvgTrafTime :: "baseplan \<Rightarrow> string \<Rightarrow> int" where
  "GetAvgTrafTime bp pid =
     (if pid = lp_ID m_attachRest \<or> pid = lp_ID m_segmentPlace then 0
      else case bp_AvgTrafTimeMap bp pid of Some t \<Rightarrow> t | None \<Rightarrow> bp_ATRTimeCost bp)"

definition GetAvgTrafDist :: "baseplan \<Rightarrow> string \<Rightarrow> int" where
  "GetAvgTrafDist bp pid =
     (if pid = lp_ID m_attachRest \<or> pid = lp_ID m_segmentPlace then 0
      else case bp_AvgTrafDistMap bp pid of Some t \<Rightarrow> t | None \<Rightarrow> bp_ATRDist bp)"

definition GetAvgAllocDur :: "baseplan \<Rightarrow> lyplace \<Rightarrow> int option" where
  "GetAvgAllocDur bp place =
     do { r \<leftarrow> GetRcmdDur bp place; Some (r + GetAvgTrafTime bp (lp_ID place)) }"

definition GetMinAllocDur :: "baseplan \<Rightarrow> lyplace \<Rightarrow> int option" where
  "GetMinAllocDur bp place =
     do { r \<leftarrow> GetMinDur bp place; Some (r + GetAvgTrafTime bp (lp_ID place)) }"

definition GetAllocDur :: "baseplan \<Rightarrow> lyplace \<Rightarrow> int option" where
  "GetAllocDur bp place =
     (case bp_allocDurMap bp (lp_ID place) of Some d \<Rightarrow> Some d | None \<Rightarrow> GetAvgAllocDur bp place)"

definition GetHot :: "baseplan \<Rightarrow> lyplace \<Rightarrow> int" where
  "GetHot bp place = (case bp_hotMap bp (lp_ID place) of Some h \<Rightarrow> h | None \<Rightarrow> 0)"

definition GetMissLevel :: "baseplan \<Rightarrow> lyplace \<Rightarrow> int" where
  "GetMissLevel bp place = (case bp_missLevelMap bp (lp_addr place) of Some h \<Rightarrow> h | None \<Rightarrow> 0)"

section \<open>Traffic\<close>

definition GetCutId :: "string \<Rightarrow> string" where
  "GetCutId pid = (case str_find ''#'' pid of Some pos \<Rightarrow> take pos pid | None \<Rightarrow> pid)"

definition GetTraffic2 :: "baseplan \<Rightarrow> string \<Rightarrow> string \<Rightarrow> traffic option" where
  "GetTraffic2 bp ida idb =
     (let cutIda = GetCutId ida; cutIdb = GetCutId idb in
      if cutIda = lp_ID m_attachRest \<or> cutIdb = lp_ID m_attachRest
         \<or> cutIda = lp_ID m_segmentPlace \<or> cutIdb = lp_ID m_segmentPlace
         \<or> cutIda = ''arvNullPlace'' \<or> cutIdb = ''arvNullPlace''
         \<or> cutIda = ''deptNullPlace'' \<or> cutIdb = ''deptNullPlace''
      then Some blank_traffic_item
      else case bp_TrafficMap bp (cutIda @ ''_'' @ cutIdb) of
             None \<Rightarrow> if cutIda = cutIdb then Some self_traffic_item else None
           | Some t \<Rightarrow> Some t)"

text \<open>The overload with a date. An empty \<open>m_customTrafMap\<close> has no entry for the key either.\<close>

definition GetTraffic :: "baseplan \<Rightarrow> string \<Rightarrow> string \<Rightarrow> string \<Rightarrow> traffic option" where
  "GetTraffic bp ida idb date =
     (let cutIda = GetCutId ida; cutIdb = GetCutId idb; trafKey = cutIda @ ''_'' @ cutIdb in
      if date = [] \<or> \<not> IsRealID cutIda \<or> \<not> IsRealID cutIdb then GetTraffic2 bp cutIda cutIdb
      else case bp_customTrafMap bp trafKey of
        Some t \<Rightarrow> Some t
      | None \<Rightarrow>
         (let fallback = (case bp_TrafficMap bp (trafKey @ ''_'' @ date) of
                            Some t \<Rightarrow> Some t | None \<Rightarrow> GetTraffic2 bp cutIda cutIdb)
          in case bp_lastTripTrafMap bp trafKey of
               None \<Rightarrow> fallback
             | Some lastTraf \<Rightarrow>
                if bp_qType bp = ''s131'' then Some lastTraf
                else (case bp_date2trafPrefer bp date of
                        None \<Rightarrow> fallback
                      | Some trafPrefer \<Rightarrow>
                         if trafPrefer = 1 \<and> tr_mode lastTraf \<noteq> traf_mode_int TRAF_MODE_BUS
                         then Some lastTraf
                         else if trafPrefer \<noteq> 1 \<and> tr_mode lastTraf \<noteq> traf_mode_int TRAF_MODE_DRIVING
                         then Some lastTraf
                         else fallback)))"

section \<open>Restaurants, deletion, lists\<close>

definition RemoveNotPlanPlace :: "baseplan \<Rightarrow> lyplace list \<Rightarrow> lyplace list" where
  "RemoveNotPlanPlace bp placeList = filter (\<lambda>p. lp_ID p \<notin> set (bp_notPlanSet bp)) placeList"

definition IsRestaurant :: "baseplan \<Rightarrow> lyplace option \<Rightarrow> bool" where
  "IsRestaurant bp place =
     (case place of
        None \<Rightarrow> False
      | Some p \<Rightarrow>
         if same_place p m_attachRest then True
         else if has_flag (lp_t p) LY_PLACE_TYPE_RESTAURANT \<and> bp_RestTypeMap bp (lp_ID p) \<noteq> None
         then True else False)"

text \<open>The search of \<open>GetRestType\<close> runs from the last meal of the day to the first.\<close>

fun rest_scan :: "resttime list \<Rightarrow> u32 \<Rightarrow> int \<Rightarrow> int \<Rightarrow> u32" where
  "rest_scan [] restType arrive zeroTime = 0"
| "rest_scan (r # rs) restType arrive zeroTime =
     (if has_flag (rt_type r) restType \<and> arrive \<ge> zeroTime + rt_begin r then rt_type r
      else rest_scan rs restType arrive zeroTime)"

definition GetRestType :: "baseplan \<Rightarrow> lyplace \<Rightarrow> int \<Rightarrow> u32 option" where
  "GetRestType bp place arrive =
     (let restType = (if same_place place m_attachRest then 0xF
                      else case bp_RestTypeMap bp (lp_ID place) of Some r \<Rightarrow> r | None \<Rightarrow> 0)
      in if restType = 0 then Some 0
         else if restType = 2 then Some 2
         else if restType = 8 then Some 8
         else do {
           zeroTime \<leftarrow> toTime (date8 arrive (bp_TimeZone bp) @ ''_00:00'') (bp_TimeZone bp);
           Some (rest_scan (rev (bp_RestaurantTimeList bp)) restType arrive zeroTime) })"

definition IsDeletable :: "baseplan \<Rightarrow> lyplace option \<Rightarrow> bool" where
  "IsDeletable bp dPlace =
     (case dPlace of
        None \<Rightarrow> False
      | Some p \<Rightarrow>
         if \<not> has_flag (lp_t p) LY_PLACE_TYPE_VAR_PLACE then False
         else if \<exists>q \<in> set (bp_userMustPlaceSet bp). same_place p q then False
         else True)"

definition AvailDurLevel :: "baseplan \<Rightarrow> int" where
  "AvailDurLevel bp = trunc_rat (of_int (bp_availDur bp) / 3600 / 6)"

text \<open>Entry and exit times, by the place type, each from its own table
  (airport, station, bus station, car store, hotel).\<close>

definition by_type :: "int list \<Rightarrow> u32 \<Rightarrow> int option" where
  "by_type costs t =
     (if t = LY_PLACE_TYPE_AIRPORT then arr_get costs 0
      else if t = LY_PLACE_TYPE_STATION then arr_get costs 1
      else if t = LY_PLACE_TYPE_BUS_STATION then arr_get costs 2
      else if t = LY_PLACE_TYPE_CAR_STORE \<or> t \<noteq> LY_PLACE_TYPE_HOTEL then arr_get costs 3
      else arr_get costs 4)"

definition GetEntryTime :: "baseplan \<Rightarrow> lyplace \<Rightarrow> int option" where
  "GetEntryTime bp place = by_type (bp_entryCost bp) (lp_t place)"

definition GetExitTime :: "baseplan \<Rightarrow> lyplace \<Rightarrow> int option" where
  "GetExitTime bp place = by_type (bp_exitCost bp) (lp_t place)"

definition scale_neutral :: "baseplan \<Rightarrow> bool" where
  "scale_neutral bp \<longleftrightarrow> dval d_0_9 \<le> dval (bp_scalePrefer bp) \<and> dval (bp_scalePrefer bp) \<le> dval d_1_1"

section \<open>Lemmas\<close>

lemma dmulc_le: "0 \<le> d \<Longrightarrow> d < 2 ^ 31 \<Longrightarrow> int (fst x) \<le> 2 ^ snd x \<Longrightarrow> dmulc d x \<le> d"
  unfolding dmulc_def
  by (rule dmul_trunc_le) (auto simp: mult.commute [of _ d] intro!: mult_left_mono)

lemma dmulc_ge: "0 \<le> d \<Longrightarrow> d < 2 ^ 31 \<Longrightarrow> 2 ^ snd x \<le> int (fst x) \<Longrightarrow> d \<le> dmulc d x"
  unfolding dmulc_def
  by (rule dmul_trunc_ge) (auto simp: mult.commute [of _ d] intro!: mult_left_mono)

lemma dmulc_shrink:
  "0 \<le> d \<Longrightarrow> d < 2 ^ 31 \<Longrightarrow> x \<in> {d_0_9, d_0_7, d_0_5} \<Longrightarrow> dmulc d x \<le> d"
  by (rule dmulc_le) (auto simp: d_0_9_def d_0_7_def d_0_5_def)

lemma dmulc_grow:
  "0 \<le> d \<Longrightarrow> d < 2 ^ 31 \<Longrightarrow> x \<in> {d_1_9, d_1_6, d_1_5} \<Longrightarrow> d \<le> dmulc d x"
  by (rule dmulc_ge) (auto simp: d_1_9_def d_1_6_def d_1_5_def)

lemma var_durS_ordered:
  assumes "scale_neutral bp" "hd (lp_intensity p) \<le> r" "r \<le> last (lp_intensity p)" "0 \<le> r" "r < 2 ^ 31"
  shows "durS_ordered (var_durS bp p r)"
proof -
  have "scale_rcmd (bp_scalePrefer bp) r = r"
    using assms(1) by (simp add: scale_rcmd_def scale_neutral_def)
  then show ?thesis
    using assms dmulc_shrink [of r] dmulc_grow [of r]
    by (auto simp: var_durS_def Let_def durS_ordered_def DurS_new_def split: option.split)
qed

lemma norm_half_hour_near: "1800 dvd norm_half_hour d \<and> (0 \<le> d \<longrightarrow> \<bar>norm_half_hour d - d\<bar> \<le> 900)"
proof -
  define q r where "q = d div 1800" and "r = d mod 1800"
  have "d = 1800 * q + r" "0 \<le> r" "r < 1800" by (simp_all add: q_def r_def)
  then show ?thesis
    by (auto simp: norm_half_hour_def Let_def sdiv_nonneg smod_nonneg simp flip: q_def r_def)
qed

lemma GetCutId_suffix: "CHR ''#'' \<notin> set a \<Longrightarrow> GetCutId (a @ CHR ''#'' # s) = a"
  by (simp add: GetCutId_def str_find_char_append)

lemma GetCutId_no_hash: "CHR ''#'' \<notin> set (GetCutId a)"
proof (cases "str_find ''#'' a")
  case None
  then show ?thesis using str_find_char_None [of "CHR ''#''" a] by (simp add: GetCutId_def)
next
  case (Some p)
  have "str_find [c] s = Some p \<Longrightarrow> c \<notin> set (take p s)" for c :: char and s p
    by (induction s arbitrary: p) (auto split: if_splits)
  with Some show ?thesis by (simp add: GetCutId_def)
qed

lemma GetCutId_id: "CHR ''#'' \<notin> set a \<Longrightarrow> GetCutId a = a"
  by (simp add: GetCutId_def str_find_char_None [THEN iffD2])

section \<open>Properties\<close>

text \<open>C32: A place without a stored table gets durations in the order min, zip, rcmd, extend,
  max in every branch of \<open>GetDurS\<close> when the intensity preference does not scale and the
  recommended intensity lies between the first and the last one.\<close>

theorem GetDurS_ordered:
  assumes "bp_durSMap bp (lp_ID p) = None"
    and "scale_neutral bp"
    and "has_flag (lp_t p) LY_PLACE_TYPE_VAR_PLACE \<Longrightarrow> lp_isVar p"
    and "\<And>r. lp_rcmd_intensity p = Some r \<Longrightarrow> lp_intensity p \<noteq> [] \<Longrightarrow>
      hd (lp_intensity p) \<le> r \<and> r \<le> last (lp_intensity p) \<and> 0 \<le> r \<and> r < 2 ^ 31"
  shows "\<exists>d. GetDurS bp p = Some d \<and> durS_ordered d"
proof -
  have "durS_ordered (var_durS bp p r)" if "lp_rcmd_intensity p = Some r" "lp_intensity p \<noteq> []" for r
    using var_durS_ordered [OF assms(2)] assms(4) [OF that] by blast
  then show ?thesis
    using assms(1,3)
    by (auto simp: GetDurS_def Let_def durS_ordered_def DurS_new_def split: option.split)
qed

theorem GetDurS_ordered_witness:
  "\<exists>d. GetDurS BasePlan_new (place0\<lparr>lp_t := 2, lp_isVar := True, lp_intensity := [3600, 7200],
     lp_rcmd_intensity := Some 3600\<rparr>) = Some d \<and> durS_ordered d"
  by (rule GetDurS_ordered)
    (auto simp: BasePlan_new_def scale_neutral_def dval_def d_0_9_def d_1_1_def place0_def)


text \<open>The traffic lookup ignores the visit number after a \<open>#\<close> in both identifiers, and a
  place always has traffic to itself (its second visit included).\<close>

lemma GetTraffic_visits:
  assumes "CHR ''#'' \<notin> set a" "CHR ''#'' \<notin> set b"
  shows "GetTraffic bp (a @ CHR ''#'' # s) (b @ CHR ''#'' # t) date = GetTraffic bp a b date \<and>
    GetTraffic bp (a @ CHR ''#'' # s) a date \<noteq> None"
proof -
  have "GetTraffic2 bp a a \<noteq> None" for a
    by (auto simp: GetTraffic2_def Let_def split: option.split)
  then show ?thesis
    using assms by (auto simp: GetTraffic_def GetCutId_suffix GetCutId_id Let_def split: option.split)
qed

lemma GetTraffic_visits_witness:
  "GetTraffic BasePlan_new (''v1'' @ CHR ''#'' # ''01'') ''v1'' ''20160711'' \<noteq> None"
  using GetTraffic_visits [of "''v1''" "''v1''" BasePlan_new "''01''" "''02''" "''20160711''"] by simp

end
