(* ===== verification/PathView.thy ===== *)
theory PathView
  imports BasePlan
begin

text \<open>
  The itinerary \<open>PathView\<close> (Route/base/PathView.h and .cpp): an array of item slots that grows
  by a third, of which the first \<open>_len\<close> are in use. The array owns its \<open>PlanItem\<close> objects and
  each is in one slot, so moving pointers between slots is moving the items; \<open>pv_alloc\<close> says
  whether \<open>_item_list\<close> is non-null, and the capacity is the length of the slot list.

  A slot is reused with what the last item left in \<open>_idle\<close>, \<open>_remind_tag\<close>, \<open>_remind_tag_app\<close> and
  \<open>m_hasAttach\<close>, because \<open>PlanItem::Copy\<close> with arguments does not write these. The abstract value of a
  path is therefore the list of its items with these fields erased (\<open>core\<close>). The interface
  of the sequence is the locale \<open>item_sequence\<close>, interpreted on the operations below.
\<close>

section \<open>PlanItem\<close>

record planitem =
  pl_place :: lyplace
  pl_arvID :: string
  pl_deptID :: string
  pl_departTraffic :: "traffic option"
  pl_arriveTraffic :: "traffic option"
  pl_arriveTime :: int
  pl_departTime :: int
  pl_durS :: "durS option"
  pl_trafDate :: string
  pl_arriveDate :: string
  pl_departDate :: string
  pl_timeZone :: rat
  pl_openTime :: int
  pl_closeTime :: int
  pl_cost :: rat
  pl_type :: u32
  pl_remind_tag :: string
  pl_remind_tag_app :: string
  pl_idle :: int
  pl_hasAttach :: u32

definition PlanItem_new :: planitem where
  "PlanItem_new =
     \<lparr>pl_place = place0, pl_arvID = '''', pl_deptID = '''', pl_departTraffic = None,
      pl_arriveTraffic = None, pl_arriveTime = 0, pl_departTime = 0, pl_durS = None,
      pl_trafDate = '''', pl_arriveDate = '''', pl_departDate = '''', pl_timeZone = 8,
      pl_openTime = 0, pl_closeTime = 0, pl_cost = 0, pl_type = 0, pl_remind_tag = '''',
      pl_remind_tag_app = '''', pl_idle = 0, pl_hasAttach = 0\<rparr>"

definition PlanItem_Copy :: "planitem \<Rightarrow> planitem \<Rightarrow> planitem" where
  "PlanItem_Copy p slot = p\<lparr>pl_remind_tag_app := pl_remind_tag_app slot\<rparr>"

text \<open>The argument list of \<open>Copy\<close>, \<open>Append\<close> and \<open>Insert\<close>.\<close>

record itemargs =
  ia_place :: lyplace
  ia_arvID :: string
  ia_deptID :: string
  ia_arriveTraffic :: "traffic option"
  ia_departTraffic :: "traffic option"
  ia_arriveTime :: int
  ia_departTime :: int
  ia_durS :: "durS option"
  ia_trafDate :: string
  ia_openTime :: int
  ia_closeTime :: int
  ia_cost :: rat
  ia_type :: u32
  ia_timeZone :: rat

definition PlanItem_CopyArgs :: "itemargs \<Rightarrow> planitem \<Rightarrow> planitem" where
  "PlanItem_CopyArgs a slot =
     slot\<lparr>pl_place := ia_place a, pl_arvID := ia_arvID a, pl_deptID := ia_deptID a,
       pl_arriveTraffic := ia_arriveTraffic a, pl_departTraffic := ia_departTraffic a,
       pl_trafDate := ia_trafDate a, pl_arriveTime := ia_arriveTime a,
       pl_departTime := ia_departTime a, pl_durS := ia_durS a, pl_timeZone := ia_timeZone a,
       pl_arriveDate := date8 (ia_arriveTime a) (ia_timeZone a),
       pl_departDate := date8 (ia_departTime a) (ia_timeZone a),
       pl_openTime := ia_openTime a, pl_closeTime := ia_closeTime a, pl_cost := ia_cost a,
       pl_type := ia_type a\<rparr>"

definition PlanItem_GetDur :: "planitem \<Rightarrow> int" where
  "PlanItem_GetDur it = pl_departTime it - pl_arriveTime it"

text \<open>The item without the fields a reused slot may carry over.\<close>

definition core :: "planitem \<Rightarrow> planitem" where
  "core it = it\<lparr>pl_remind_tag := '''', pl_remind_tag_app := '''', pl_idle := 0, pl_hasAttach := 0\<rparr>"

definition args_core :: "itemargs \<Rightarrow> planitem" where
  "args_core a = core (PlanItem_CopyArgs a PlanItem_new)"

section \<open>PathView\<close>

record pathview =
  pv_alloc :: bool
  pv_item_list :: "planitem list"
  pv_len :: nat
  pv_score :: rat
  pv_dist :: int
  pv_time :: int
  pv_playDur :: int
  pv_blank :: int
  pv_hot :: int
  pv_missLevel :: int
  pv_cross :: int
  pv_debug_str :: string
  pv_error_str :: string
  pv_deleted :: bool
  pv_placeNum :: int
  pv_dfsScore :: rat
  pv_hotValue :: rat
  pv_trafDist :: int
  pv_trafDur :: int
  pv_trafBusCnt :: int
  pv_walkDistPlus :: int
  pv_hashFrom :: u32
  pv_isValid :: bool

abbreviation pv_capacity :: "pathview \<Rightarrow> nat" where
  "pv_capacity pv \<equiv> length (pv_item_list pv)"

definition PathView_Reset :: "pathview \<Rightarrow> pathview" where
  "PathView_Reset pv =
     pv\<lparr>pv_score := 0, pv_dist := 0, pv_time := 0, pv_hot := 0, pv_missLevel := 0, pv_blank := 0,
       pv_cross := 0, pv_len := 0, pv_placeNum := 0, pv_deleted := False, pv_error_str := '''',
       pv_debug_str := '''', pv_dfsScore := 0, pv_hotValue := 0, pv_trafDist := 0,
       pv_trafDur := 0, pv_trafBusCnt := 0, pv_walkDistPlus := 0, pv_hashFrom := 0,
       pv_isValid := False\<rparr>"

text \<open>\<open>Init\<close> allocates \<open>_capacity\<close> slots, not the \<open>capacity\<close> it is given; the constructor has set
  \<open>_capacity\<close> to 0.\<close>

definition PathView_Init :: "int \<Rightarrow> pathview \<Rightarrow> int \<times> pathview" where
  "PathView_Init capacity pv =
     (if pv_capacity pv > 0 \<or> pv_alloc pv then (1, pv)
      else (0, PathView_Reset (pv\<lparr>pv_alloc := True,
             pv_item_list := replicate (pv_capacity pv) PlanItem_new\<rparr>)))"

definition PathView_new :: pathview where
  "PathView_new = PathView_Reset
     \<lparr>pv_alloc = False, pv_item_list = [], pv_len = 0, pv_score = 0, pv_dist = 0, pv_time = 0,
      pv_playDur = 0, pv_blank = 0, pv_hot = 0, pv_missLevel = 0, pv_cross = 0,
      pv_debug_str = '''', pv_error_str = '''', pv_deleted = False, pv_placeNum = 0,
      pv_dfsScore = 0, pv_hotValue = 0, pv_trafDist = 0, pv_trafDur = 0, pv_trafBusCnt = 0,
      pv_walkDistPlus = 0, pv_hashFrom = 0, pv_isValid = False\<rparr>"

definition PathView_IncreaseCapacity :: "int \<Rightarrow> pathview \<Rightarrow> int \<times> pathview" where
  "PathView_IncreaseCapacity len pv =
     (if len \<le> 0 then (0, pv)
      else (0, pv\<lparr>pv_alloc := True,
             pv_item_list := pv_item_list pv @ replicate (nat len) PlanItem_new\<rparr>))"

text \<open>The growth step that \<open>Insert\<close> and both \<open>Append\<close> share.\<close>

definition PathView_Grow :: "pathview \<Rightarrow> int \<times> pathview" where
  "PathView_Grow pv =
     (if pv_len pv \<ge> pv_capacity pv
      then PathView_IncreaseCapacity
             (int (pv_len pv) - int (pv_capacity pv) + max 1 (dmulc (int (pv_capacity pv)) d_0_3)) pv
      else (0, pv))"

definition PathView_Length :: "pathview \<Rightarrow> int" where
  "PathView_Length pv = int (pv_len pv)"

definition PathView_GetItemIndex :: "pathview \<Rightarrow> int \<Rightarrow> planitem option" where
  "PathView_GetItemIndex pv index =
     (if index < 0 \<or> index \<ge> int (pv_len pv) then None else Some (pv_item_list pv ! nat index))"

definition PathView_GetItemLast :: "pathview \<Rightarrow> planitem option" where
  "PathView_GetItemLast pv =
     (if pv_len pv \<le> 0 then None else Some (pv_item_list pv ! (pv_len pv - 1)))"

text \<open>Writing through an item pointer: the slot at an index below \<open>_len\<close>.\<close>

definition pv_upd :: "int \<Rightarrow> (planitem \<Rightarrow> planitem) \<Rightarrow> pathview \<Rightarrow> pathview" where
  "pv_upd i f pv = pv\<lparr>pv_item_list := (pv_item_list pv)[nat i := f (pv_item_list pv ! nat i)]\<rparr>"

fun shift_right :: "'a list \<Rightarrow> nat \<Rightarrow> nat \<Rightarrow> 'a list" where
  "shift_right xs 0 index = xs"
| "shift_right xs (Suc i) index =
     (if Suc i > index then shift_right (xs[Suc i := xs ! i]) i index else xs)"

definition PathView_Insert :: "int \<Rightarrow> itemargs \<Rightarrow> pathview \<Rightarrow> int \<times> pathview" where
  "PathView_Insert index a pv0 =
     (if index < 0 \<or> index \<ge> int (pv_len pv0) then (1, pv0)
      else (let (ret, pv) = PathView_Grow pv0 in
        if ret \<noteq> 0 then (1, pv)
        else
          (let insert_item = PlanItem_CopyArgs a (pv_item_list pv ! pv_len pv);
               xs1 = (pv_item_list pv)[pv_len pv := insert_item];
               xs2 = shift_right xs1 (pv_len pv) (nat index);
               xs3 = xs2[nat index := insert_item]
           in (0, pv\<lparr>pv_item_list := xs3, pv_len := pv_len pv + 1\<rparr>))))"

definition PathView_AppendWith :: "(planitem \<Rightarrow> planitem) \<Rightarrow> pathview \<Rightarrow> int \<times> pathview" where
  "PathView_AppendWith wr pv0 =
     (let (ret, pv) = PathView_Grow pv0 in
      if ret \<noteq> 0 then (1, pv)
      else (0, pv\<lparr>pv_item_list := (pv_item_list pv)[pv_len pv := wr (pv_item_list pv ! pv_len pv)],
                 pv_len := pv_len pv + 1\<rparr>))"

definition PathView_Append :: "itemargs \<Rightarrow> pathview \<Rightarrow> int \<times> pathview" where
  "PathView_Append a pv = PathView_AppendWith (PlanItem_CopyArgs a) pv"

definition PathView_AppendItem :: "planitem \<Rightarrow> pathview \<Rightarrow> int \<times> pathview" where
  "PathView_AppendItem it pv = PathView_AppendWith (PlanItem_Copy it) pv"

fun shift_left :: "'a list \<Rightarrow> nat \<Rightarrow> nat \<Rightarrow> 'a list" where
  "shift_left xs i 0 = xs"
| "shift_left xs i (Suc k) = shift_left (xs[i - 1 := xs ! i]) (Suc i) k"

text \<open>\<open>Erase\<close> has no lower bound check: a negative index reads before the array.\<close>

definition PathView_Erase :: "int \<Rightarrow> pathview \<Rightarrow> (int \<times> pathview) option" where
  "PathView_Erase index pv =
     (if index \<ge> int (pv_len pv) then Some (1, pv)
      else if index < 0 then None
      else (let erase_item = pv_item_list pv ! nat index;
                xs1 = shift_left (pv_item_list pv) (nat index + 1) (pv_len pv - (nat index + 1));
                xs2 = xs1[pv_len pv - 1 := erase_item]
            in Some (0, pv\<lparr>pv_item_list := xs2, pv_len := pv_len pv - 1\<rparr>)))"

definition PathView_Pop :: "pathview \<Rightarrow> (int \<times> pathview) option" where
  "PathView_Pop pv = PathView_Erase (int (pv_len pv) - 1) pv"

definition PathView_ResetLen :: "int \<Rightarrow> pathview \<Rightarrow> pathview" where
  "PathView_ResetLen new_len pv =
     (if new_len \<ge> 0 \<and> int (pv_len pv) > new_len then pv\<lparr>pv_len := nat new_len\<rparr> else pv)"

definition PathView_Release :: "pathview \<Rightarrow> pathview" where
  "PathView_Release pv = PathView_Reset (pv\<lparr>pv_item_list := [], pv_alloc := False\<rparr>)"

text \<open>\<open>Copy\<close>: the fields it copies (not \<open>_playDur\<close>) and the items, slot by slot.\<close>

definition PathView_Copy :: "pathview \<Rightarrow> pathview \<Rightarrow> pathview" where
  "PathView_Copy path pv0 =
     (let pv = (if pv_capacity pv0 < pv_len path
                then snd (PathView_IncreaseCapacity (int (pv_len path) - int (pv_capacity pv0)) pv0)
                else pv0)
      in pv\<lparr>pv_len := pv_len path, pv_placeNum := pv_placeNum path, pv_deleted := pv_deleted path,
           pv_score := pv_score path, pv_dist := pv_dist path, pv_time := pv_time path,
           pv_hot := pv_hot path, pv_missLevel := pv_missLevel path, pv_blank := pv_blank path,
           pv_cross := pv_cross path,
           pv_item_list := map2 PlanItem_Copy (take (pv_len path) (pv_item_list path))
               (take (pv_len path) (pv_item_list pv)) @ drop (pv_len path) (pv_item_list pv),
           pv_debug_str := pv_debug_str path, pv_error_str := pv_error_str path,
           pv_dfsScore := pv_dfsScore path, pv_hotValue := pv_hotValue path,
           pv_trafDist := pv_trafDist path, pv_trafDur := pv_trafDur path,
           pv_trafBusCnt := pv_trafBusCnt path, pv_walkDistPlus := pv_walkDistPlus path,
           pv_hashFrom := pv_hashFrom path, pv_isValid := pv_isValid path\<rparr>)"

fun copy_range :: "pathview \<Rightarrow> int \<Rightarrow> nat \<Rightarrow> pathview \<Rightarrow> pathview" where
  "copy_range path i 0 pv = pv"
| "copy_range path i (Suc k) pv =
     (case PathView_GetItemIndex path i of
        Some it \<Rightarrow> copy_range path (i + 1) k (snd (PathView_AppendItem it pv))
      | None \<Rightarrow> copy_range path (i + 1) k pv)"

definition PathView_CopyN :: "pathview \<Rightarrow> int \<Rightarrow> int \<Rightarrow> pathview \<Rightarrow> pathview" where
  "PathView_CopyN path begIdx endIdx pv =
     copy_range path begIdx (nat (endIdx - begIdx + 1)) (PathView_Reset pv)"

fun sub_range :: "planitem list \<Rightarrow> int \<Rightarrow> pathview \<Rightarrow> pathview" where
  "sub_range [] idx pv = pv"
| "sub_range (it # its) idx pv =
     sub_range its (idx + 1)
       (if PathView_GetItemIndex pv idx \<noteq> None then pv_upd idx (PlanItem_Copy it) pv else pv)"

definition PathView_SubN :: "pathview \<Rightarrow> int \<Rightarrow> int \<Rightarrow> pathview \<Rightarrow> int \<times> pathview" where
  "PathView_SubN path begIdx endIdx pv =
     (if begIdx < 0 \<or> endIdx < 0 \<or> begIdx \<ge> PathView_Length pv \<or> endIdx \<ge> PathView_Length pv then (1, pv)
      else if PathView_Length path \<noteq> endIdx - begIdx + 1 then (1, pv)
      else (0, sub_range (take (pv_len path) (pv_item_list path)) begIdx pv))"

section \<open>Searching\<close>

definition PathView_GetIDStr :: "pathview \<Rightarrow> string" where
  "PathView_GetIDStr pv =
     snd (foldl (\<lambda>(first, ret) it. (False, (if first then ret else ret @ ''_'') @ lp_name (pl_place it)))
       (True, '''') (take (pv_len pv) (pv_item_list pv)))"

fun last_hotel_scan :: "planitem list \<Rightarrow> nat \<Rightarrow> nat option" where
  "last_hotel_scan xs 0 = None"
| "last_hotel_scan xs (Suc i) =
     (if has_flag (lp_t (pl_place (xs ! i))) LY_PLACE_TYPE_HOTEL then Some i else last_hotel_scan xs i)"

definition PathView_GetItemLastHotel :: "pathview \<Rightarrow> int \<Rightarrow> (nat \<times> planitem) option" where
  "PathView_GetItemLastHotel pv index =
     (if index < 0 \<or> index \<ge> int (pv_len pv) then None
      else map_option (\<lambda>i. (i, pv_item_list pv ! i)) (last_hotel_scan (pv_item_list pv) (nat index)))"

fun next_scan :: "(planitem \<Rightarrow> bool) \<Rightarrow> planitem list \<Rightarrow> nat \<Rightarrow> nat option" where
  "next_scan stop [] i = None"
| "next_scan stop (x # xs) i = (if stop x then Some i else next_scan stop xs (Suc i))"

definition PathView_GetItemNextHotel :: "pathview \<Rightarrow> int \<Rightarrow> (nat \<times> planitem) option" where
  "PathView_GetItemNextHotel pv index =
     (if index < 0 \<or> index \<ge> int (pv_len pv) then None
      else map_option (\<lambda>i. (i, pv_item_list pv ! i))
        (next_scan (\<lambda>it. has_flag (lp_t (pl_place it)) LY_PLACE_TYPE_HOTEL)
           (drop (nat index + 1) (take (pv_len pv) (pv_item_list pv))) (nat index + 1)))"

definition PathView_GetItemNextDayChange :: "pathview \<Rightarrow> int \<Rightarrow> (nat \<times> planitem) option" where
  "PathView_GetItemNextDayChange pv index =
     (if index < 0 \<or> index \<ge> int (pv_len pv) then None
      else map_option (\<lambda>i. (i, pv_item_list pv ! i))
        (next_scan (\<lambda>it. pl_departDate it \<noteq> pl_arriveDate (pv_item_list pv ! nat index))
           (drop (nat index + 1) (take (pv_len pv) (pv_item_list pv))) (nat index + 1)))"

fun day_scan :: "planitem list \<Rightarrow> string \<Rightarrow> int \<Rightarrow> int" where
  "day_scan [] date dayIdx = dayIdx"
| "day_scan (it # its) date dayIdx =
     (if date \<noteq> pl_trafDate it then day_scan its (pl_trafDate it) (dayIdx + 1)
      else day_scan its date dayIdx)"

definition PathView_GetDayIdxByIndex :: "pathview \<Rightarrow> int \<Rightarrow> int" where
  "PathView_GetDayIdxByIndex pv index =
     (if index \<ge> int (pv_len pv) then 0
      else day_scan (take (nat (index + 1)) (pv_item_list pv)) '''' (-1))"

section \<open>Abstraction\<close>

definition pv_ok :: "pathview \<Rightarrow> bool" where
  "pv_ok pv \<longleftrightarrow> pv_len pv \<le> pv_capacity pv"

definition pv_items :: "pathview \<Rightarrow> planitem list" where
  "pv_items pv = take (pv_len pv) (pv_item_list pv)"

definition pv_abs :: "pathview \<Rightarrow> planitem list" where
  "pv_abs pv = map core (pv_items pv)"

definition strip :: "planitem \<Rightarrow> planitem" where
  "strip it = it\<lparr>pl_remind_tag_app := ''''\<rparr>"

definition pv_strip :: "pathview \<Rightarrow> planitem list" where
  "pv_strip pv = map strip (pv_items pv)"

text \<open>A history of operations on a path and on the abstract list; \<open>Erase\<close> before the
  beginning is undefined.\<close>

datatype path_op = OpAppend itemargs | OpInsert int itemargs | OpErase int | OpPop
  | OpResetLen int | OpReset

fun path_run :: "path_op \<Rightarrow> pathview \<Rightarrow> pathview option" where
  "path_run (OpAppend a) pv = Some (snd (PathView_Append a pv))"
| "path_run (OpInsert i a) pv = Some (snd (PathView_Insert i a pv))"
| "path_run (OpErase i) pv = map_option snd (PathView_Erase i pv)"
| "path_run OpPop pv = map_option snd (PathView_Pop pv)"
| "path_run (OpResetLen n) pv = Some (PathView_ResetLen n pv)"
| "path_run OpReset pv = Some (PathView_Reset pv)"

fun spec_run :: "path_op \<Rightarrow> planitem list \<Rightarrow> planitem list option" where
  "spec_run (OpAppend a) xs = Some (xs @ [args_core a])"
| "spec_run (OpInsert i a) xs =
     Some (if 0 \<le> i \<and> i < int (length xs) then take (nat i) xs @ args_core a # drop (nat i) xs else xs)"
| "spec_run (OpErase i) xs =
     (if i < 0 then None else Some (take (nat i) xs @ drop (Suc (nat i)) xs))"
| "spec_run OpPop xs = (if xs = [] then None else Some (butlast xs))"
| "spec_run (OpResetLen n) xs = Some (if 0 \<le> n then take (nat n) xs else xs)"
| "spec_run OpReset xs = Some []"

fun run_all :: "('o \<Rightarrow> 's \<Rightarrow> 's option) \<Rightarrow> 'o list \<Rightarrow> 's \<Rightarrow> 's option" where
  "run_all step [] s = Some s"
| "run_all step (op # ops) s = (case step op s of None \<Rightarrow> None | Some s' \<Rightarrow> run_all step ops s')"

definition itemargs0 :: itemargs where
  "itemargs0 = \<lparr>ia_place = place0, ia_arvID = '''', ia_deptID = '''', ia_arriveTraffic = None,
     ia_departTraffic = None, ia_arriveTime = 0, ia_departTime = 0, ia_durS = None, ia_trafDate = '''',
     ia_openTime = 0, ia_closeTime = 0, ia_cost = 0, ia_type = 0, ia_timeZone = 8\<rparr>"

section \<open>The interface of a sequence\<close>

locale appendable =
  fixes inv :: "'s \<Rightarrow> bool" and abs :: "'s \<Rightarrow> 'i list" and img :: "'a \<Rightarrow> 'i"
    and app :: "'a \<Rightarrow> 's \<Rightarrow> int \<times> 's"
  assumes app_ret: "inv s \<Longrightarrow> fst (app a s) = 0"
    and app_inv: "inv s \<Longrightarrow> inv (snd (app a s))"
    and app_abs: "inv s \<Longrightarrow> abs (snd (app a s)) = abs s @ [img a]"
begin

lemma app_all:
  "inv s \<Longrightarrow> inv (fold (\<lambda>a s. snd (app a s)) as s) \<and>
    abs (fold (\<lambda>a s. snd (app a s)) as s) = abs s @ map img as"
  by (induction as arbitrary: s) (auto simp: app_inv app_abs)

end

locale item_sequence = appendable inv abs img app
  for inv :: "'s \<Rightarrow> bool" and abs :: "'s \<Rightarrow> 'i list" and img :: "'a \<Rightarrow> 'i"
    and app :: "'a \<Rightarrow> 's \<Rightarrow> int \<times> 's" +
  fixes ins :: "int \<Rightarrow> 'a \<Rightarrow> 's \<Rightarrow> int \<times> 's" and del :: "int \<Rightarrow> 's \<Rightarrow> (int \<times> 's) option"
  assumes ins_in: "inv s \<Longrightarrow> 0 \<le> i \<Longrightarrow> i < int (length (abs s)) \<Longrightarrow>
      fst (ins i a s) = 0 \<and> inv (snd (ins i a s)) \<and>
      abs (snd (ins i a s)) = take (nat i) (abs s) @ img a # drop (nat i) (abs s)"
    and ins_out: "inv s \<Longrightarrow> i < 0 \<or> int (length (abs s)) \<le> i \<Longrightarrow> ins i a s = (1, s)"
    and del_in: "inv s \<Longrightarrow> 0 \<le> i \<Longrightarrow> i < int (length (abs s)) \<Longrightarrow>
      \<exists>s'. del i s = Some (0, s') \<and> inv s' \<and>
        abs s' = take (nat i) (abs s) @ drop (Suc (nat i)) (abs s)"
    and del_out: "inv s \<Longrightarrow> int (length (abs s)) \<le> i \<Longrightarrow> del i s = Some (1, s)"
begin

lemma del_ins:
  assumes "inv s" "0 \<le> i" "i < int (length (abs s))"
  shows "\<exists>s'. del i (snd (ins i a s)) = Some (0, s') \<and> inv s' \<and> abs s' = abs s"
proof -
  note I = ins_in [OF assms, of a]
  obtain s' where "del i (snd (ins i a s)) = Some (0, s')" "inv s'"
    "abs s' = take (nat i) (abs (snd (ins i a s))) @ drop (Suc (nat i)) (abs (snd (ins i a s)))"
    using del_in [of "snd (ins i a s)" i] I assms by auto
  moreover have "length (take (nat i) (abs s)) = nat i" using assms by simp
  ultimately show ?thesis using I by simp
qed

lemma del_app:
  assumes "inv s"
  shows "\<exists>s'. del (int (length (abs s))) (snd (app a s)) = Some (0, s') \<and> inv s' \<and> abs s' = abs s"
  using del_in [OF app_inv [OF assms], of "int (length (abs s))" a] app_abs [OF assms, of a] by auto

end

section \<open>Moving slots\<close>

lemma length_shift_right [len_simps]: "length (shift_right xs i index) = length xs"
  by (induction xs i index rule: shift_right.induct) auto

lemma nth_shift_right:
  "i < length xs \<Longrightarrow> j < length xs \<Longrightarrow>
    shift_right xs i index ! j = (if index < j \<and> j \<le> i then xs ! (j - 1) else xs ! j)"
proof (induction xs i index arbitrary: j rule: shift_right.induct)
  case (2 xs i index)
  then show ?case by (auto simp: nth_list_update le_Suc_eq)
qed simp

lemma length_shift_left [len_simps]: "length (shift_left xs i k) = length xs"
  by (induction xs i k rule: shift_left.induct) auto

lemma nth_shift_left:
  "1 \<le> i \<Longrightarrow> i + k \<le> length xs \<Longrightarrow> j < length xs \<Longrightarrow>
    shift_left xs i k ! j = (if i - 1 \<le> j \<and> j < i - 1 + k then xs ! (j + 1) else xs ! j)"
proof (induction xs i k arbitrary: j rule: shift_left.induct)
  case (2 xs i k)
  have "shift_left (xs[i - 1 := xs ! i]) (Suc i) k ! j =
      (if i \<le> j \<and> j < i + k then xs[i - 1 := xs ! i] ! (j + 1) else xs[i - 1 := xs ! i] ! j)"
    using 2 by simp
  also have "\<dots> = (if i - 1 \<le> j \<and> j < i - 1 + Suc k then xs ! (j + 1) else xs ! j)"
    using 2(2,3,4) by (auto simp: nth_list_update)
  finally show ?case by simp
qed auto

lemma shift_right_insert:
  assumes "n \<le> i" "i < length xs"
  shows "take (Suc i) ((shift_right (xs[i := v]) i n)[n := v]) = take n xs @ v # drop n (take i xs)"
proof (rule nth_equalityI)
  show "length (take (Suc i) ((shift_right (xs[i := v]) i n)[n := v])) = length (take n xs @ v # drop n (take i xs))"
    using assms by (simp add: len_simps)
next
  fix j assume "j < length (take (Suc i) ((shift_right (xs[i := v]) i n)[n := v]))"
  then have "j \<le> i" using assms by (simp add: len_simps)
  then show "take (Suc i) ((shift_right (xs[i := v]) i n)[n := v]) ! j =
      (take n xs @ v # drop n (take i xs)) ! j"
    using assms
    by (auto simp: len_simps nth_shift_right nth_list_update nth_append nth_Cons' min_def)
qed

lemma shift_left_erase:
  assumes "n < len" "len \<le> length xs"
  shows "take (len - 1) ((shift_left xs (n + 1) (len - (n + 1)))[len - 1 := v]) =
    take n xs @ drop (Suc n) (take len xs)"
proof (rule nth_equalityI)
  show "length (take (len - 1) ((shift_left xs (n + 1) (len - (n + 1)))[len - 1 := v])) =
      length (take n xs @ drop (Suc n) (take len xs))"
    using assms by (simp add: len_simps)
next
  fix j assume "j < length (take (len - 1) ((shift_left xs (n + 1) (len - (n + 1)))[len - 1 := v]))"
  then have "j < len - 1" using assms by (simp add: len_simps)
  then show "take (len - 1) ((shift_left xs (n + 1) (len - (n + 1)))[len - 1 := v]) ! j =
      (take n xs @ drop (Suc n) (take len xs)) ! j"
    using assms by (auto simp: nth_shift_left nth_append)
qed

section \<open>PathView refines the sequence\<close>

lemma PathView_Grow_spec:
  assumes "pv_ok pv"
  obtains pv' where "PathView_Grow pv = (0, pv')" "pv_ok pv'" "pv_len pv' = pv_len pv"
    "pv_len pv < pv_capacity pv'" "pv_items pv' = pv_items pv"
    "\<exists>ys. pv' = pv\<lparr>pv_alloc := pv_alloc pv', pv_item_list := pv_item_list pv @ ys\<rparr>"
proof (cases "pv_len pv \<ge> pv_capacity pv")
  case True
  define g where "g = int (pv_len pv) - int (pv_capacity pv) + max 1 (dmulc (int (pv_capacity pv)) d_0_3)"
  have "1 \<le> g" using True by (simp add: g_def)
  then have "PathView_Grow pv = (0, pv\<lparr>pv_alloc := True,
      pv_item_list := pv_item_list pv @ replicate (nat g) PlanItem_new\<rparr>)"
    using True by (simp add: PathView_Grow_def PathView_IncreaseCapacity_def flip: g_def)
  then show ?thesis using that assms \<open>1 \<le> g\<close> True by (auto simp: pv_ok_def pv_items_def)
next
  case False
  have "\<exists>ys. pv = pv\<lparr>pv_alloc := pv_alloc pv, pv_item_list := pv_item_list pv @ ys\<rparr>"
    by (rule exI [of _ "[]"]) simp
  then show ?thesis using that [of pv] assms False by (simp add: PathView_Grow_def pv_ok_def)
qed

lemma PathView_AppendWith_spec:
  assumes "pv_ok pv"
  obtains pv' slot where "PathView_AppendWith wr pv = (0, pv')" "pv_ok pv'"
    "pv_items pv' = pv_items pv @ [wr slot]" "pv_len pv' = pv_len pv + 1"
proof -
  obtain pv1 where g: "PathView_Grow pv = (0, pv1)" "pv_ok pv1" "pv_len pv1 = pv_len pv"
    "pv_len pv < pv_capacity pv1" "pv_items pv1 = pv_items pv"
    using PathView_Grow_spec [OF assms] by metis
  show ?thesis
    by (rule that) (use g in \<open>auto simp: PathView_AppendWith_def pv_ok_def pv_items_def
        take_list_update_snoc\<close>)
qed

lemma core_CopyArgs: "core (PlanItem_CopyArgs a slot) = args_core a"
  by (simp add: core_def args_core_def PlanItem_CopyArgs_def)

lemma core_Copy: "core (PlanItem_Copy it slot) = core it"
  by (simp add: core_def PlanItem_Copy_def)

lemma length_pv_items: "pv_ok pv \<Longrightarrow> length (pv_items pv) = pv_len pv"
  by (simp add: pv_items_def pv_ok_def)

lemma PathView_Insert_spec:
  assumes "pv_ok pv" "0 \<le> i" "i < int (pv_len pv)"
  obtains pv' slot where "PathView_Insert i a pv = (0, pv')" "pv_ok pv'"
    "pv_items pv' = take (nat i) (pv_items pv) @ PlanItem_CopyArgs a slot # drop (nat i) (pv_items pv)"
proof -
  obtain pv1 where g: "PathView_Grow pv = (0, pv1)" "pv_ok pv1" "pv_len pv1 = pv_len pv"
    "pv_len pv < pv_capacity pv1" "pv_items pv1 = pv_items pv"
    using PathView_Grow_spec [OF assms(1)] by metis
  have i: "nat i \<le> pv_len pv1" "pv_len pv1 < length (pv_item_list pv1)" using g assms by auto
  have t: "take (nat i) (pv_items pv1) = take (nat i) (pv_item_list pv1)"
    using i by (simp add: pv_items_def min_def)
  define it where "it = PlanItem_CopyArgs a (pv_item_list pv1 ! pv_len pv1)"
  define xs where "xs = (shift_right ((pv_item_list pv1)[pv_len pv1 := it]) (pv_len pv1) (nat i))[nat i := it]"
  have l: "length xs = length (pv_item_list pv1)" by (simp add: xs_def len_simps)
  have "PathView_Insert i a pv = (0, pv1\<lparr>pv_item_list := xs, pv_len := pv_len pv1 + 1\<rparr>)"
    using g(1,3) assms by (simp add: PathView_Insert_def Let_def xs_def it_def)
  moreover have "pv_ok (pv1\<lparr>pv_item_list := xs, pv_len := pv_len pv1 + 1\<rparr>)"
    using i l by (simp add: pv_ok_def)
  moreover have "pv_items (pv1\<lparr>pv_item_list := xs, pv_len := pv_len pv1 + 1\<rparr>) =
      take (nat i) (pv_items pv) @ it # drop (nat i) (pv_items pv)"
    using shift_right_insert [OF i, of it] unfolding g(5) [symmetric] t by (simp add: xs_def pv_items_def)
  ultimately show ?thesis using that it_def by metis
qed

lemma PathView_Erase_spec:
  assumes "pv_ok pv" "0 \<le> i" "i < int (pv_len pv)"
  obtains pv' where "PathView_Erase i pv = Some (0, pv')" "pv_ok pv'" "pv_len pv' = pv_len pv - 1"
    "pv_items pv' = take (nat i) (pv_items pv) @ drop (Suc (nat i)) (pv_items pv)"
proof -
  have n: "nat i < pv_len pv" "pv_len pv \<le> length (pv_item_list pv)"
    using assms by (auto simp: pv_ok_def)
  have t: "take (nat i) (pv_items pv) = take (nat i) (pv_item_list pv)"
    using n by (simp add: pv_items_def min_def)
  define xs where "xs = (shift_left (pv_item_list pv) (nat i + 1) (pv_len pv - (nat i + 1)))
      [pv_len pv - 1 := pv_item_list pv ! nat i]"
  define pv' where "pv' = pv\<lparr>pv_item_list := xs, pv_len := pv_len pv - 1\<rparr>"
  have "PathView_Erase i pv = Some (0, pv')"
    using assms by (simp add: PathView_Erase_def Let_def xs_def pv'_def)
  moreover have "pv_ok pv'" "pv_len pv' = pv_len pv - 1"
    using n by (simp_all add: pv_ok_def xs_def pv'_def len_simps)
  moreover have "pv_items pv' = take (nat i) (pv_items pv) @ drop (Suc (nat i)) (pv_items pv)"
    using shift_left_erase [OF n] unfolding t by (simp add: xs_def pv'_def pv_items_def)
  ultimately show ?thesis using that by metis
qed

interpretation pvs: item_sequence pv_ok pv_abs args_core PathView_Append PathView_Insert PathView_Erase
proof unfold_locales
  fix s a i
  assume ok: "pv_ok s"
  obtain s' slot where "PathView_Append a s = (0, s')" "pv_ok s'"
    "pv_items s' = pv_items s @ [PlanItem_CopyArgs a slot]"
    unfolding PathView_Append_def using PathView_AppendWith_spec [OF ok] by metis
  then show "fst (PathView_Append a s) = 0" "pv_ok (snd (PathView_Append a s))"
    "pv_abs (snd (PathView_Append a s)) = pv_abs s @ [args_core a]"
    by (simp_all add: pv_abs_def core_CopyArgs)
  note len = length_pv_items [OF ok]
  show "fst (PathView_Insert i a s) = 0 \<and> pv_ok (snd (PathView_Insert i a s)) \<and>
      pv_abs (snd (PathView_Insert i a s)) =
        take (nat i) (pv_abs s) @ args_core a # drop (nat i) (pv_abs s)"
    if i: "0 \<le> i" "i < int (length (pv_abs s))"
  proof -
    have "i < int (pv_len s)" using i len by (simp add: pv_abs_def)
    then obtain s' slot where "PathView_Insert i a s = (0, s')" "pv_ok s'"
      "pv_items s' = take (nat i) (pv_items s) @ PlanItem_CopyArgs a slot # drop (nat i) (pv_items s)"
      using PathView_Insert_spec [OF ok i(1)] by metis
    then show ?thesis by (simp add: pv_abs_def core_CopyArgs take_map drop_map)
  qed
  show "PathView_Insert i a s = (1, s)" if "i < 0 \<or> int (length (pv_abs s)) \<le> i"
    using that len by (auto simp: PathView_Insert_def pv_abs_def)
  show "\<exists>s'. PathView_Erase i s = Some (0, s') \<and> pv_ok s' \<and>
      pv_abs s' = take (nat i) (pv_abs s) @ drop (Suc (nat i)) (pv_abs s)"
    if i: "0 \<le> i" "i < int (length (pv_abs s))"
  proof -
    have "i < int (pv_len s)" using i len by (simp add: pv_abs_def)
    then obtain s' where "PathView_Erase i s = Some (0, s')" "pv_ok s'"
      "pv_items s' = take (nat i) (pv_items s) @ drop (Suc (nat i)) (pv_items s)"
      using PathView_Erase_spec [OF ok i(1)] by metis
    then show ?thesis by (simp add: pv_abs_def take_map drop_map)
  qed
  show "PathView_Erase i s = Some (1, s)" if "int (length (pv_abs s)) \<le> i"
    using that len by (auto simp: PathView_Erase_def pv_abs_def)
qed

interpretation pvi: appendable pv_ok pv_strip strip PathView_AppendItem
proof unfold_locales
  fix s a
  assume ok: "pv_ok s"
  obtain s' slot where "PathView_AppendItem a s = (0, s')" "pv_ok s'"
    "pv_items s' = pv_items s @ [PlanItem_Copy a slot]"
    unfolding PathView_AppendItem_def using PathView_AppendWith_spec [OF ok] by metis
  then show "fst (PathView_AppendItem a s) = 0" "pv_ok (snd (PathView_AppendItem a s))"
    "pv_strip (snd (PathView_AppendItem a s)) = pv_strip s @ [strip a]"
    by (simp_all add: pv_strip_def strip_def PlanItem_Copy_def)
qed

section \<open>Histories\<close>

lemma length_pv_abs: "pv_ok pv \<Longrightarrow> length (pv_abs pv) = pv_len pv"
  by (simp add: pv_abs_def length_pv_items)

lemma erase_refines:
  assumes "pv_ok pv"
  shows "map_option (pv_abs \<circ> snd) (PathView_Erase i pv) = spec_run (OpErase i) (pv_abs pv) \<and>
    (\<forall>r. PathView_Erase i pv = Some r \<longrightarrow> pv_ok (snd r))"
proof (cases "0 \<le> i \<and> i < int (pv_len pv)")
  case True
  then show ?thesis using pvs.del_in [OF assms, of i] length_pv_abs [OF assms] by auto
next
  case False
  then show ?thesis using assms length_pv_abs [OF assms]
    by (auto simp: PathView_Erase_def Let_def)
qed

lemma path_run_refines:
  assumes "pv_ok pv"
  shows "map_option pv_abs (path_run op pv) = spec_run op (pv_abs pv) \<and>
    (\<forall>pv'. path_run op pv = Some pv' \<longrightarrow> pv_ok pv')"
proof (cases op)
  case (OpInsert i a)
  then show ?thesis
    using pvs.ins_in [OF assms, of i a] pvs.ins_out [OF assms, of i a] assms
    by (cases "0 \<le> i \<and> i < int (length (pv_abs pv))") auto
next
  case (OpErase i)
  then show ?thesis using erase_refines [OF assms, of i] by (auto simp: option.map_comp)
next
  case OpPop
  have "pv_abs pv = [] \<longleftrightarrow> pv_len pv = 0" using length_pv_abs [OF assms] by auto
  moreover have "spec_run (OpErase (int (pv_len pv) - 1)) xs = spec_run OpPop xs"
    if "length xs = pv_len pv" for xs
    using that by (cases "pv_len pv") (auto simp: butlast_conv_take)
  ultimately show ?thesis
    using erase_refines [OF assms, of "int (pv_len pv) - 1"] OpPop length_pv_abs [OF assms]
    by (auto simp: PathView_Pop_def option.map_comp)
next
  case (OpResetLen n)
  have "0 \<le> n \<Longrightarrow> \<not> n < int (pv_len pv) \<Longrightarrow> min (nat n) (pv_len pv) = pv_len pv"
    "0 \<le> n \<Longrightarrow> n < int (pv_len pv) \<Longrightarrow> min (nat n) (pv_len pv) = nat n" by auto
  then show ?thesis
    using assms OpResetLen
    by (auto simp: PathView_ResetLen_def pv_ok_def pv_abs_def pv_items_def take_map)
next
  case OpReset
  then show ?thesis by (simp add: PathView_Reset_def pv_ok_def pv_abs_def pv_items_def)
qed (use assms in \<open>simp add: pvs.app_abs pvs.app_inv\<close>)

lemma run_all_refines:
  "pv_ok pv \<Longrightarrow> map_option pv_abs (run_all path_run ops pv) = run_all spec_run ops (pv_abs pv)"
proof (induction ops arbitrary: pv)
  case (Cons op ops)
  then show ?case using path_run_refines [of pv op]
    by (cases "path_run op pv") (auto split: option.splits)
qed simp

section \<open>Copies\<close>

lemma PathView_Copy_strip:
  assumes "pv_ok path" "pv_ok pv"
  shows "pv_ok (PathView_Copy path pv) \<and> pv_strip (PathView_Copy path pv) = pv_strip path"
proof -
  define pv1 where "pv1 = (if pv_capacity pv < pv_len path
     then snd (PathView_IncreaseCapacity (int (pv_len path) - int (pv_capacity pv)) pv) else pv)"
  have c: "pv_len path \<le> pv_capacity pv1"
    by (auto simp: pv1_def PathView_IncreaseCapacity_def)
  have "map strip (map2 PlanItem_Copy xs ys) = map strip xs" if "length xs = length ys" for xs ys
    using that by (induction xs ys rule: list_induct2) (auto simp: strip_def PlanItem_Copy_def)
  then show ?thesis
    using c assms(1) unfolding PathView_Copy_def pv1_def [symmetric] Let_def
    by (simp add: pv_ok_def pv_strip_def pv_items_def)
qed

lemma copy_range_strip:
  assumes "pv_ok path"
  shows "pv_ok pv \<Longrightarrow> pv_ok (copy_range path i k pv) \<and>
    pv_strip (copy_range path i k pv) =
      pv_strip pv @ drop (nat i) (take (nat (i + int k)) (pv_strip path))"
proof (induction k arbitrary: i pv)
  case 0
  then show ?case by simp
next
  case (Suc k)
  have len: "length (pv_strip path) = pv_len path"
    by (simp add: pv_strip_def length_pv_items [OF assms])
  show ?case
  proof (cases "0 \<le> i \<and> i < int (pv_len path)")
    case True
    define it where "it = pv_item_list path ! nat i"
    have g: "PathView_GetItemIndex path i = Some it" using True by (simp add: PathView_GetItemIndex_def it_def)
    have st: "pv_strip path ! nat i = strip it"
      using True assms by (subst pv_strip_def, subst nth_map) (auto simp: pv_items_def it_def pv_ok_def)
    have "nat i < length (take (nat (i + int (Suc k))) (pv_strip path))"
      using True len by auto
    from Cons_nth_drop_Suc [OF this]
    have "drop (nat i) (take (nat (i + int (Suc k))) (pv_strip path)) =
        strip it # drop (nat (i + 1)) (take (nat (i + 1 + int k)) (pv_strip path))"
      using True st by (simp add: ac_simps Suc_nat_eq_nat_zadd1)
    then show ?thesis
      using Suc.IH [where i = "i + 1", OF pvi.app_inv [OF Suc.prems, of it]]
        pvi.app_abs [OF Suc.prems, of it] g
      by simp
  next
    case False
    then have "PathView_GetItemIndex path i = None" by (auto simp: PathView_GetItemIndex_def)
    moreover have "drop (nat i) (take (nat (i + int (Suc k))) (pv_strip path)) =
        drop (nat (i + 1)) (take (nat (i + 1 + int k)) (pv_strip path))"
      using False len by (cases "i < 0") (auto simp: ac_simps)
    ultimately show ?thesis using Suc.IH [OF Suc.prems, of "i + 1"] by simp
  qed
qed

lemma PathView_CopyN_strip:
  assumes "pv_ok path"
  shows "pv_ok (PathView_CopyN path b e pv) \<and>
    pv_strip (PathView_CopyN path b e pv) = drop (nat b) (take (nat (e + 1)) (pv_strip path))"
proof -
  have r: "pv_ok (PathView_Reset pv)" "pv_strip (PathView_Reset pv) = []"
    by (simp_all add: PathView_Reset_def pv_ok_def pv_strip_def pv_items_def)
  show ?thesis
  proof (cases "b \<le> e + 1")
    case True
    then have "b + int (nat (e - b + 1)) = e + 1" by simp
    then show ?thesis
      using copy_range_strip [OF assms r(1), of b "nat (e - b + 1)"] r(2)
      by (simp add: PathView_CopyN_def)
  next
    case False
    then show ?thesis using r by (simp add: PathView_CopyN_def)
  qed
qed

lemma sub_range_strip:
  "pv_ok pv \<Longrightarrow> 0 \<le> b \<Longrightarrow> nat b + length its \<le> pv_len pv \<Longrightarrow>
    pv_ok (sub_range its b pv) \<and> pv_len (sub_range its b pv) = pv_len pv \<and>
    pv_strip (sub_range its b pv) =
      take (nat b) (pv_strip pv) @ map strip its @ drop (nat b + length its) (pv_strip pv)"
proof (induction its arbitrary: b pv)
  case (Cons it its)
  define pv1 where "pv1 = pv_upd b (PlanItem_Copy it) pv"
  have g: "PathView_GetItemIndex pv b \<noteq> None" using Cons by (simp add: PathView_GetItemIndex_def)
  have ok: "pv_ok pv1" "pv_len pv1 = pv_len pv" using Cons.prems by (auto simp: pv1_def pv_upd_def pv_ok_def)
  have st: "pv_strip pv1 = (pv_strip pv)[nat b := strip it]"
    using Cons.prems by (simp add: pv_strip_def pv_items_def pv1_def pv_upd_def take_update_swap
        map_update strip_def PlanItem_Copy_def pv_ok_def)
  have "nat b < length (pv_strip pv)" using Cons.prems by (simp add: pv_strip_def length_pv_items)
  then have "take (nat (b + 1)) (pv_strip pv1) = take (nat b) (pv_strip pv) @ [strip it]"
    using take_list_update_snoc [of "nat b" "pv_strip pv" "strip it"] Cons.prems st
    by (simp add: nat_add_distrib)
  moreover have "drop (nat (b + 1) + length its) (pv_strip pv1) =
      drop (nat b + length (it # its)) (pv_strip pv)"
    using Cons.prems unfolding st by (simp add: nat_add_distrib)
  ultimately show ?case
    using Cons.IH [of pv1 "b + 1"] Cons.prems ok g by (simp add: nat_add_distrib flip: pv1_def)
qed simp

lemma PathView_SubN_strip:
  assumes "pv_ok pv" "pv_ok path" "0 \<le> b" "b \<le> e" "e < int (pv_len pv)"
    "int (pv_len path) = e - b + 1"
  shows "\<exists>pv'. PathView_SubN path b e pv = (0, pv') \<and> pv_ok pv' \<and>
    pv_strip pv' = take (nat b) (pv_strip pv) @ pv_strip path @ drop (nat (e + 1)) (pv_strip pv)"
proof -
  define its where "its = take (pv_len path) (pv_item_list path)"
  have l: "length its = pv_len path" using assms(2) by (simp add: its_def pv_ok_def)
  have "nat b + pv_len path = nat (e + 1)" using assms by linarith
  then have "pv_ok (sub_range its b pv) \<and> pv_strip (sub_range its b pv) =
      take (nat b) (pv_strip pv) @ map strip its @ drop (nat (e + 1)) (pv_strip pv)"
    using assms sub_range_strip [of pv b its] l by auto
  moreover have "PathView_SubN path b e pv = (0, sub_range its b pv)"
    using assms by (simp add: PathView_SubN_def PathView_Length_def its_def)
  ultimately show ?thesis by (simp add: pv_strip_def [of path] pv_items_def its_def)
qed

section \<open>Searches\<close>

lemma GetIDStr_join: "PathView_GetIDStr pv = join2String (map (lp_name \<circ> pl_place) (pv_items pv)) ''_''"
proof -
  have "snd (foldl (\<lambda>(first, ret) it. (False, (if first then ret else ret @ ''_'') @ lp_name (pl_place it)))
       (first, ret) xs) = join_from first ret (map (lp_name \<circ> pl_place) xs) ''_''" for first ret xs
    by (induction xs arbitrary: first ret) auto
  then show ?thesis by (simp add: PathView_GetIDStr_def join2String_def pv_items_def)
qed

lemma last_hotel_scan_spec:
  "last_hotel_scan xs n = Some i \<Longrightarrow>
     i < n \<and> has_flag (lp_t (pl_place (xs ! i))) LY_PLACE_TYPE_HOTEL \<and>
     (\<forall>j. i < j \<and> j < n \<longrightarrow> \<not> has_flag (lp_t (pl_place (xs ! j))) LY_PLACE_TYPE_HOTEL)"
  by (induction xs n rule: last_hotel_scan.induct) (auto split: if_splits simp: less_Suc_eq)

lemma last_hotel_scan_None:
  "last_hotel_scan xs n = None \<Longrightarrow> j < n \<Longrightarrow> \<not> has_flag (lp_t (pl_place (xs ! j))) LY_PLACE_TYPE_HOTEL"
  by (induction xs n rule: last_hotel_scan.induct) (auto split: if_splits simp: less_Suc_eq)

lemma next_scan_spec:
  "next_scan stop xs k = Some i \<Longrightarrow>
     k \<le> i \<and> i < k + length xs \<and> stop (xs ! (i - k)) \<and> (\<forall>j < i - k. \<not> stop (xs ! j))"
proof (induction stop xs k rule: next_scan.induct)
  case (2 stop x xs k)
  show ?case
  proof (cases "stop x")
    case False
    then have *: "Suc k \<le> i \<and> i < Suc k + length xs \<and> stop (xs ! (i - Suc k)) \<and>
        (\<forall>j < i - Suc k. \<not> stop (xs ! j))" using 2 by simp
    then have "i - k = Suc (i - Suc k)" by linarith
    then show ?thesis using * False by (auto simp: nth_Cons split: nat.split)
  qed (use 2 in simp)
qed simp

section \<open>Properties\<close>

text \<open>C5: Every history of appends, inserts, erasures, pops, truncations and resets of a new
  path has the effect of the same history on a list of items, including which histories are
  undefined (erasing at a negative index, popping an empty path): the growing slot array and
  the pointer shifting implement the sequence.\<close>

theorem PathView_history_refines:
  "map_option pv_abs (run_all path_run ops PathView_new) = run_all spec_run ops []"
proof -
  have "pv_ok PathView_new" "pv_abs PathView_new = []"
    by (simp_all add: PathView_new_def PathView_Reset_def pv_ok_def pv_abs_def pv_items_def)
  then show ?thesis using run_all_refines [of PathView_new ops] by simp
qed

text \<open>C26: \<open>CopyN\<close> extracts the items of an index range, for any bounds, clipped to the path;
  substituting an extracted range of indices back with \<open>SubN\<close> succeeds and leaves the path's
  items as they were.\<close>

theorem PathView_cut_and_substitute:
  assumes "pv_ok pv" "0 \<le> b" "b \<le> e" "e < int (pv_len pv)"
  shows "pv_strip (PathView_CopyN pv b' e' tmp) = drop (nat b') (take (nat (e' + 1)) (pv_strip pv)) \<and>
    (\<exists>pv'. PathView_SubN (PathView_CopyN pv b e tmp) b e pv = (0, pv') \<and> pv_strip pv' = pv_strip pv)"
proof -
  define q where "q = PathView_CopyN pv b e tmp"
  have q: "pv_ok q" "pv_strip q = drop (nat b) (take (nat (e + 1)) (pv_strip pv))"
    unfolding q_def using PathView_CopyN_strip [OF assms(1)] by auto
  have "pv_len q = length (pv_strip q)" using q(1) by (simp add: pv_strip_def length_pv_items)
  also have "int (length (pv_strip q)) = e - b + 1"
    unfolding q(2) using assms by (simp add: pv_strip_def length_pv_items [OF assms(1)])
  finally obtain pv' where "PathView_SubN q b e pv = (0, pv')"
    "pv_strip pv' = take (nat b) (pv_strip pv) @ pv_strip q @ drop (nat (e + 1)) (pv_strip pv)"
    using PathView_SubN_strip [OF assms(1) q(1) assms(2-4)] by auto
  moreover have "take (nat b) xs @ drop (nat b) (take (nat (e + 1)) xs) @ drop (nat (e + 1)) xs = xs"
    for xs :: "planitem list"
  proof -
    have "take (nat b) xs = take (nat b) (take (nat (e + 1)) xs)" using assms by (simp add: min_def)
    then show ?thesis by (metis append_assoc append_take_drop_id)
  qed
  ultimately show ?thesis
    using PathView_CopyN_strip [OF assms(1)] unfolding q_def [symmetric] q(2) by auto
qed

theorem PathView_cut_and_substitute_witness:
  "\<exists>pv'. PathView_SubN (PathView_CopyN (PathView_new\<lparr>pv_item_list := [PlanItem_new], pv_len := 1\<rparr>) 0 0
      PathView_new) 0 0 (PathView_new\<lparr>pv_item_list := [PlanItem_new], pv_len := 1\<rparr>) = (0, pv') \<and>
    pv_strip pv' = pv_strip (PathView_new\<lparr>pv_item_list := [PlanItem_new], pv_len := 1\<rparr>)"
  using PathView_cut_and_substitute [of "PathView_new\<lparr>pv_item_list := [PlanItem_new], pv_len := 1\<rparr>"
      0 0 0 0 PathView_new]
  by (simp add: pv_ok_def)

text \<open>A slot freed by \<open>Erase\<close> and reused by \<open>Append\<close> keeps the meal mark and the idle time
  of the erased item: these are not fields of the appended item's arguments.\<close>

lemma PathView_reused_slot_stale:
  assumes "pv_ok pv" "0 < pv_len pv"
  shows "\<exists>pv1 pv2. PathView_Pop pv = Some (0, pv1) \<and> PathView_Append a pv1 = (0, pv2) \<and>
    pl_hasAttach (pv_item_list pv2 ! (pv_len pv - 1)) = pl_hasAttach (pv_item_list pv ! (pv_len pv - 1)) \<and>
    pl_idle (pv_item_list pv2 ! (pv_len pv - 1)) = pl_idle (pv_item_list pv ! (pv_len pv - 1))"
proof -
  define pv1 where "pv1 = pv\<lparr>pv_item_list := (pv_item_list pv)[pv_len pv - 1 := pv_item_list pv ! (pv_len pv - 1)],
    pv_len := pv_len pv - 1\<rparr>"
  have i: "nat (int (pv_len pv) - 1) = pv_len pv - 1" "pv_len pv - 1 + 1 = pv_len pv"
    using assms by auto
  have p: "PathView_Pop pv = Some (0, pv1)"
    using assms i by (simp add: PathView_Pop_def PathView_Erase_def Let_def pv1_def)
  have "pv_len pv1 < pv_capacity pv1" using assms by (auto simp: pv1_def pv_ok_def)
  then have "PathView_Append a pv1 = (0, pv1\<lparr>pv_item_list := (pv_item_list pv1)[pv_len pv1 :=
      PlanItem_CopyArgs a (pv_item_list pv1 ! pv_len pv1)], pv_len := pv_len pv1 + 1\<rparr>)"
    by (simp add: PathView_Append_def PathView_AppendWith_def PathView_Grow_def)
  with p assms show ?thesis
    by (intro exI [of _ pv1] exI) (auto simp: pv1_def PlanItem_CopyArgs_def pv_ok_def)
qed

lemma PathView_reused_slot_stale_witness:
  "\<exists>pv1 pv2. PathView_Pop (PathView_new\<lparr>pv_item_list := [PlanItem_new\<lparr>pl_hasAttach := 2\<rparr>], pv_len := 1\<rparr>) =
      Some (0, pv1) \<and> PathView_Append itemargs0 pv1 = (0, pv2) \<and> pl_hasAttach (pv_item_list pv2 ! 0) = 2"
  using PathView_reused_slot_stale
    [of "PathView_new\<lparr>pv_item_list := [PlanItem_new\<lparr>pl_hasAttach := 2\<rparr>], pv_len := 1\<rparr>" itemargs0]
  by (auto simp: pv_ok_def)

end
