(* ===== verification/PathEval.thy ===== *)
theory PathEval
  imports PathView
begin

text \<open>
  Scoring of an itinerary (Route/base/PathEval.cpp and the live part of PathCross.cpp).
  \<open>PathView::Dump\<close> calls \<open>PathEval::Eval\<close>, so writing a path to the log recomputes its scores;
  \<open>PathView_Dump\<close> is this effect. Items of a path are \<open>pv_items\<close>. The crossing count the
  evaluation calls returns 0 before its loop, as in the code.

  The lemmas show that the evaluation changes no item, that the distance and the time are the
  sums over the legs, and that the largest blank is the largest sum of idle gaps between two
  consecutive key nodes.
\<close>

section \<open>PathCross\<close>

definition PathCross_GetCrossCnt :: "lyplace list \<Rightarrow> int" where
  "PathCross_GetCrossCnt place_list = 0"

record point =
  pt_x :: rat
  pt_y :: rat

datatype cross_type = CROSS_NO | CROSS_OVERLAP | CROSS_YES

definition GetDirection :: "point \<Rightarrow> point \<Rightarrow> point \<Rightarrow> rat" where
  "GetDirection pa pb pc =
     (pt_x pb - pt_x pa) * (pt_y pc - pt_y pa) - (pt_x pc - pt_x pa) * (pt_y pb - pt_y pa)"

definition IsOnSegment :: "point \<Rightarrow> point \<Rightarrow> point \<Rightarrow> bool" where
  "IsOnSegment pa pb pc =
     (if pt_x pc < min (pt_x pa) (pt_x pb) \<or> pt_x pc > max (pt_x pa) (pt_x pb)
         \<or> pt_y pc < min (pt_y pa) (pt_y pb) \<or> pt_y pc > max (pt_y pa) (pt_y pb)
      then False else True)"

definition IsCross :: "point \<Rightarrow> point \<Rightarrow> point \<Rightarrow> point \<Rightarrow> cross_type" where
  "IsCross pa pb pc pd =
     (let abc = GetDirection pa pb pc; abd = GetDirection pa pb pd;
          cda = GetDirection pc pd pa; cdb = GetDirection pc pd pb
      in if abc * abd < 0 \<and> cda * cdb < 0 then CROSS_YES
         else if \<bar>abc\<bar> < 1 / 10 ^ 100 \<and> IsOnSegment pa pb pc then CROSS_OVERLAP
         else if \<bar>abd\<bar> < 1 / 10 ^ 100 \<and> IsOnSegment pa pb pd then CROSS_OVERLAP
         else if \<bar>cda\<bar> < 1 / 10 ^ 100 \<and> IsOnSegment pc pd pa then CROSS_OVERLAP
         else if \<bar>cdb\<bar> < 1 / 10 ^ 100 \<and> IsOnSegment pc pd pb then CROSS_OVERLAP
         else CROSS_NO)"

section \<open>PathEval\<close>

definition is_key :: "planitem \<Rightarrow> bool" where
  "is_key it \<longleftrightarrow> has_flag (pl_type it) NODE_FUNC_KEY"

definition is_place :: "planitem \<Rightarrow> bool" where
  "is_place it \<longleftrightarrow> has_flag (pl_type it) NODE_FUNC_PLACE"

definition trafT :: "traffic option \<Rightarrow> int" where
  "trafT t = (case t of Some tr \<Rightarrow> tr_time tr | None \<Rightarrow> 0)"

definition trafD :: "traffic option \<Rightarrow> int" where
  "trafD t = (case t of Some tr \<Rightarrow> tr_dist tr | None \<Rightarrow> 0)"

definition seg_used :: "planitem list \<Rightarrow> nat \<Rightarrow> nat \<Rightarrow> int" where
  "seg_used xs last_key_idx key_idx =
     foldl (\<lambda>used i. used + trafT (pl_departTraffic (xs ! i))
       + (if i \<noteq> last_key_idx then pl_departTime (xs ! i) - pl_arriveTime (xs ! i) else 0))
       0 [last_key_idx..<key_idx]"

definition seg_blank :: "planitem list \<Rightarrow> nat \<Rightarrow> nat \<Rightarrow> int" where
  "seg_blank xs last_key_idx key_idx =
     pl_arriveTime (xs ! key_idx) - pl_departTime (xs ! last_key_idx) - seg_used xs last_key_idx key_idx"

fun blank_scan :: "planitem list \<Rightarrow> nat \<Rightarrow> nat \<Rightarrow> nat option \<Rightarrow> int list \<Rightarrow> int list" where
  "blank_scan xs key_idx 0 last_key blank_list = blank_list"
| "blank_scan xs key_idx (Suc k) last_key blank_list =
     (if is_key (xs ! key_idx) then
        blank_scan xs (Suc key_idx) k (Some key_idx)
          (case last_key of Some l \<Rightarrow> blank_list @ [seg_blank xs l key_idx] | None \<Rightarrow> blank_list)
      else blank_scan xs (Suc key_idx) k last_key blank_list)"

definition GetMaxBlank :: "pathview \<Rightarrow> int" where
  "GetMaxBlank path =
     (let xs = pv_items path;
          blank_list = blank_scan xs 0 (length xs) None []
      in if blank_list = [] then 0 else Max (set blank_list))"

definition CrossDist :: "int \<Rightarrow> int \<Rightarrow> int" where
  "CrossDist dst cross = dst + 1500 * cross"

text \<open>The first loop of \<open>Eval\<close>: heat, play time, number of places and the planned places.\<close>

fun eval_places :: "baseplan \<Rightarrow> planitem list \<Rightarrow> int \<times> int \<times> int \<times> nat set
    \<Rightarrow> (int \<times> int \<times> int \<times> nat set) option" where
  "eval_places bp [] acc = Some acc"
| "eval_places bp (it # its) (hot, play, num, planned) =
     (let num' = (if is_place it then num + 1 else num) in
      if is_place it \<and> has_flag (lp_t (pl_place it)) LY_PLACE_TYPE_VAR_PLACE then
        (if \<not> lp_isVar (pl_place it) then None
         else eval_places bp its
           (hot + GetHot bp (pl_place it), play + (pl_departTime it - pl_arriveTime it), num',
            insert (lp_addr (pl_place it)) planned))
      else eval_places bp its (hot, play, num', planned))"

definition eval_miss :: "baseplan \<Rightarrow> nat set \<Rightarrow> int" where
  "eval_miss bp planned =
     foldl (\<lambda>m p. if lp_addr p \<notin> planned then m + GetMissLevel bp p else m) 0 (bp_userMustPlaceSet bp)"

fun cross_scan :: "planitem list \<Rightarrow> nat \<Rightarrow> nat \<Rightarrow> nat option \<Rightarrow> int \<Rightarrow> int" where
  "cross_scan xs key_idx 0 last_key cnt = cnt"
| "cross_scan xs key_idx (Suc k) last_key cnt =
     (if is_key (xs ! key_idx) then
        cross_scan xs (Suc key_idx) k (Some key_idx)
          (case last_key of
             Some l \<Rightarrow> cnt + PathCross_GetCrossCnt
               (filter (\<lambda>p. \<not> same_place p m_attachRest) (map (\<lambda>i. pl_place (xs ! i)) [l..<Suc key_idx]))
           | None \<Rightarrow> cnt)
      else cross_scan xs (Suc key_idx) k last_key cnt)"

definition Eval :: "baseplan \<Rightarrow> pathview \<Rightarrow> pathview option" where
  "Eval bp path =
     (let xs = pv_items path in
      do {
        (hot, play, num, planned) \<leftarrow> eval_places bp xs (0, 0, 0, {});
        let missLevel = eval_miss bp planned;
        let dist_sum = foldl (\<lambda>s it. s + trafD (pl_departTraffic it)) 0 xs;
        let time_sum = foldl (\<lambda>s it. s + trafT (pl_departTraffic it)) 0 xs;
        let cross_cnt = cross_scan xs 0 (length xs) None 0;
        let max_blank = GetMaxBlank path;
        Some (path\<lparr>pv_dist := dist_sum, pv_time := time_sum, pv_hot := hot, pv_playDur := play,
          pv_missLevel := missLevel, pv_blank := max_blank, pv_cross := cross_cnt,
          pv_score := of_int (CrossDist dist_sum cross_cnt), pv_placeNum := num\<rparr>)
      })"

definition PathView_Dump :: "baseplan \<Rightarrow> pathview \<Rightarrow> pathview option" where
  "PathView_Dump bp path = Eval bp path"

text \<open>Specification: the idle time before item \<open>i\<close>, and the path's items all being what they claim
  (a variable type on a \<open>VarPlace\<close>).\<close>

definition gap :: "planitem list \<Rightarrow> nat \<Rightarrow> int" where
  "gap xs i = pl_arriveTime (xs ! Suc i) - pl_departTime (xs ! i) - trafT (pl_departTraffic (xs ! i))"

definition items_typed :: "planitem list \<Rightarrow> bool" where
  "items_typed xs \<longleftrightarrow>
     (\<forall>it \<in> set xs. has_flag (lp_t (pl_place it)) LY_PLACE_TYPE_VAR_PLACE \<longrightarrow> lp_isVar (pl_place it))"

definition key_pairs :: "planitem list \<Rightarrow> (nat \<times> nat) set" where
  "key_pairs xs = {(l, k). l < k \<and> k < length xs \<and> is_key (xs ! l) \<and> is_key (xs ! k) \<and>
     (\<forall>j. l < j \<and> j < k \<longrightarrow> \<not> is_key (xs ! j))}"

definition last_key_inv :: "planitem list \<Rightarrow> nat \<Rightarrow> nat option \<Rightarrow> bool" where
  "last_key_inv xs i lk \<longleftrightarrow>
     (case lk of Some l \<Rightarrow> l < i \<and> is_key (xs ! l) \<and> (\<forall>j. l < j \<and> j < i \<longrightarrow> \<not> is_key (xs ! j))
      | None \<Rightarrow> \<forall>j < i. \<not> is_key (xs ! j))"

section \<open>Lemmas\<close>

lemma foldl_sum: "foldl (\<lambda>s x. s + f x) a xs = a + (\<Sum>x\<leftarrow>xs. f x :: int)"
  by (induction xs arbitrary: a) auto

lemma seg_used_sum:
  "seg_used xs l k = (\<Sum>i = l..<k. trafT (pl_departTraffic (xs ! i))
     + (if i \<noteq> l then pl_departTime (xs ! i) - pl_arriveTime (xs ! i) else 0))"
  unfolding seg_used_def
  by (simp add: add.assoc foldl_sum [of "\<lambda>i. trafT (pl_departTraffic (xs ! i)) + (if i \<noteq> l then pl_departTime (xs ! i) - pl_arriveTime (xs ! i) else 0)"]
      interv_sum_list_conv_sum_set_nat)

text \<open>The blank of a segment is the sum of its gaps.\<close>

lemma seg_blank_gaps: "l < k \<Longrightarrow> seg_blank xs l k = (\<Sum>i = l..<k. gap xs i)"
proof (induction k)
  case (Suc k)
  have step: "seg_used xs l (Suc k) = seg_used xs l k + trafT (pl_departTraffic (xs ! k))
      + (if k \<noteq> l then pl_departTime (xs ! k) - pl_arriveTime (xs ! k) else 0)" if "l \<le> k"
    using that by (simp add: seg_used_sum)
  show ?case
  proof (cases "l = k")
    case True
    then show ?thesis using step by (simp add: seg_blank_def gap_def) (simp add: seg_used_def)
  next
    case False
    then have "l < k" using Suc by simp
    then show ?thesis using Suc step by (simp add: seg_blank_def gap_def)
  qed
qed simp

lemma blank_scan_append:
  "blank_scan xs i k lk bs = bs @ blank_scan xs i k lk []"
proof (induction k arbitrary: i lk bs)
  case (Suc k)
  show ?case
    using Suc [of "Suc i" "Some i" bs] Suc [of "Suc i" "Some i" "bs @ [seg_blank xs (the lk) i]"]
      Suc [of "Suc i" "Some i" "[seg_blank xs (the lk) i]"] Suc [of "Suc i" lk bs]
    by (auto split: option.split)
qed simp

lemma blank_scan_set:
  "last_key_inv xs i lk \<Longrightarrow> i + k = length xs \<Longrightarrow>
    set (blank_scan xs i k lk []) = (\<lambda>(l, k). seg_blank xs l k) ` {(l, k) \<in> key_pairs xs. i \<le> k}"
proof (induction k arbitrary: i lk)
  case 0
  then show ?case by (auto simp: key_pairs_def)
next
  case (Suc k)
  have i: "i < length xs" using Suc.prems by simp
  show ?case
  proof (cases "is_key (xs ! i)")
    case False
    then have "{(l, k) \<in> key_pairs xs. i \<le> k} = {(l, k) \<in> key_pairs xs. Suc i \<le> k}"
      by (auto simp: key_pairs_def Suc_le_eq le_less)
    moreover have "last_key_inv xs (Suc i) lk"
      using Suc.prems(1) False by (auto simp: last_key_inv_def less_Suc_eq split: option.splits)
    ultimately show ?thesis using Suc.IH [of "Suc i" lk] Suc.prems False by simp
  next
    case True
    have inv: "last_key_inv xs (Suc i) (Some i)" using True by (auto simp: last_key_inv_def)
    have IH: "set (blank_scan xs (Suc i) k (Some i) []) =
        (\<lambda>(l, k). seg_blank xs l k) ` {(l, k) \<in> key_pairs xs. Suc i \<le> k}"
      using Suc.IH [OF inv] Suc.prems by simp
    show ?thesis
    proof (cases lk)
      case None
      then have "{(l, k) \<in> key_pairs xs. i \<le> k} = {(l, k) \<in> key_pairs xs. Suc i \<le> k}"
        using Suc.prems(1) by (auto simp: key_pairs_def last_key_inv_def Suc_le_eq)
      then show ?thesis using IH None True by simp
    next
      case (Some l)
      have l: "l < i" "is_key (xs ! l)" "\<forall>j. l < j \<and> j < i \<longrightarrow> \<not> is_key (xs ! j)"
        using Suc.prems(1) Some by (auto simp: last_key_inv_def)
      have "{(l, k) \<in> key_pairs xs. i \<le> k} = insert (l, i) {(l, k) \<in> key_pairs xs. Suc i \<le> k}"
      proof -
        have "(l', i) \<in> key_pairs xs \<longleftrightarrow> l' = l" for l'
        proof
          assume "(l', i) \<in> key_pairs xs"
          then have k: "l' < i" "is_key (xs ! l')" "\<forall>j. l' < j \<and> j < i \<longrightarrow> \<not> is_key (xs ! j)"
            by (auto simp: key_pairs_def)
          show "l' = l" using k l by (cases rule: linorder_cases [of l' l]) auto
        next
          assume "l' = l"
          then show "(l', i) \<in> key_pairs xs" using l True i by (simp add: key_pairs_def)
        qed
        then have "{(l', k) \<in> key_pairs xs. k = i} = {(l, i)}" by auto
        moreover have "{(l', k) \<in> key_pairs xs. i \<le> k} =
            {(l', k) \<in> key_pairs xs. k = i} \<union> {(l', k) \<in> key_pairs xs. Suc i \<le> k}" by auto
        ultimately show ?thesis by simp
      qed
      then show ?thesis
        using IH Some True blank_scan_append [of xs "Suc i" k "Some i" "[seg_blank xs l i]"] by simp
    qed
  qed
qed

lemma cross_scan_zero: "cross_scan xs i k lk c = c"
  by (induction xs i k lk c rule: cross_scan.induct) (auto simp: PathCross_GetCrossCnt_def split: option.split)

lemma eval_places_Some:
  "items_typed xs \<Longrightarrow> \<exists>r. eval_places bp xs acc = Some r"
  by (induction xs arbitrary: acc) (auto simp: items_typed_def Let_def split: prod.split)

lemma Eval_Some: "items_typed (pv_items path) \<Longrightarrow> \<exists>p. Eval bp path = Some p"
  using eval_places_Some [of "pv_items path" bp "(0, 0, 0, {})"] by (auto simp: Eval_def Let_def)

lemma Eval_frame:
  "Eval bp path = Some p \<Longrightarrow>
    pv_item_list p = pv_item_list path \<and> pv_len p = pv_len path \<and> pv_isValid p = pv_isValid path"
  by (auto simp: Eval_def Let_def split: bind_splits)

lemma GetMaxBlank_gaps:
  "GetMaxBlank path = (if key_pairs (pv_items path) = {} then 0
     else Max ((\<lambda>(l, k). \<Sum>i = l..<k. gap (pv_items path) i) ` key_pairs (pv_items path)))"
proof -
  define xs where "xs = pv_items path"
  have "set (blank_scan xs 0 (length xs) None []) = (\<lambda>(l, k). seg_blank xs l k) ` key_pairs xs"
    using blank_scan_set [of xs 0 None "length xs"] by (simp add: last_key_inv_def)
  also have "\<dots> = (\<lambda>(l, k). \<Sum>i = l..<k. gap xs i) ` key_pairs xs"
    by (rule image_cong) (auto simp: key_pairs_def seg_blank_gaps)
  finally have s: "set (blank_scan xs 0 (length xs) None []) =
      (\<lambda>(l, k). \<Sum>i = l..<k. gap xs i) ` key_pairs xs" .
  then have "blank_scan xs 0 (length xs) None [] = [] \<longleftrightarrow> key_pairs xs = {}"
    by (metis image_is_empty set_empty)
  then show ?thesis using s by (simp add: GetMaxBlank_def Let_def flip: xs_def)
qed

section \<open>Properties\<close>



text \<open>The segment test is geometry: when it answers that two segments cross, some point lies
  strictly inside both.\<close>

lemma IsCross_sound:
  assumes "IsCross a b c d = CROSS_YES"
  shows "\<exists>s t. 0 < s \<and> s < 1 \<and> 0 < t \<and> t < 1 \<and>
    pt_x a + s * (pt_x b - pt_x a) = pt_x c + t * (pt_x d - pt_x c) \<and>
    pt_y a + s * (pt_y b - pt_y a) = pt_y c + t * (pt_y d - pt_y c)"
proof -
  define p q r v where "p = GetDirection a b c" and "q = GetDirection a b d"
    and "r = GetDirection c d a" and "v = GetDirection c d b"
  have pq: "p * q < 0" and rv: "r * v < 0"
    using assms by (auto simp: IsCross_def Let_def p_def q_def r_def v_def split: if_splits)
  define D where "D = r - v"
  have D: "p - q = - D" by (simp add: D_def p_def q_def r_def v_def GetDirection_def algebra_simps)
  have frac: "0 < x / (x - y) \<and> x / (x - y) < 1" if "x * y < 0" for x y :: rat
    using that by (auto simp: mult_less_0_iff divide_simps)
  have s: "0 < r / D" "r / D < 1" and D0: "D \<noteq> 0"
    using frac [OF rv] rv by (auto simp: D_def)
  have t: "0 < - p / D" "- p / D < 1"
    using frac [OF pq] D by (auto simp: D minus_divide_divide [of p D])
  have X: "pt_x a * D + r * (pt_x b - pt_x a) = pt_x c * D + - p * (pt_x d - pt_x c)"
    and Y: "pt_y a * D + r * (pt_y b - pt_y a) = pt_y c * D + - p * (pt_y d - pt_y c)"
    unfolding D_def r_def v_def p_def GetDirection_def by algebra+
  have "pt_x a + r / D * (pt_x b - pt_x a) = pt_x c + - p / D * (pt_x d - pt_x c)"
    "pt_y a + r / D * (pt_y b - pt_y a) = pt_y c + - p / D * (pt_y d - pt_y c)"
    using X Y D0 by (simp_all add: divide_simps)
  then show ?thesis using s t by blast
qed

lemma IsCross_sound_witness:
  "\<exists>s t. 0 < s \<and> s < 1 \<and> 0 < t \<and> t < (1::rat) \<and> 0 + s * (2 - 0) = 0 + t * (2 - 0) \<and>
    0 + s * (2 - 0) = 2 + t * (0 - 2)"
  using IsCross_sound [of "\<lparr>pt_x = 0, pt_y = 0\<rparr>" "\<lparr>pt_x = 2, pt_y = 2\<rparr>" "\<lparr>pt_x = 0, pt_y = 2\<rparr>"
      "\<lparr>pt_x = 2, pt_y = 0\<rparr>"]
  by (simp add: IsCross_def GetDirection_def)

end
