(* ===== verification/PathUtil.thy ===== *)
theory PathUtil
  imports PathEval
begin

text \<open>
  Adjusting the times of a finished itinerary (Route/base/PathUtil.cpp): merging luggage and
  night at the same hotel, rounding to quarter hours, squeezing every visit to its compressed
  duration, and stretching visits again while time is left.

  \<^item> The loops read and write the items through indices below the length, so they are functions
    on the list \<open>pv_items\<close>; \<open>with_items\<close> puts the result back into the slots.
  \<^item> \<open>None\<close>: a null \<open>_durS\<close> is dereferenced.
  \<^item> \<open>TimeStretch\<close> may run forever; its loop takes fuel and \<open>None\<close> in the outer option also
    stands for exhausted fuel. \<open>std::sort\<close> is a parameter that permutes its argument.

  The lemmas, most of them in \<open>PathStretch\<close>, show: \<open>DoZipDur\<close> succeeds exactly when some schedule respects the windows, the
  travel times and the compressed durations, and then computes the earliest one; \<open>CalIdel\<close>
  adds up the gaps or reports the first overlap; the forward and backward passes of the
  stretching keep every duration and produce consistent times; a stretch step that cannot
  grow a visit repeats itself forever.
\<close>

definition with_items :: "planitem list \<Rightarrow> pathview \<Rightarrow> pathview" where
  "with_items xs pv = pv\<lparr>pv_item_list := xs @ drop (pv_len pv) (pv_item_list pv)\<rparr>"

section \<open>Hotel and luggage\<close>

definition merge_front :: "pathview \<Rightarrow> pathview option" where
  "merge_front path =
     (if PathView_Length path \<ge> 3 then
        (let luggageItem = pv_item_list path ! 1; sleepItem = pv_item_list path ! 2 in
         if pl_type luggageItem = NODE_FUNC_KEY_HOTEL_LEFT_LUGGAGE
            \<and> same_place (pl_place luggageItem) (pl_place sleepItem)
         then map_option snd (PathView_Erase 1
                (pv_upd 2 (\<lambda>it. it\<lparr>pl_arriveTraffic := pl_arriveTraffic luggageItem\<rparr>) path))
         else Some path)
      else Some path)"

definition merge_back :: "pathview \<Rightarrow> pathview option" where
  "merge_back path =
     (if PathView_Length path \<ge> 3 then
        (let len = PathView_Length path;
             luggageItem = pv_item_list path ! nat (len - 2);
             sleepItem = pv_item_list path ! nat (len - 3) in
         if pl_type luggageItem = NODE_FUNC_KEY_HOTEL_RECLAIM_LUGGAGE
            \<and> same_place (pl_place luggageItem) (pl_place sleepItem)
            \<and> pl_arriveTime luggageItem - pl_departTime sleepItem < 3 * 3600
         then map_option snd (PathView_Erase (len - 2)
                (pv_upd (len - 3) (\<lambda>it. it\<lparr>pl_departTraffic := pl_departTraffic luggageItem\<rparr>) path))
         else Some path)
      else Some path)"

definition MergeLuggAndSleep :: "pathview \<Rightarrow> pathview option" where
  "MergeLuggAndSleep path = do { p1 \<leftarrow> merge_front path; merge_back p1 }"

definition back_hotel_step :: "nat \<Rightarrow> planitem list \<Rightarrow> planitem list" where
  "back_hotel_step i xs =
     (let lastItem = xs ! (i - 1); curItem = xs ! i in
      if pl_type lastItem \<noteq> NODE_FUNC_KEY_HOTEL_SLEEP \<and> pl_type curItem = NODE_FUNC_KEY_HOTEL_SLEEP
      then xs[i := curItem\<lparr>pl_arriveTime :=
             pl_departTime lastItem + trafT (pl_departTraffic lastItem)\<rparr>]
      else xs)"

definition BackHotelTimeChange :: "pathview \<Rightarrow> pathview" where
  "BackHotelTimeChange path =
     with_items (fold back_hotel_step [1..<pv_len path - 1] (pv_items path)) path"

section \<open>Quarter hours\<close>

definition norm15_step :: "baseplan \<Rightarrow> nat \<Rightarrow> planitem list \<Rightarrow> planitem list" where
  "norm15_step bp i xs =
     (let curItem = xs ! i; lastItem = xs ! (i - 1); nextItem = xs ! (i + 1) in
      if \<not> is_place curItem then xs
      else if bp_vPlaceOpenMap bp (lp_ID (pl_place curItem)) \<noteq> None then xs
      else
        (let elstArvT = pl_departTime lastItem + trafT (pl_departTraffic lastItem);
             ltstDeptT = pl_arriveTime nextItem - trafT (pl_arriveTraffic nextItem)
         in case bp_UserDurMap bp (lp_ID (pl_place curItem)) of
              Some dur \<Rightarrow>
                (let arvT = max (pl_openTime curItem) elstArvT
                 in xs[i := curItem\<lparr>pl_arriveTime := arvT, pl_departTime := arvT + dur\<rparr>])
            | None \<Rightarrow>
                (let dur = PlanItem_GetDur curItem; md = dur smod 900 in
                 if md = 0 then xs
                 else
                   (let needAdd = 900 - md; newdur = dur + needAdd in
                    if ltstDeptT - elstArvT \<ge> newdur then
                      (if pl_arriveTime curItem - needAdd > elstArvT
                       then xs[i := curItem\<lparr>pl_arriveTime := pl_arriveTime curItem - needAdd\<rparr>]
                       else xs[i := curItem\<lparr>pl_arriveTime := elstArvT,
                              pl_departTime := pl_departTime curItem
                                + (needAdd - (pl_arriveTime curItem - elstArvT))\<rparr>])
                    else if PlanItem_GetDur curItem - md > 0
                    then xs[i := curItem\<lparr>pl_departTime := pl_departTime curItem - md\<rparr>]
                    else xs))))"

definition Norm15Min :: "baseplan \<Rightarrow> pathview \<Rightarrow> pathview" where
  "Norm15Min bp path =
     with_items (fold (norm15_step bp) [1..<pv_len path - 1] (pv_items path)) path"

section \<open>Squeezing\<close>

fun zip_loop :: "nat \<Rightarrow> nat \<Rightarrow> planitem list \<Rightarrow> (int \<times> planitem list) option" where
  "zip_loop i 0 xs = Some (0, xs)"
| "zip_loop i (Suc k) xs =
     (let lastItem = xs ! (i - 1); curItem = xs ! i in
      if is_key curItem then zip_loop (Suc i) k xs
      else do {
        d \<leftarrow> pl_durS curItem;
        let arvTime0 = pl_departTime lastItem + trafT (pl_arriveTraffic curItem);
        let arvTime = (if arvTime0 < pl_openTime curItem then pl_openTime curItem else arvTime0);
        let deptTime = arvTime + ds_zip d;
        if deptTime > pl_closeTime curItem then Some (1, xs)
        else zip_loop (Suc i) k (xs[i := curItem\<lparr>pl_arriveTime := arvTime, pl_departTime := deptTime\<rparr>])
      })"

definition DoZipDur :: "pathview \<Rightarrow> (int \<times> pathview) option" where
  "DoZipDur path =
     map_option (\<lambda>(r, xs). (r, with_items xs path)) (zip_loop 1 (pv_len path - 1) (pv_items path))"

section \<open>Stretching\<close>

fun earliest_loop :: "nat \<Rightarrow> nat \<Rightarrow> nat \<Rightarrow> int \<Rightarrow> planitem list \<Rightarrow> int \<times> planitem list" where
  "earliest_loop start i 0 dept xs = (dept, xs)"
| "earliest_loop start i (Suc k) dept xs =
     (let pItem = xs ! i in
      if is_key pItem \<or> i = start then earliest_loop start (Suc i) k (pl_departTime pItem) xs
      else
        (let arr0 = dept + trafT (pl_arriveTraffic pItem);
             arriveTime = (if arr0 < pl_openTime pItem then pl_openTime pItem else arr0);
             dur = PlanItem_GetDur pItem
         in if arriveTime + dur > pl_closeTime pItem then (-1, xs)
            else earliest_loop start (Suc i) k (arriveTime + dur)
                   (xs[i := pItem\<lparr>pl_arriveTime := arriveTime, pl_departTime := arriveTime + dur\<rparr>])))"

definition GetEarliestDept :: "nat \<Rightarrow> nat \<Rightarrow> planitem list \<Rightarrow> int \<times> planitem list" where
  "GetEarliestDept start index xs = earliest_loop start start (index - start) (-1) xs"

text \<open>The backward loop runs from \<open>end\<close> down to \<open>index + 1\<close>; \<open>k\<close> is the number of steps left.\<close>

fun latest_loop :: "nat \<Rightarrow> nat \<Rightarrow> nat \<Rightarrow> int \<Rightarrow> planitem list \<Rightarrow> int \<times> planitem list" where
  "latest_loop stop i 0 arv xs = (arv, xs)"
| "latest_loop stop i (Suc k) arv xs =
     (let pItem = xs ! i in
      if is_key pItem \<or> i = stop then latest_loop stop (i - 1) k (pl_arriveTime pItem) xs
      else
        (let dep0 = arv - trafT (pl_departTraffic pItem);
             departTime = (if dep0 > pl_closeTime pItem then pl_closeTime pItem else dep0);
             dur = PlanItem_GetDur pItem
         in if pl_openTime pItem > departTime - dur then (-1, xs)
            else latest_loop stop (i - 1) k (departTime - dur)
                   (xs[i := pItem\<lparr>pl_departTime := departTime, pl_arriveTime := departTime - dur\<rparr>])))"

definition GetLatestArv :: "nat \<Rightarrow> nat \<Rightarrow> planitem list \<Rightarrow> int \<times> planitem list" where
  "GetLatestArv stop index xs = latest_loop stop stop (stop - index) (-1) xs"

record stretchitem =
  si_index :: nat
  si_rcmdDur :: int

text \<open>With the default preference every subclass's \<open>GetHotLevel\<close> is \<open>_hot_level\<close> as an \<open>int\<close>. A view,
  shop or restaurant type on an object that is no \<open>VarPlace\<close> leaves the function without a
  value (\<open>level_ok\<close> excludes it).\<close>

definition level_flags :: u32 where
  "level_flags = LY_PLACE_TYPE_VIEW OR LY_PLACE_TYPE_SHOP OR LY_PLACE_TYPE_RESTAURANT"

definition StretchItem_GetHotLevel :: "planitem list \<Rightarrow> stretchitem \<Rightarrow> int" where
  "StretchItem_GetHotLevel xs s =
     (let p = pl_place (xs ! si_index s)
      in if has_flag (lp_t p) level_flags then trunc_rat (lp_hot_level p) else 0)"

definition level_ok :: "planitem list \<Rightarrow> stretchitem \<Rightarrow> bool" where
  "level_ok xs s \<longleftrightarrow>
     (has_flag (lp_t (pl_place (xs ! si_index s))) level_flags \<longrightarrow> lp_isVar (pl_place (xs ! si_index s)))"

text \<open>
  One turn of the queue loop on the item \<open>s\<close> at the front: \<open>Inl (ret, xs)\<close> returns from the
  function, \<open>Inr (xs, again)\<close> goes on, with \<open>again\<close> when the item is queued once more.
\<close>

definition stretch_one ::
  "nat \<Rightarrow> nat \<Rightarrow> stretchitem \<Rightarrow> planitem list
     \<Rightarrow> (int \<times> planitem list + planitem list \<times> bool) option" where
  "stretch_one start stop s xs0 =
     (let i = si_index s; pItem0 = xs0 ! i in
      do {
        d \<leftarrow> pl_durS pItem0;
        let dur0 = min (dmulc (PlanItem_GetDur pItem0) d_1_1) (ds_extend d);
        let dur = max dur0 (ds_zip d);
        let (earliestT, xs1) = GetEarliestDept start i xs0;
        let (latestT, xs2) = GetLatestArv stop i xs1;
        if earliestT = -1 \<or> latestT = -1 then Some (Inl (1, xs2))
        else
          (let pItem = xs2 ! i;
               arv0 = earliestT + trafT (pl_arriveTraffic pItem);
               arvT = (if arv0 < pl_openTime pItem then pl_openTime pItem else arv0);
               dep0 = latestT - trafT (pl_departTraffic pItem);
               deptT = (if dep0 > pl_closeTime pItem then pl_closeTime pItem else dep0)
           in if arvT > deptT then Some (Inl (1, xs2))
              else if arvT + dur \<le> deptT then
                Some (Inr (xs2[i := pItem\<lparr>pl_arriveTime := arvT, pl_departTime := arvT + dur\<rparr>],
                           dur < ds_extend d))
              else
                Some (Inr (xs2[i := pItem\<lparr>pl_arriveTime := arvT, pl_departTime := arvT + (deptT - arvT)\<rparr>],
                           False)))
      })"

fun can_stretch :: "(stretchitem \<Rightarrow> int) \<Rightarrow> stretchitem \<Rightarrow> stretchitem list \<Rightarrow> bool" where
  "can_stretch lev s [] = True"
| "can_stretch lev s (t # ts) =
     (if si_index t = si_index s then True
      else if lev t \<ge> lev s then False
      else can_stretch lev s ts)"

text \<open>
  The queue loop. \<open>rateSort\<close> is \<open>std::sort\<close> with \<open>StretchItemRateCmp\<close> on the current items.
\<close>

fun stretch_loop ::
  "nat \<Rightarrow> (planitem list \<Rightarrow> stretchitem list \<Rightarrow> stretchitem list) \<Rightarrow> nat \<Rightarrow> nat
     \<Rightarrow> stretchitem list \<Rightarrow> stretchitem list \<Rightarrow> planitem list \<Rightarrow> (int \<times> planitem list) option" where
  "stretch_loop 0 rateSort start stop queue sList xs = None"
| "stretch_loop (Suc fuel) rateSort start stop queue sList xs =
     (case queue of
        [] \<Rightarrow> Some (0, xs)
      | s # rest \<Rightarrow>
         if \<not> can_stretch (StretchItem_GetHotLevel xs) s sList
         then stretch_loop fuel rateSort start stop (rest @ [s]) sList xs
         else do {
           r \<leftarrow> stretch_one start stop s xs;
           case r of
             Inl ret \<Rightarrow> Some ret
           | Inr (xs', again) \<Rightarrow>
               if again
               then stretch_loop fuel rateSort start stop (rest @ [s]) (rateSort xs' sList) xs'
               else stretch_loop fuel rateSort start stop rest
                      (filter (\<lambda>t. si_index t \<noteq> si_index s) sList) xs'
         })"

text \<open>Building the queue: the items strictly between start and stop that are no key nodes.\<close>

fun stretch_items :: "planitem list \<Rightarrow> nat list \<Rightarrow> stretchitem list option" where
  "stretch_items xs [] = Some []"
| "stretch_items xs (i # is) =
     (if is_key (xs ! i) then stretch_items xs is
      else do {
        d \<leftarrow> pl_durS (xs ! i);
        rest \<leftarrow> stretch_items xs is;
        Some (\<lparr>si_index = i, si_rcmdDur = ds_rcmd d\<rparr> # rest) })"

definition TimeStretch ::
  "nat \<Rightarrow> (planitem list \<Rightarrow> stretchitem list \<Rightarrow> stretchitem list) \<Rightarrow>
    (planitem list \<Rightarrow> stretchitem list \<Rightarrow> stretchitem list) \<Rightarrow> int \<Rightarrow> int
     \<Rightarrow> planitem list \<Rightarrow> (int \<times> planitem list) option" where
  "TimeStretch fuel levelSort rateSort start0 stop0 xs =
     (let start = nat (max 0 start0); stop = nat (min stop0 (int (length xs) - 1)) in
      do {
        items \<leftarrow> stretch_items xs [start + 1..<stop];
        if items = [] then Some (0, xs)
        else if \<not> list_all (level_ok xs) items then None
        else (let queue = levelSort xs items; sList = rateSort xs queue
              in stretch_loop fuel rateSort start stop queue sList xs)
      })"

fun enrich_loop ::
  "nat \<Rightarrow> (planitem list \<Rightarrow> stretchitem list \<Rightarrow> stretchitem list) \<Rightarrow>
    (planitem list \<Rightarrow> stretchitem list \<Rightarrow> stretchitem list)
     \<Rightarrow> nat \<Rightarrow> nat \<Rightarrow> nat \<Rightarrow> planitem list \<Rightarrow> (int \<times> planitem list) option" where
  "enrich_loop fuel levelSort rateSort i 0 stop xs = Some (0, xs)"
| "enrich_loop fuel levelSort rateSort i (Suc k) stop xs =
     (if is_key (xs ! i) then
        (if i - stop > 1 then do {
           (ret, xs') \<leftarrow> TimeStretch fuel levelSort rateSort (int stop) (int i) xs;
           if ret \<noteq> 0 then Some (ret, xs')
           else enrich_loop fuel levelSort rateSort (Suc i) k i xs' }
         else enrich_loop fuel levelSort rateSort (Suc i) k i xs)
      else enrich_loop fuel levelSort rateSort (Suc i) k stop xs)"

text \<open>\<open>TimeEnrich\<close> works on a copy and copies it back only on success.\<close>

definition TimeEnrich ::
  "nat \<Rightarrow> (planitem list \<Rightarrow> stretchitem list \<Rightarrow> stretchitem list) \<Rightarrow>
    (planitem list \<Rightarrow> stretchitem list \<Rightarrow> stretchitem list)
     \<Rightarrow> pathview \<Rightarrow> (int \<times> pathview) option" where
  "TimeEnrich fuel levelSort rateSort path =
     do {
       (r, tmp) \<leftarrow> DoZipDur (PathView_Copy path PathView_new);
       if r \<noteq> 0 then Some (1, path)
       else do {
         (ret, xs) \<leftarrow> enrich_loop fuel levelSort rateSort 0 (pv_len tmp) 0 (pv_items tmp);
         if ret \<noteq> 0 then Some (ret, path)
         else Some (0, PathView_Copy (with_items xs tmp) path) }
     }"

section \<open>Sums\<close>

definition CalTraf :: "pathview \<Rightarrow> int" where
  "CalTraf path =
     foldl (\<lambda>s i. s + trafT (pl_arriveTraffic (pv_items path ! i))) 0 [1..<pv_len path]"

definition SetDur2PlanStats :: "pathview \<Rightarrow> baseplan \<Rightarrow> baseplan" where
  "SetDur2PlanStats path bp =
     fold (\<lambda>it b. if has_flag (lp_t (pl_place it)) LY_PLACE_TYPE_VAR_PLACE \<and> lp_ID (pl_place it) \<noteq> ''attach''
                  then b\<lparr>bp_planStats := PlanStats_SetPlaceDur (pl_place it) (PlanItem_GetDur it) (bp_planStats b)\<rparr>
                  else b)
       (tl (pv_items path)) bp"

text \<open>The leg's travel time: the arrival traffic of the later item wins over the departure
  traffic of the earlier one.\<close>

definition leg :: "planitem \<Rightarrow> planitem \<Rightarrow> int" where
  "leg lItem pItem =
     (case pl_arriveTraffic pItem of Some t \<Rightarrow> tr_time t | None \<Rightarrow> trafT (pl_departTraffic lItem))"

fun idel_loop :: "planitem list \<Rightarrow> int \<Rightarrow> int" where
  "idel_loop (lItem # pItem # rest) blockTime =
     (if pl_departTime lItem + leg lItem pItem \<le> pl_arriveTime pItem
      then idel_loop (pItem # rest)
             (blockTime + (pl_arriveTime pItem - pl_departTime lItem - leg lItem pItem))
      else -1)"
| "idel_loop xs blockTime = blockTime"

definition CalIdel :: "pathview \<Rightarrow> int" where
  "CalIdel path = idel_loop (pv_items path) 0"

section \<open>Cutting and deleting\<close>

definition PerfectDelSet :: "pathview \<Rightarrow> baseplan \<Rightarrow> baseplan" where
  "PerfectDelSet path bp =
     fold (\<lambda>p b.
         if lp_addr p \<in> (lp_addr \<circ> pl_place) ` set (pv_items path) then b
         else
           (let b1 = b\<lparr>bp_userDelSet := (if \<exists>q \<in> set (bp_userDelSet b). same_place q p
                        then bp_userDelSet b else bp_userDelSet b @ [p])\<rparr>
            in if \<not> PlanStats_HasPlaceStats p (bp_planStats b1)
               then b1\<lparr>bp_planStats := PlanStats_SetPlaceStats p 6 (bp_planStats b1)\<rparr> else b1))
       (bp_userMustPlaceSet bp) bp"

text \<open>\<open>CutPathBySegment\<close>: \<open>pathIdx\<close> counts the cuts from -1, whatever \<open>pathList\<close> held before.\<close>

fun cut_loop :: "planitem list \<Rightarrow> bool \<Rightarrow> int \<Rightarrow> pathview list \<Rightarrow> pathview list" where
  "cut_loop [] cutPath pathIdx pathList = pathList"
| "cut_loop (it # its) cutPath pathIdx pathList =
     (let pl = (if cutPath then pathList @ [PathView_new] else pathList);
          idx = (if cutPath then pathIdx + 1 else pathIdx) in
      if same_place (pl_place it) m_segmentPlace then cut_loop its True idx pl
      else cut_loop its False idx (pl[nat idx := snd (PathView_AppendItem it (pl ! nat idx))]))"

definition CutPathBySegment :: "baseplan \<Rightarrow> pathview \<Rightarrow> pathview list \<Rightarrow> pathview list option" where
  "CutPathBySegment bp path pathList =
     those (map (PathView_Dump bp) (cut_loop (pv_items path) True (-1) pathList))"

section \<open>Scaling\<close>

text \<open>Division of two positive \<open>int\<close> as doubles: the quotient with a sticky bit, rounded.\<close>

definition ddiv :: "nat \<Rightarrow> nat \<Rightarrow> cdouble" where
  "ddiv a b = (let n = a * 2 ^ 100 div b; st = (if a * 2 ^ 100 mod b = 0 then 0 else 1)
     in (round53 (2 * n + st), 101))"

fun alloc_map :: "baseplan \<Rightarrow> lyplace list \<Rightarrow> int \<times> (string \<times> int) list \<Rightarrow> (int \<times> (string \<times> int) list) option" where
  "alloc_map bp [] acc = Some acc"
| "alloc_map bp (p # ps) (s, m) =
     do { a \<leftarrow> GetAvgAllocDur bp p;
          alloc_map bp ps (s + a, if map_of m (lp_ID p) = None then m @ [(lp_ID p, a)] else m) }"

text \<open>\<open>static_cast<int>(a * (num * 1.0 / den))\<close>; dividing by 0 gives an infinity, whose cast is
  undefined.\<close>

definition scaled :: "int \<Rightarrow> int \<Rightarrow> int \<Rightarrow> int option" where
  "scaled num den a =
     (if den = 0 then None
      else Some (sgn num * sgn den * dmulc a (ddiv (nat \<bar>num\<bar>) (nat \<bar>den\<bar>))))"

fun scale_all :: "(int \<Rightarrow> int option) \<Rightarrow> (string \<times> int) list \<Rightarrow> (string \<Rightarrow> int option)
    \<Rightarrow> (string \<Rightarrow> int option) option" where
  "scale_all f [] m = Some m"
| "scale_all f ((pid, a) # xs) m = do { v \<leftarrow> f a; scale_all f xs (m(pid \<mapsto> v)) }"

definition GetScale :: "baseplan \<Rightarrow> (string \<Rightarrow> int option) \<Rightarrow> (string \<Rightarrow> int option) option" where
  "GetScale bp allocDurMap =
     do {
       (sumUser, userMap) \<leftarrow> alloc_map bp (bp_userMustPlaceSet bp) (0, []);
       (sumWait, waitMap) \<leftarrow> alloc_map bp (bp_waitPlaceList bp) (0, []);
       let avail = bp_availDur bp;
       let availAllocDur = min (avail - 3600 * 6) (dmulc avail d_0_7);
       if sumUser > avail then scale_all (scaled avail sumUser) userMap allocDurMap
       else if sumWait < availAllocDur then
         scale_all (\<lambda>a. map_option (\<lambda>v. min v (3600 * 8)) (scaled availAllocDur sumWait a)) waitMap allocDurMap
       else Some allocDurMap
     }"

text \<open>Specification of the squeezing: a schedule gives every item an arrival and a departure;
  the first item and the key nodes leave when they leave.\<close>

definition feasible :: "planitem list \<Rightarrow> (nat \<Rightarrow> int) \<Rightarrow> (nat \<Rightarrow> int) \<Rightarrow> bool" where
  "feasible xs arr dep \<longleftrightarrow>
     (\<forall>i < length xs.
        if i = 0 \<or> is_key (xs ! i) then dep i = pl_departTime (xs ! i)
        else \<exists>d. pl_durS (xs ! i) = Some d \<and>
               dep (i - 1) + trafT (pl_arriveTraffic (xs ! i)) \<le> arr i \<and> pl_openTime (xs ! i) \<le> arr i \<and>
               arr i + ds_zip d \<le> dep i \<and> dep i \<le> pl_closeTime (xs ! i))"

definition zip_item :: "planitem \<Rightarrow> planitem \<Rightarrow> planitem \<Rightarrow> bool" where
  "zip_item prev x y \<longleftrightarrow>
     (if is_key x then y = x
      else \<exists>d. pl_durS x = Some d \<and>
        (let a = max (pl_openTime x) (pl_departTime prev + trafT (pl_arriveTraffic x))
         in y = x\<lparr>pl_arriveTime := a, pl_departTime := a + ds_zip d\<rparr> \<and> a + ds_zip d \<le> pl_closeTime x))"

text \<open>Specification of the stretching: a segment between two items without a key node inside, with
  the same traffic seen from both ends of a leg (\<open>seg_static\<close>), whose times fit (\<open>seg_cons\<close>) and
  whose visits lie between the compressed and the extended duration (\<open>seg_dur\<close>).\<close>

definition seg_static :: "nat \<Rightarrow> nat \<Rightarrow> planitem list \<Rightarrow> bool" where
  "seg_static a b xs \<longleftrightarrow> a < b \<and> b < length xs \<and> (\<forall>i. a < i \<and> i < b \<longrightarrow> \<not> is_key (xs ! i)) \<and>
     (\<forall>i. a \<le> i \<and> i < b \<longrightarrow> trafT (pl_departTraffic (xs ! i)) = trafT (pl_arriveTraffic (xs ! Suc i)))"

definition seg_cons :: "nat \<Rightarrow> nat \<Rightarrow> planitem list \<Rightarrow> bool" where
  "seg_cons a b xs \<longleftrightarrow>
     (\<forall>i. a \<le> i \<and> i < b \<longrightarrow>
        pl_departTime (xs ! i) + trafT (pl_arriveTraffic (xs ! Suc i)) \<le> pl_arriveTime (xs ! Suc i)) \<and>
     (\<forall>i. a < i \<and> i < b \<longrightarrow>
        pl_openTime (xs ! i) \<le> pl_arriveTime (xs ! i) \<and> pl_departTime (xs ! i) \<le> pl_closeTime (xs ! i))"

definition seg_dur :: "nat \<Rightarrow> nat \<Rightarrow> planitem list \<Rightarrow> bool" where
  "seg_dur a b xs \<longleftrightarrow>
     (\<forall>i. a < i \<and> i < b \<longrightarrow> (\<exists>d. pl_durS (xs ! i) = Some d \<and> 0 \<le> PlanItem_GetDur (xs ! i) \<and>
        PlanItem_GetDur (xs ! i) < 2 ^ 31 \<and> ds_extend d < 2 ^ 31 \<and>
        ds_zip d \<le> PlanItem_GetDur (xs ! i) \<and> PlanItem_GetDur (xs ! i) \<le> ds_extend d))"

definition retimed :: "planitem list \<Rightarrow> planitem list \<Rightarrow> bool" where
  "retimed xs ys \<longleftrightarrow> length ys = length xs \<and>
     (\<forall>i < length xs. \<exists>s t. ys ! i = (xs ! i)\<lparr>pl_arriveTime := s, pl_departTime := t\<rparr>)"

definition legs_fit :: "planitem list \<Rightarrow> bool" where
  "legs_fit xs \<longleftrightarrow> (\<forall>i. Suc i < length xs \<longrightarrow>
     pl_departTime (xs ! i) + leg (xs ! i) (xs ! Suc i) \<le> pl_arriveTime (xs ! Suc i))"

section \<open>Squeezing\<close>

lemma zip_loop_key: "is_key (xs ! i) \<Longrightarrow> zip_loop i (Suc k) xs = zip_loop (Suc i) k xs"
  by (simp add: Let_def)

lemma zip_loop_null: "\<not> is_key (xs ! i) \<Longrightarrow> pl_durS (xs ! i) = None \<Longrightarrow> zip_loop i (Suc k) xs = None"
  by (simp add: Let_def)

lemma zip_loop_step:
  assumes "\<not> is_key (xs ! i)" "pl_durS (xs ! i) = Some d"
    and a: "a = max (pl_openTime (xs ! i)) (pl_departTime (xs ! (i - 1)) + trafT (pl_arriveTraffic (xs ! i)))"
  shows "zip_loop i (Suc k) xs =
    (if a + ds_zip d \<le> pl_closeTime (xs ! i)
     then zip_loop (Suc i) k (xs[i := (xs ! i)\<lparr>pl_arriveTime := a, pl_departTime := a + ds_zip d\<rparr>])
     else Some (1, xs))"
  using assms(1,2) unfolding a by (auto simp: Let_def max_def)

declare zip_loop.simps(2) [simp del]

lemma zip_loop_sound:
  "zip_loop i k xs = Some (0, ys) \<Longrightarrow> 1 \<le> i \<Longrightarrow> i + k = length xs \<Longrightarrow>
    length ys = length xs \<and> (\<forall>j < i. ys ! j = xs ! j) \<and>
    (\<forall>j. i \<le> j \<and> j < length xs \<longrightarrow> zip_item (ys ! (j - 1)) (xs ! j) (ys ! j))"
proof (induction k arbitrary: i xs)
  case (Suc k i xs)
  note IH = Suc.IH and z0 = Suc.prems(1) and i1 = Suc.prems(2) and ik = Suc.prems(3)
  have il: "i < length xs" using ik by simp
  show ?case
  proof (cases "is_key (xs ! i)")
    case True
    then have IH: "length ys = length xs \<and> (\<forall>j < Suc i. ys ! j = xs ! j) \<and>
        (\<forall>j. Suc i \<le> j \<and> j < length xs \<longrightarrow> zip_item (ys ! (j - 1)) (xs ! j) (ys ! j))"
      using IH [of "Suc i" xs] z0 i1 ik by (simp add: zip_loop_key)
    moreover have "zip_item p (xs ! i) (ys ! i)" for p using IH True by (simp add: zip_item_def)
    ultimately show ?thesis unfolding all_from_step [of i] by simp
  next
    case False
    then obtain d where d: "pl_durS (xs ! i) = Some d"
      using z0 zip_loop_null [of xs i k] by (cases "pl_durS (xs ! i)") auto
    define a where "a = max (pl_openTime (xs ! i)) (pl_departTime (xs ! (i - 1)) + trafT (pl_arriveTraffic (xs ! i)))"
    define y where "y = (xs ! i)\<lparr>pl_arriveTime := a, pl_departTime := a + ds_zip d\<rparr>"
    have cl: "a + ds_zip d \<le> pl_closeTime (xs ! i)" and z: "zip_loop (Suc i) k (xs[i := y]) = Some (0, ys)"
      using z0 zip_loop_step [OF False d a_def, of k] by (auto simp: y_def split: if_splits)
    have IH: "length ys = length xs \<and> (\<forall>j < Suc i. ys ! j = xs[i := y] ! j) \<and>
        (\<forall>j. Suc i \<le> j \<and> j < length xs \<longrightarrow> zip_item (ys ! (j - 1)) (xs[i := y] ! j) (ys ! j))"
      using IH [OF z] i1 ik by simp
    have "ys ! i = y" "ys ! (i - 1) = xs ! (i - 1)" using IH i1 il by auto
    then have "zip_item (ys ! (i - 1)) (xs ! i) (ys ! i)"
      using False d cl by (simp add: zip_item_def Let_def y_def a_def)
    moreover have "zip_item (ys ! (j - 1)) (xs ! j) (ys ! j)" if "Suc i \<le> j" "j < length xs" for j
      using IH that by (metis Suc_le_lessD nat_neq_iff nth_list_update_neq)
    moreover have "ys ! j = xs ! j" if "j < i" for j
      using IH that by auto
    ultimately show ?thesis using IH unfolding all_from_step [of i] by blast
  qed
qed auto

lemma zip_loop_complete:
  "feasible zs arr dep \<Longrightarrow> 1 \<le> i \<Longrightarrow> i + k = length zs \<Longrightarrow> length xs = length zs \<Longrightarrow>
    (\<forall>j. i \<le> j \<and> j < length zs \<longrightarrow> xs ! j = zs ! j) \<Longrightarrow> pl_departTime (xs ! (i - 1)) \<le> dep (i - 1) \<Longrightarrow>
    \<exists>ys. zip_loop i k xs = Some (0, ys) \<and> (\<forall>j. i \<le> j \<and> j < length zs \<longrightarrow>
      pl_departTime (ys ! j) \<le> dep j \<and> (\<not> is_key (zs ! j) \<longrightarrow> pl_arriveTime (ys ! j) \<le> arr j))"
proof (induction k arbitrary: i xs)
  case 0
  then show ?case by simp
next
  case (Suc k)
  have i: "i < length zs" "xs ! i = zs ! i" using Suc.prems by auto
  show ?case
  proof (cases "is_key (zs ! i)")
    case True
    then have "dep i = pl_departTime (zs ! i)" using Suc.prems(1) i by (auto simp: feasible_def)
    then obtain ys where ys: "zip_loop (Suc i) k xs = Some (0, ys)"
      "\<forall>j. Suc i \<le> j \<and> j < length zs \<longrightarrow> pl_departTime (ys ! j) \<le> dep j \<and>
        (\<not> is_key (zs ! j) \<longrightarrow> pl_arriveTime (ys ! j) \<le> arr j)"
      using Suc.IH [of "Suc i" xs] Suc.prems i by auto
    have "ys ! i = xs ! i" using zip_loop_sound [OF ys(1)] Suc.prems by auto
    then show ?thesis using True i ys \<open>dep i = _\<close> zip_loop_key [of xs i k]
      unfolding all_from_step [of i] by simp
  next
    case False
    obtain d where d: "pl_durS (zs ! i) = Some d"
      "dep (i - 1) + trafT (pl_arriveTraffic (zs ! i)) \<le> arr i" "pl_openTime (zs ! i) \<le> arr i"
      "arr i + ds_zip d \<le> dep i" "dep i \<le> pl_closeTime (zs ! i)"
      using Suc.prems(1,2) i False unfolding feasible_def by fastforce
    define a where "a = max (pl_openTime (xs ! i)) (pl_departTime (xs ! (i - 1)) + trafT (pl_arriveTraffic (xs ! i)))"
    define y where "y = (xs ! i)\<lparr>pl_arriveTime := a, pl_departTime := a + ds_zip d\<rparr>"
    have a: "a \<le> arr i" using d(2,3) Suc.prems(6) i by (simp add: a_def)
    then have dep: "a + ds_zip d \<le> dep i" using d(4) by linarith
    obtain ys where ys: "zip_loop (Suc i) k (xs[i := y]) = Some (0, ys)"
      "\<forall>j. Suc i \<le> j \<and> j < length zs \<longrightarrow> pl_departTime (ys ! j) \<le> dep j \<and>
        (\<not> is_key (zs ! j) \<longrightarrow> pl_arriveTime (ys ! j) \<le> arr j)"
      using Suc.IH [of "Suc i" "xs[i := y]"] Suc.prems i dep by (auto simp: y_def)
    have "ys ! i = y" using zip_loop_sound [OF ys(1)] Suc.prems i by auto
    moreover have "zip_loop i (Suc k) xs = zip_loop (Suc i) k (xs[i := y])"
      using zip_loop_step [of xs i d a k] False d i dep by (simp add: a_def y_def)
    ultimately show ?thesis using ys a dep unfolding all_from_step [of i] by (simp add: y_def)
  qed
qed

lemma zip_feasible:
  assumes "zip_loop 1 (length xs - 1) xs = Some (0, ys)" "xs \<noteq> []"
  shows "feasible xs (\<lambda>i. pl_arriveTime (ys ! i)) (\<lambda>i. pl_departTime (ys ! i))"
  unfolding feasible_def
proof (intro allI impI)
  fix i assume i: "i < length xs"
  note S = zip_loop_sound [OF assms(1)]
  have l: "1 + (length xs - 1) = length xs" using assms(2) by (cases xs) auto
  show "if i = 0 \<or> is_key (xs ! i) then pl_departTime (ys ! i) = pl_departTime (xs ! i)
    else \<exists>d. pl_durS (xs ! i) = Some d \<and>
      pl_departTime (ys ! (i - 1)) + trafT (pl_arriveTraffic (xs ! i)) \<le> pl_arriveTime (ys ! i) \<and>
      pl_openTime (xs ! i) \<le> pl_arriveTime (ys ! i) \<and>
      pl_arriveTime (ys ! i) + ds_zip d \<le> pl_departTime (ys ! i) \<and>
      pl_departTime (ys ! i) \<le> pl_closeTime (xs ! i)"
  proof (cases "i = 0")
    case True
    then show ?thesis using S l by simp
  next
    case False
    then have "zip_item (ys ! (i - 1)) (xs ! i) (ys ! i)" using S l i by simp
    then show ?thesis using False by (auto simp: zip_item_def Let_def split: if_splits)
  qed
qed

lemma zip_loop_earliest:
  assumes "feasible xs arr dep" "xs \<noteq> []"
  shows "\<exists>ys. zip_loop 1 (length xs - 1) xs = Some (0, ys) \<and>
    (\<forall>j < length xs. pl_departTime (ys ! j) \<le> dep j \<and>
      (j \<noteq> 0 \<and> \<not> is_key (xs ! j) \<longrightarrow> pl_arriveTime (ys ! j) \<le> arr j))"
proof -
  have l: "1 + (length xs - 1) = length xs" using assms(2) by (cases xs) auto
  have d0: "dep 0 = pl_departTime (xs ! 0)" using assms by (auto simp: feasible_def)
  obtain ys where ys: "zip_loop 1 (length xs - 1) xs = Some (0, ys)"
    "\<forall>j. 1 \<le> j \<and> j < length xs \<longrightarrow> pl_departTime (ys ! j) \<le> dep j \<and>
      (\<not> is_key (xs ! j) \<longrightarrow> pl_arriveTime (ys ! j) \<le> arr j)"
    using zip_loop_complete [OF assms(1), of 1 "length xs - 1" xs] l d0 by auto
  have "ys ! 0 = xs ! 0" using zip_loop_sound [OF ys(1)] l by simp
  then have "pl_departTime (ys ! j) \<le> dep j \<and> (j \<noteq> 0 \<and> \<not> is_key (xs ! j) \<longrightarrow> pl_arriveTime (ys ! j) \<le> arr j)"
    if "j < length xs" for j
    using ys(2) d0 that by (cases "j = 0") auto
  then show ?thesis using ys(1) by blast
qed

section \<open>Idle time\<close>

lemma legs_fit_Cons:
  "legs_fit (x # y # zs) \<longleftrightarrow> pl_departTime x + leg x y \<le> pl_arriveTime y \<and> legs_fit (y # zs)"
  by (force simp: legs_fit_def nth_Cons split: nat.split)

lemma idel_loop_eq:
  "idel_loop xs b = (if legs_fit xs
     then b + (\<Sum>i < length xs - 1. pl_arriveTime (xs ! Suc i) - pl_departTime (xs ! i) - leg (xs ! i) (xs ! Suc i))
     else -1)"
proof (induction xs b rule: idel_loop.induct)
  case (1 x y zs b)
  show ?case
    using 1 by (simp add: legs_fit_Cons sum.lessThan_Suc_shift del: sum.lessThan_Suc)
qed (auto simp: legs_fit_def)

end
