(* ===== verification/PathStretch.thy ===== *)
theory PathStretch
  imports PathUtil
begin

text \<open>
  Proofs about the time adjustment of \<^verbatim>\<open>PathUtil.cpp\<close>, on the definitions of the theory \<open>PathUtil\<close>.

  The stretching works on a segment between two items: \<open>seg_ok\<close> says that the segment has no key
  node inside, that its times fit and that every visit lies between its compressed and its
  extended duration. \<open>earliest_loop_keeps\<close> and \<open>latest_loop_keeps\<close> show that pushing the visits to
  the left and to the right keeps that; \<open>stretch_one_keeps\<close> that a turn of the queue never
  reports an error and lengthens one visit only; \<open>stretch_loop_terminates\<close> that the queue
  drains, because either the slack of the queued visits shrinks or the head of the rate list
  comes nearer to the front.
\<close>

section \<open>Specification\<close>

definition dur_same :: "planitem list \<Rightarrow> planitem list \<Rightarrow> bool" where
  "dur_same xs ys \<longleftrightarrow> (\<forall>j < length xs. PlanItem_GetDur (ys ! j) = PlanItem_GetDur (xs ! j))"

text \<open>Times count from 0 and travelling takes no negative time.\<close>

definition seg_time :: "nat \<Rightarrow> nat \<Rightarrow> planitem list \<Rightarrow> bool" where
  "seg_time a b xs \<longleftrightarrow> 0 \<le> pl_departTime (xs ! a) \<and>
     (\<forall>i. a \<le> i \<and> i < b \<longrightarrow> 0 \<le> trafT (pl_arriveTraffic (xs ! Suc i)))"

text \<open>The state the stretching keeps.\<close>

definition seg_ok :: "nat \<Rightarrow> nat \<Rightarrow> planitem list \<Rightarrow> bool" where
  "seg_ok a b xs \<longleftrightarrow> seg_static a b xs \<and> seg_cons a b xs \<and> seg_dur a b xs \<and> seg_time a b xs"

text \<open>What one turn does: it returns no error, moves items inside their room, changes the duration
  of the turn's own item only and never shortens it. The items outside the segment stay as they are.\<close>

definition framed :: "nat \<Rightarrow> nat \<Rightarrow> planitem list \<Rightarrow> planitem list \<Rightarrow> bool" where
  "framed a b xs ys \<longleftrightarrow> (\<forall>j. j \<le> a \<or> b \<le> j \<longrightarrow> ys ! j = xs ! j)"

definition grown :: "nat \<Rightarrow> planitem list \<Rightarrow> planitem list \<Rightarrow> bool" where
  "grown i xs ys \<longleftrightarrow> retimed xs ys \<and> (\<forall>j < length xs. PlanItem_GetDur (xs ! j) \<le> PlanItem_GetDur (ys ! j)) \<and>
     (\<forall>j < length xs. j \<noteq> i \<longrightarrow> PlanItem_GetDur (ys ! j) = PlanItem_GetDur (xs ! j))"

text \<open>The queue: distinct inner items, the same as those of the rate list.\<close>

definition queue_ok :: "nat \<Rightarrow> nat \<Rightarrow> stretchitem list \<Rightarrow> stretchitem list \<Rightarrow> bool" where
  "queue_ok a b queue sList \<longleftrightarrow> distinct (map si_index queue) \<and> si_index ` set sList = si_index ` set queue \<and>
     (\<forall>s \<in> set queue. a < si_index s \<and> si_index s < b)"

definition slack :: "planitem list \<Rightarrow> stretchitem \<Rightarrow> nat" where
  "slack xs s = nat ((case pl_durS (xs ! si_index s) of Some d \<Rightarrow> ds_extend d | None \<Rightarrow> 0)
     - PlanItem_GetDur (xs ! si_index s))"

definition stretch_work :: "planitem list \<Rightarrow> stretchitem list \<Rightarrow> nat" where
  "stretch_work xs queue = sum_list (map (slack xs) queue) + length queue"

definition stretch_pos :: "stretchitem list \<Rightarrow> stretchitem list \<Rightarrow> nat" where
  "stretch_pos queue sList = length (takeWhile (\<lambda>s. si_index s \<noteq> si_index (hd sList)) queue)"

definition longer :: "nat \<Rightarrow> nat \<Rightarrow> planitem list \<Rightarrow> planitem list \<Rightarrow> bool" where
  "longer a b xs ys \<longleftrightarrow> seg_ok a b ys \<and> retimed xs ys \<and>
     (\<forall>j < length xs. PlanItem_GetDur (xs ! j) \<le> PlanItem_GetDur (ys ! j)) \<and> framed a b xs ys"

text \<open>A visit of \<open>d\<close> seconds that may grow to 100, between two fixed items.\<close>

definition stretch_demo :: "int \<Rightarrow> planitem list" where
  "stretch_demo d =
     [PlanItem_new,
      PlanItem_new\<lparr>pl_departTime := d, pl_durS := Some (DurS_new d d 100 100 100), pl_closeTime := 1000\<rparr>,
      PlanItem_new\<lparr>pl_arriveTime := 1000\<rparr>]"

definition demo_si :: stretchitem where
  "demo_si = \<lparr>si_index = 1, si_rcmdDur = 100\<rparr>"

section \<open>Stretching\<close>

lemma retimed_refl: "retimed xs xs"
  unfolding retimed_def
proof (intro conjI allI impI)
  fix i
  show "\<exists>s t. xs ! i = (xs ! i)\<lparr>pl_arriveTime := s, pl_departTime := t\<rparr>"
    by (intro exI [of _ "pl_arriveTime (xs ! i)"] exI [of _ "pl_departTime (xs ! i)"]) simp
qed simp

lemma retimed_trans: "retimed xs ys \<Longrightarrow> retimed ys zs \<Longrightarrow> retimed xs zs"
  unfolding retimed_def
proof (elim conjE, intro conjI allI impI)
  fix i assume i: "i < length xs" "length ys = length xs"
    and X: "\<forall>i < length xs. \<exists>s t. ys ! i = (xs ! i)\<lparr>pl_arriveTime := s, pl_departTime := t\<rparr>"
    and Y: "\<forall>i < length ys. \<exists>s t. zs ! i = (ys ! i)\<lparr>pl_arriveTime := s, pl_departTime := t\<rparr>"
  obtain s t where 1: "ys ! i = (xs ! i)\<lparr>pl_arriveTime := s, pl_departTime := t\<rparr>" using X i by blast
  obtain s' t' where 2: "zs ! i = (ys ! i)\<lparr>pl_arriveTime := s', pl_departTime := t'\<rparr>" using Y i by auto
  have "zs ! i = (xs ! i)\<lparr>pl_arriveTime := s', pl_departTime := t'\<rparr>" unfolding 2 1 by simp
  then show "\<exists>s t. zs ! i = (xs ! i)\<lparr>pl_arriveTime := s, pl_departTime := t\<rparr>" by blast
qed simp

lemma retimed_update:
  "retimed xs (xs[i := (xs ! i)\<lparr>pl_arriveTime := s, pl_departTime := t\<rparr>])"
proof -
  have "\<exists>s' t'. (xs[i := (xs ! i)\<lparr>pl_arriveTime := s, pl_departTime := t\<rparr>]) ! j
      = (xs ! j)\<lparr>pl_arriveTime := s', pl_departTime := t'\<rparr>" if "j < length xs" for j
  proof (cases "j = i")
    case True
    then show ?thesis using that by auto
  next
    case False
    then show ?thesis using retimed_refl [of xs] that by (simp add: retimed_def)
  qed
  then show ?thesis by (simp add: retimed_def)
qed

lemma retimed_fields:
  assumes "retimed xs ys" "i < length xs"
  shows "is_key (ys ! i) = is_key (xs ! i)" "pl_durS (ys ! i) = pl_durS (xs ! i)"
    "pl_openTime (ys ! i) = pl_openTime (xs ! i)" "pl_closeTime (ys ! i) = pl_closeTime (xs ! i)"
    "pl_arriveTraffic (ys ! i) = pl_arriveTraffic (xs ! i)"
    "pl_departTraffic (ys ! i) = pl_departTraffic (xs ! i)" "pl_place (ys ! i) = pl_place (xs ! i)"
proof -
  obtain s t where "ys ! i = (xs ! i)\<lparr>pl_arriveTime := s, pl_departTime := t\<rparr>"
    using assms unfolding retimed_def by metis
  then show "is_key (ys ! i) = is_key (xs ! i)" "pl_durS (ys ! i) = pl_durS (xs ! i)"
    "pl_openTime (ys ! i) = pl_openTime (xs ! i)" "pl_closeTime (ys ! i) = pl_closeTime (xs ! i)"
    "pl_arriveTraffic (ys ! i) = pl_arriveTraffic (xs ! i)"
    "pl_departTraffic (ys ! i) = pl_departTraffic (xs ! i)" "pl_place (ys ! i) = pl_place (xs ! i)"
    by (simp_all add: is_key_def)
qed

lemma retimed_length: "retimed xs ys \<Longrightarrow> length ys = length xs"
  by (simp add: retimed_def)

lemma retimed_static: "retimed xs ys \<Longrightarrow> seg_static a b xs \<Longrightarrow> seg_static a b ys"
  using retimed_fields [of xs ys] by (auto simp: seg_static_def retimed_length)

lemma times_comm: "it\<lparr>pl_departTime := t, pl_arriveTime := s\<rparr> = it\<lparr>pl_arriveTime := s, pl_departTime := t\<rparr>"
  by simp

text \<open>Moving one inner item inside the room its neighbours leave keeps the segment consistent.\<close>

lemma seg_cons_move:
  assumes "seg_cons a b xs" "a < i" "i < b" "b < length xs"
    and "pl_departTime (xs ! (i - 1)) + trafT (pl_arriveTraffic (xs ! i)) \<le> s" "pl_openTime (xs ! i) \<le> s"
    and "t \<le> pl_closeTime (xs ! i)" "t + trafT (pl_arriveTraffic (xs ! Suc i)) \<le> pl_arriveTime (xs ! Suc i)"
  shows "seg_cons a b (xs[i := (xs ! i)\<lparr>pl_arriveTime := s, pl_departTime := t\<rparr>])"
  using assms unfolding seg_cons_def by (auto simp: nth_list_update)

lemma seg_cons_leg:
  "seg_cons a b xs \<Longrightarrow> a < i \<Longrightarrow> i \<le> b \<Longrightarrow>
    pl_departTime (xs ! (i - 1)) + trafT (pl_arriveTraffic (xs ! i)) \<le> pl_arriveTime (xs ! i)"
  unfolding seg_cons_def by (cases i) auto

lemma seg_cons_window:
  "seg_cons a b xs \<Longrightarrow> a < i \<Longrightarrow> i < b \<Longrightarrow>
    pl_openTime (xs ! i) \<le> pl_arriveTime (xs ! i) \<and> pl_departTime (xs ! i) \<le> pl_closeTime (xs ! i)"
  unfolding seg_cons_def by simp

lemma dur_same_trans: "length ys = length xs \<Longrightarrow> dur_same xs ys \<Longrightarrow> dur_same ys zs \<Longrightarrow> dur_same xs zs"
  by (simp add: dur_same_def)

lemma dur_same_move:
  "dur_same xs (xs[i := (xs ! i)\<lparr>pl_arriveTime := s, pl_departTime := s + PlanItem_GetDur (xs ! i)\<rparr>])"
proof -
  have "PlanItem_GetDur (xs[i := (xs ! i)\<lparr>pl_arriveTime := s, pl_departTime := s + PlanItem_GetDur (xs ! i)\<rparr>] ! j)
    = PlanItem_GetDur (xs ! j)" if "j < length xs" for j
    using that by (cases "j = i") (simp_all add: PlanItem_GetDur_def)
  then show ?thesis by (simp add: dur_same_def)
qed

lemma earliest_loop_keeps:
  assumes "earliest_loop a i k dept xs = (E, ys)" "seg_static a b xs" "seg_cons a b xs"
    and "a < i" "i + k \<le> b" "dept = pl_departTime (xs ! (i - 1))"
  shows "retimed xs ys \<and> dur_same xs ys \<and> seg_cons a b ys \<and> E = pl_departTime (ys ! (i + k - 1)) \<and>
    (\<forall>j. j < i \<or> i + k \<le> j \<longrightarrow> ys ! j = xs ! j)"
  using assms
proof (induction k arbitrary: i dept xs)
  case 0
  then show ?case by (auto simp: retimed_refl dur_same_def)
next
  case (Suc k)
  note st = Suc.prems(2) and cons = Suc.prems(3) and i = Suc.prems(4,5)
  have len: "b < length xs" "i < length xs" "\<not> is_key (xs ! i)" using st i by (auto simp: seg_static_def)
  define s where "s = max (pl_openTime (xs ! i)) (dept + trafT (pl_arriveTraffic (xs ! i)))"
  define t where "t = s + PlanItem_GetDur (xs ! i)"
  define xs1 where "xs1 = xs[i := (xs ! i)\<lparr>pl_arriveTime := s, pl_departTime := t\<rparr>]"
  have "s \<le> pl_arriveTime (xs ! i)"
    using seg_cons_leg [OF cons, of i] seg_cons_window [OF cons, of i] i Suc.prems(6) by (simp add: s_def)
  then have t: "t \<le> pl_departTime (xs ! i)" by (simp add: t_def PlanItem_GetDur_def)
  have cl: "t \<le> pl_closeTime (xs ! i)" "t + trafT (pl_arriveTraffic (xs ! Suc i)) \<le> pl_arriveTime (xs ! Suc i)"
    using t seg_cons_window [OF cons, of i] seg_cons_leg [OF cons, of "Suc i"] i by auto
  have loop: "earliest_loop a (Suc i) k t xs1 = (E, ys)"
    using Suc.prems(1) len i cl unfolding s_def t_def xs1_def by (auto simp: Let_def max_def split: if_splits)
  have st1: "seg_static a b xs1" unfolding xs1_def by (rule retimed_static [OF retimed_update st])
  have cons1: "seg_cons a b xs1"
    unfolding xs1_def using cons i len cl Suc.prems(6) by (intro seg_cons_move) (auto simp: s_def)
  have "t = pl_departTime (xs1 ! (Suc i - 1))" using len by (simp add: xs1_def)
  from Suc.IH [OF loop st1 cons1 _ _ this] i
  have IH: "retimed xs1 ys \<and> dur_same xs1 ys \<and> seg_cons a b ys \<and> E = pl_departTime (ys ! (Suc i + k - 1)) \<and>
      (\<forall>j. j < Suc i \<or> Suc i + k \<le> j \<longrightarrow> ys ! j = xs1 ! j)" by simp
  have "retimed xs xs1" "dur_same xs xs1"
    unfolding xs1_def t_def by (rule retimed_update, rule dur_same_move)
  moreover have "length xs1 = length xs" by (simp add: xs1_def)
  ultimately show ?case
    using IH retimed_trans [of xs xs1 ys] dur_same_trans [of xs1 xs ys] by (auto simp: xs1_def)
qed

lemma latest_loop_keeps:
  assumes "latest_loop b i k arv xs = (L, ys)" "seg_static a b xs" "seg_cons a b xs"
    and "i < b" "a + k \<le> i" "arv = pl_arriveTime (xs ! Suc i)"
  shows "retimed xs ys \<and> dur_same xs ys \<and> seg_cons a b ys \<and> L = pl_arriveTime (ys ! (Suc i - k)) \<and>
    (\<forall>j. j \<le> i - k \<or> i < j \<longrightarrow> ys ! j = xs ! j)"
  using assms
proof (induction k arbitrary: i arv xs)
  case 0
  then show ?case by (auto simp: retimed_refl dur_same_def)
next
  case (Suc k)
  note st = Suc.prems(2) and cons = Suc.prems(3) and i = Suc.prems(4,5)
  have len: "b < length xs" "i < length xs" "\<not> is_key (xs ! i)" using st i by (auto simp: seg_static_def)
  have traf: "trafT (pl_departTraffic (xs ! i)) = trafT (pl_arriveTraffic (xs ! Suc i))"
    using st i by (auto simp: seg_static_def)
  define t where "t = min (pl_closeTime (xs ! i)) (arv - trafT (pl_departTraffic (xs ! i)))"
  define s where "s = t - PlanItem_GetDur (xs ! i)"
  define xs1 where "xs1 = xs[i := (xs ! i)\<lparr>pl_arriveTime := s, pl_departTime := t\<rparr>]"
  have "pl_departTime (xs ! i) \<le> t"
    using seg_cons_leg [OF cons, of "Suc i"] seg_cons_window [OF cons, of i] i Suc.prems(6) traf by (simp add: t_def)
  then have s: "pl_arriveTime (xs ! i) \<le> s" by (simp add: s_def PlanItem_GetDur_def)
  have cl: "pl_openTime (xs ! i) \<le> s" "pl_departTime (xs ! (i - 1)) + trafT (pl_arriveTraffic (xs ! i)) \<le> s"
    using s seg_cons_window [OF cons, of i] seg_cons_leg [OF cons, of i] i by auto
  have loop: "latest_loop b (i - 1) k s xs1 = (L, ys)"
    using Suc.prems(1) len i cl unfolding s_def t_def xs1_def by (auto simp: Let_def min_def times_comm split: if_splits)
  have st1: "seg_static a b xs1" unfolding xs1_def by (rule retimed_static [OF retimed_update st])
  have cons1: "seg_cons a b xs1"
    unfolding xs1_def using cons i len cl Suc.prems(6) traf by (intro seg_cons_move) (auto simp: t_def)
  have "s = pl_arriveTime (xs1 ! Suc (i - 1))" using len i by (simp add: xs1_def)
  from Suc.IH [OF loop st1 cons1 _ _ this] i
  have IH: "retimed xs1 ys \<and> dur_same xs1 ys \<and> seg_cons a b ys \<and> L = pl_arriveTime (ys ! (Suc i - Suc k)) \<and>
      (\<forall>j. j \<le> i - Suc k \<or> i - 1 < j \<longrightarrow> ys ! j = xs1 ! j)" by simp
  have t: "t = s + PlanItem_GetDur (xs ! i)" by (simp add: s_def)
  have "retimed xs xs1" "dur_same xs xs1"
    unfolding xs1_def t by (rule retimed_update, rule dur_same_move)
  moreover have "length xs1 = length xs" by (simp add: xs1_def)
  moreover have "ys ! j = xs ! j" if "j \<le> i - Suc k \<or> i < j" for j
  proof -
    have "j \<noteq> i" using that i by auto
    then show ?thesis using IH that by (auto simp: xs1_def)
  qed
  ultimately show ?case
    using IH retimed_trans [of xs xs1 ys] dur_same_trans [of xs1 xs ys] by simp
qed

lemma GetEarliestDept_keeps:
  assumes "GetEarliestDept a i xs = (E, ys)" "seg_static a b xs" "seg_cons a b xs" "a < i" "i < b"
  shows "retimed xs ys" "dur_same xs ys" "seg_cons a b ys" "E = pl_departTime (ys ! (i - 1))"
    "\<And>j. j \<le> a \<or> i \<le> j \<Longrightarrow> ys ! j = xs ! j"
proof -
  obtain k where k: "i - a = Suc k" using assms(4) by (cases "i - a") auto
  then have "earliest_loop a (Suc a) k (pl_departTime (xs ! a)) xs = (E, ys)"
    using assms(1) by (simp add: GetEarliestDept_def Let_def)
  from earliest_loop_keeps [OF this assms(2,3)] assms(4,5) k
  have R: "retimed xs ys \<and> dur_same xs ys \<and> seg_cons a b ys \<and> E = pl_departTime (ys ! (Suc a + k - 1)) \<and>
    (\<forall>j. j < Suc a \<or> Suc a + k \<le> j \<longrightarrow> ys ! j = xs ! j)" by simp
  have "Suc a + k = i" using k assms(4) by simp
  with R show "retimed xs ys" "dur_same xs ys" "seg_cons a b ys" "E = pl_departTime (ys ! (i - 1))"
    "\<And>j. j \<le> a \<or> i \<le> j \<Longrightarrow> ys ! j = xs ! j" by auto
qed

lemma GetLatestArv_keeps:
  assumes "GetLatestArv b i xs = (L, ys)" "seg_static a b xs" "seg_cons a b xs" "a < i" "i < b"
  shows "retimed xs ys" "dur_same xs ys" "seg_cons a b ys" "L = pl_arriveTime (ys ! Suc i)"
    "\<And>j. j \<le> i \<or> b \<le> j \<Longrightarrow> ys ! j = xs ! j"
proof -
  obtain k where k: "b - i = Suc k" using assms(5) by (cases "b - i") auto
  have b: "Suc (b - 1) = b" using assms(5) by simp
  have "latest_loop b (b - 1) k (pl_arriveTime (xs ! b)) xs = (L, ys)"
    using assms(1) k by (simp add: GetLatestArv_def Let_def)
  from latest_loop_keeps [OF this assms(2,3)] assms(4,5) k b
  have R: "retimed xs ys \<and> dur_same xs ys \<and> seg_cons a b ys \<and> L = pl_arriveTime (ys ! (b - k)) \<and>
    (\<forall>j. j \<le> b - 1 - k \<or> b - 1 < j \<longrightarrow> ys ! j = xs ! j)" by simp
  have "b - k = Suc i" "b - 1 - k = i" using k assms(5) by auto
  with R show "retimed xs ys" "dur_same xs ys" "seg_cons a b ys" "L = pl_arriveTime (ys ! Suc i)"
    "\<And>j. j \<le> i \<or> b \<le> j \<Longrightarrow> ys ! j = xs ! j" by auto
qed

lemma seg_dur_D:
  assumes "seg_dur a b xs" "a < i" "i < b"
  obtains d where "pl_durS (xs ! i) = Some d" "0 \<le> PlanItem_GetDur (xs ! i)" "PlanItem_GetDur (xs ! i) < 2 ^ 31"
    "ds_extend d < 2 ^ 31" "ds_zip d \<le> PlanItem_GetDur (xs ! i)" "PlanItem_GetDur (xs ! i) \<le> ds_extend d"
  using assms unfolding seg_dur_def by blast

lemma seg_dur_same:
  assumes "seg_dur a b xs" "retimed xs ys" "dur_same xs ys" "b < length xs"
  shows "seg_dur a b ys"
  unfolding seg_dur_def
proof (intro allI impI)
  fix i assume i: "a < i \<and> i < b"
  then have il: "i < length xs" using assms(4) by simp
  have "PlanItem_GetDur (ys ! i) = PlanItem_GetDur (xs ! i)" using assms(3) il by (simp add: dur_same_def)
  then show "\<exists>d. pl_durS (ys ! i) = Some d \<and> 0 \<le> PlanItem_GetDur (ys ! i) \<and> PlanItem_GetDur (ys ! i) < 2 ^ 31 \<and>
      ds_extend d < 2 ^ 31 \<and> ds_zip d \<le> PlanItem_GetDur (ys ! i) \<and> PlanItem_GetDur (ys ! i) \<le> ds_extend d"
    using assms(1) i retimed_fields(2) [OF assms(2) il] unfolding seg_dur_def by metis
qed

lemma seg_time_retimed:
  assumes "seg_time a b xs" "retimed xs ys" "ys ! a = xs ! a" "b < length xs"
  shows "seg_time a b ys"
  using assms retimed_fields(5) [OF assms(2)] by (auto simp: seg_time_def)

lemma seg_times_nonneg:
  assumes "seg_ok a b xs" "a \<le> i" "i < b"
  shows "0 \<le> pl_departTime (xs ! i) \<and> 0 \<le> pl_arriveTime (xs ! Suc i)"
  using assms(2,3)
proof (induction i rule: nat_induct_at_least)
  case base
  then show ?case using assms(1) seg_cons_leg [of a b xs "Suc a"] by (auto simp: seg_ok_def seg_time_def)
next
  case (Suc n)
  then have IH: "0 \<le> pl_arriveTime (xs ! Suc n)" by simp
  have "0 \<le> PlanItem_GetDur (xs ! Suc n)" using assms(1) Suc unfolding seg_ok_def by (meson seg_dur_D le_imp_less_Suc)
  then have "0 \<le> pl_departTime (xs ! Suc n)" using IH by (simp add: PlanItem_GetDur_def)
  moreover have "0 \<le> trafT (pl_arriveTraffic (xs ! Suc (Suc n)))" using assms(1) Suc by (auto simp: seg_ok_def seg_time_def)
  ultimately show ?case using assms(1) Suc seg_cons_leg [of a b xs "Suc (Suc n)"] by (auto simp: seg_ok_def)
qed

lemma d_1_1_ge: "0 \<le> d \<Longrightarrow> d < 2 ^ 31 \<Longrightarrow> d \<le> dmulc d d_1_1"
  unfolding dmulc_def by (rule dmul_trunc_ge) (auto simp: d_1_1_def)

lemma d_1_1_gt: "10 \<le> d \<Longrightarrow> d < 2 ^ 31 \<Longrightarrow> d < dmulc d d_1_1"
proof -
  assume "10 \<le> d" "d < 2 ^ 31"
  then have "d + 1 \<le> dmulc d d_1_1"
    unfolding dmulc_def by (intro dmul_trunc_ge) (auto simp: d_1_1_def)
  then show ?thesis by simp
qed

lemma stretch_passes:
  assumes "seg_ok a b xs" "a < i" "i < b"
  obtains E ys L zs where "GetEarliestDept a i xs = (E, ys)" "GetLatestArv b i ys = (L, zs)"
    "seg_ok a b zs" "retimed xs zs" "dur_same xs zs" "zs ! i = xs ! i" "framed a b xs zs"
    "E = pl_departTime (zs ! (i - 1))" "L = pl_arriveTime (zs ! Suc i)"
proof -
  have st: "seg_static a b xs" and co: "seg_cons a b xs" and du: "seg_dur a b xs" and ti: "seg_time a b xs"
    using assms(1) by (auto simp: seg_ok_def)
  have bl: "b < length xs" using st by (simp add: seg_static_def)
  obtain E ys where E: "GetEarliestDept a i xs = (E, ys)" by (cases "GetEarliestDept a i xs")
  note e = GetEarliestDept_keeps [OF E st co assms(2,3)]
  have st1: "seg_static a b ys" by (rule retimed_static [OF e(1) st])
  obtain L zs where L: "GetLatestArv b i ys = (L, zs)" by (cases "GetLatestArv b i ys")
  note l = GetLatestArv_keeps [OF L st1 e(3) assms(2,3)]
  have len: "length ys = length xs" by (rule retimed_length [OF e(1)])
  have R: "retimed xs zs" by (rule retimed_trans [OF e(1) l(1)])
  have D: "dur_same xs zs" by (rule dur_same_trans [OF len e(2) l(2)])
  have i: "zs ! i = xs ! i" "zs ! a = xs ! a" "zs ! (i - 1) = ys ! (i - 1)"
    using e(5) l(5) assms(2,3) by auto
  have F: "framed a b xs zs" unfolding framed_def using e(5) l(5) assms(2,3) by auto
  have "seg_ok a b zs"
    using retimed_static [OF R st] l(3) seg_dur_same [OF du R D bl] seg_time_retimed [OF ti R i(2) bl]
    by (simp add: seg_ok_def)
  then show thesis using that [OF E L _ R D i(1) F] e(4) l(4) i(3) by simp
qed

lemma seg_ok_resize:
  assumes "seg_ok a b xs" "a < i" "i < b" "pl_durS (xs ! i) = Some d" "ds_extend d < 2 ^ 31"
    and "pl_departTime (xs ! (i - 1)) + trafT (pl_arriveTraffic (xs ! i)) \<le> s" "pl_openTime (xs ! i) \<le> s"
    and "t \<le> pl_closeTime (xs ! i)" "t + trafT (pl_arriveTraffic (xs ! Suc i)) \<le> pl_arriveTime (xs ! Suc i)"
    and "0 \<le> t - s" "ds_zip d \<le> t - s" "t - s \<le> ds_extend d"
  shows "seg_ok a b (xs[i := (xs ! i)\<lparr>pl_arriveTime := s, pl_departTime := t\<rparr>])" (is "seg_ok a b ?ys")
proof -
  have st: "seg_static a b xs" and co: "seg_cons a b xs" and du: "seg_dur a b xs" and ti: "seg_time a b xs"
    using assms(1) by (auto simp: seg_ok_def)
  have bl: "b < length xs" using st by (simp add: seg_static_def)
  have "?ys ! a = xs ! a" using assms(2) by simp
  moreover have "seg_dur a b ?ys"
    unfolding seg_dur_def
  proof (intro allI impI)
    fix j assume j: "a < j \<and> j < b"
    show "\<exists>d. pl_durS (?ys ! j) = Some d \<and> 0 \<le> PlanItem_GetDur (?ys ! j) \<and> PlanItem_GetDur (?ys ! j) < 2 ^ 31 \<and>
      ds_extend d < 2 ^ 31 \<and> ds_zip d \<le> PlanItem_GetDur (?ys ! j) \<and> PlanItem_GetDur (?ys ! j) \<le> ds_extend d"
    proof (cases "j = i")
      case True
      then show ?thesis using assms bl by (simp add: PlanItem_GetDur_def)
    next
      case False
      then show ?thesis using du j by (simp add: seg_dur_def)
    qed
  qed
  ultimately show ?thesis
    using retimed_static [OF retimed_update st] seg_cons_move [OF co assms(2,3) bl assms(6-9)]
      seg_time_retimed [OF ti retimed_update _ bl] by (simp add: seg_ok_def)
qed

lemma grown_resize:
  assumes "retimed xs zs" "dur_same xs zs" "i < length xs" "PlanItem_GetDur (xs ! i) \<le> t - s"
  shows "grown i xs (zs[i := (zs ! i)\<lparr>pl_arriveTime := s, pl_departTime := t\<rparr>])" (is "grown i xs ?ys")
proof -
  have len: "length zs = length xs" by (rule retimed_length [OF assms(1)])
  have "PlanItem_GetDur (?ys ! j) = (if j = i then t - s else PlanItem_GetDur (xs ! j))" if "j < length xs" for j
    using assms that len by (auto simp: dur_same_def PlanItem_GetDur_def)
  then show ?thesis
    using retimed_trans [OF assms(1) retimed_update] assms(2,4) by (auto simp: grown_def dur_same_def)
qed

lemma stretch_one_keeps:
  assumes ok: "seg_ok a b xs" and i: "a < si_index s" "si_index s < b"
  obtains ys again where "stretch_one a b s xs = Some (Inr (ys, again))" "seg_ok a b ys" "grown (si_index s) xs ys" "framed a b xs ys"
    "again \<longrightarrow> PlanItem_GetDur (ys ! si_index s) = dmulc (PlanItem_GetDur (xs ! si_index s)) d_1_1"
proof -
  define i where "i = si_index s"
  note ai = i[folded i_def]
  obtain d where d: "pl_durS (xs ! i) = Some d" "0 \<le> PlanItem_GetDur (xs ! i)" "PlanItem_GetDur (xs ! i) < 2 ^ 31"
    "ds_extend d < 2 ^ 31" "ds_zip d \<le> PlanItem_GetDur (xs ! i)" "PlanItem_GetDur (xs ! i) \<le> ds_extend d"
    using ok ai unfolding seg_ok_def by (metis seg_dur_D)
  obtain E ws L zs where P: "GetEarliestDept a i xs = (E, ws)" "GetLatestArv b i ws = (L, zs)"
    "seg_ok a b zs" "retimed xs zs" "dur_same xs zs" "zs ! i = xs ! i" "framed a b xs zs"
    "E = pl_departTime (zs ! (i - 1))" "L = pl_arriveTime (zs ! Suc i)"
    by (rule stretch_passes [OF ok ai])
  define arv where "arv = max (pl_openTime (zs ! i)) (E + trafT (pl_arriveTraffic (zs ! i)))"
  define dep where "dep = min (pl_closeTime (zs ! i)) (L - trafT (pl_departTraffic (zs ! i)))"
  define dur where "dur = max (min (dmulc (PlanItem_GetDur (xs ! i)) d_1_1) (ds_extend d)) (ds_zip d)"
  have co: "seg_cons a b zs" and st: "seg_static a b zs" using P(3) by (auto simp: seg_ok_def)
  have il: "i < length zs" using st ai by (simp add: seg_static_def)
  have len: "length zs = length xs" by (rule retimed_length [OF P(4)])
  have traf: "trafT (pl_departTraffic (zs ! i)) = trafT (pl_arriveTraffic (zs ! Suc i))"
    using st ai by (simp add: seg_static_def)
  have room: "arv \<le> pl_arriveTime (zs ! i)" "pl_departTime (zs ! i) \<le> dep"
    using seg_cons_leg [OF co, of i] seg_cons_leg [OF co, of "Suc i"] seg_cons_window [OF co, of i] ai P(8,9) traf
    by (auto simp: arv_def dep_def)
  then have fit: "PlanItem_GetDur (xs ! i) \<le> dep - arv" by (simp add: PlanItem_GetDur_def P(6))
  have dur: "PlanItem_GetDur (xs ! i) \<le> dur" "dur \<le> ds_extend d" "ds_zip d \<le> dur"
    using d_1_1_ge [of "PlanItem_GetDur (xs ! i)"] d by (auto simp: dur_def)
  have le1: "a \<le> i - 1" "i - 1 < b" using ai by auto
  have nn: "E \<noteq> -1" "L \<noteq> -1"
    using seg_times_nonneg [OF P(3), of "i - 1", OF le1] seg_times_nonneg [OF P(3), of i] ai P(8,9)
    by auto
  define t where "t = min (arv + dur) dep"
  define ys where "ys = zs[i := (zs ! i)\<lparr>pl_arriveTime := arv, pl_departTime := t\<rparr>]"
  define again where "again \<longleftrightarrow> arv + dur \<le> dep \<and> dur < ds_extend d"
  have ta: "0 \<le> t - arv" "ds_zip d \<le> t - arv" "t - arv \<le> ds_extend d" "t \<le> dep"
    using d dur fit by (auto simp: t_def)
  have "stretch_one a b s xs = Some (Inr (ys, again))"
    using P(1,2) d(1) nn fit d(2) unfolding stretch_one_def ys_def t_def again_def arv_def dep_def dur_def i_def
    by (auto simp: Let_def max_def min_def)
  moreover have "seg_ok a b ys"
    unfolding ys_def
  proof (rule seg_ok_resize [OF P(3) ai])
    show "pl_durS (zs ! i) = Some d" using d P by simp
  qed (use d P traf ta in \<open>auto simp: arv_def dep_def\<close>)
  moreover have "grown i xs ys"
    unfolding ys_def by (rule grown_resize [OF P(4,5)]) (use il len dur fit in \<open>auto simp: t_def\<close>)
  moreover have "framed a b xs ys" using P(7) ai by (auto simp: framed_def ys_def)
  moreover have "PlanItem_GetDur (ys ! i) = dmulc (PlanItem_GetDur (xs ! i)) d_1_1" if "again"
  proof -
    have "dur = dmulc (PlanItem_GetDur (xs ! i)) d_1_1"
      using that d_1_1_ge [of "PlanItem_GetDur (xs ! i)"] d by (auto simp: again_def dur_def)
    moreover have "PlanItem_GetDur (ys ! i) = dur"
      using that il by (simp add: again_def ys_def t_def PlanItem_GetDur_def)
    ultimately show ?thesis by simp
  qed
  ultimately show thesis using that i_def by blast
qed

lemma longer_refl: "seg_ok a b xs \<Longrightarrow> longer a b xs xs"
  by (simp add: longer_def retimed_refl framed_def)

lemma grown_longer: "grown i xs ys \<Longrightarrow> framed a b xs ys \<Longrightarrow> longer a b ys zs \<Longrightarrow> longer a b xs zs"
  using retimed_trans [of xs ys zs] retimed_length [of xs ys]
  by (fastforce simp: grown_def longer_def framed_def)

lemma slack_grown:
  assumes "grown i xs ys" "si_index s \<noteq> i" "si_index s < length xs"
  shows "slack ys s = slack xs s"
  using assms retimed_fields(2) [of xs ys "si_index s"] by (simp add: grown_def slack_def)

lemma stretch_work_rest:
  assumes "grown i xs ys" "\<forall>s \<in> set q. si_index s \<noteq> i \<and> si_index s < length xs"
  shows "stretch_work ys q = stretch_work xs q"
proof -
  have "map (slack ys) q = map (slack xs) q" using assms slack_grown [OF assms(1)] by (simp add: map_eq_conv)
  then show ?thesis by (simp only: stretch_work_def)
qed

lemma stretch_pos_rotate:
  assumes "si_index s \<noteq> si_index (hd sList)" "\<exists>t \<in> set rest. si_index t = si_index (hd sList)"
  shows "stretch_pos (rest @ [s]) sList < stretch_pos (s # rest) sList"
proof -
  obtain t where "t \<in> set rest" "\<not> si_index t \<noteq> si_index (hd sList)" using assms(2) by blast
  then have "takeWhile (\<lambda>s. si_index s \<noteq> si_index (hd sList)) (rest @ [s]) =
      takeWhile (\<lambda>s. si_index s \<noteq> si_index (hd sList)) rest" by (rule takeWhile_append1)
  then show ?thesis using assms(1) by (simp add: stretch_pos_def)
qed

lemma slack_again:
  assumes "grown (si_index s) xs ys" "si_index s < length xs" "seg_ok a b ys" "a < si_index s" "si_index s < b"
    and "PlanItem_GetDur (xs ! si_index s) < PlanItem_GetDur (ys ! si_index s)"
  shows "slack ys s < slack xs s"
proof -
  obtain d where d: "pl_durS (ys ! si_index s) = Some d" "PlanItem_GetDur (ys ! si_index s) \<le> ds_extend d"
    using assms(3-5) unfolding seg_ok_def by (metis seg_dur_D)
  then have "pl_durS (xs ! si_index s) = Some d"
    using assms(1,2) retimed_fields(2) [of xs ys "si_index s"] by (simp add: grown_def)
  then show ?thesis using d assms(6) by (simp add: slack_def)
qed

lemma stretch_loop_Suc_mono:
  assumes "\<forall>n \<ge> N. stretch_loop n rateSort a b q' l' xs' = Some r"
    and "\<And>n. stretch_loop (Suc n) rateSort a b q l xs = stretch_loop n rateSort a b q' l' xs'"
  shows "\<forall>n \<ge> Suc N. stretch_loop n rateSort a b q l xs = Some r"
proof (intro allI impI)
  fix n assume "Suc N \<le> n"
  then obtain m where "n = Suc m" "N \<le> m" by (cases n) auto
  then show "stretch_loop n rateSort a b q l xs = Some r" using assms by simp
qed

lemma queue_hd_can_stretch:
  assumes "queue_ok a b (s # rest) sList" "\<not> can_stretch lev s sList"
  shows "si_index s \<noteq> si_index (hd sList)" "\<exists>t \<in> set rest. si_index t = si_index (hd sList)"
proof -
  obtain h hs where l: "sList = h # hs" using assms(1) by (cases sList) (auto simp: queue_ok_def)
  then show ne: "si_index s \<noteq> si_index (hd sList)" using assms(2) by (auto split: if_splits)
  have "si_index h \<in> si_index ` set (s # rest)" using assms(1) l unfolding queue_ok_def by (metis image_eqI list.set_intros(1))
  then show "\<exists>t \<in> set rest. si_index t = si_index (hd sList)" using ne l by auto
qed

lemma queue_ok_rotate: "queue_ok a b (s # rest) sList \<Longrightarrow> si_index ` set l = si_index ` set sList \<Longrightarrow> queue_ok a b (rest @ [s]) l"
  by (auto simp: queue_ok_def)

lemma queue_ok_drop:
  "queue_ok a b (s # rest) sList \<Longrightarrow> queue_ok a b rest (filter (\<lambda>t. si_index t \<noteq> si_index s) sList)"
proof -
  assume q: "queue_ok a b (s # rest) sList"
  then have "si_index ` set (filter (\<lambda>t. si_index t \<noteq> si_index s) sList) = si_index ` set sList - {si_index s}" by auto
  also have "\<dots> = si_index ` set rest" using q unfolding queue_ok_def by (metis Diff_insert_absorb distinct.simps(2) list.set_map list.simps(15,9) image_insert)
  finally show ?thesis using q by (auto simp: queue_ok_def)
qed

lemma stretch_loop_terminates:
  assumes perm: "\<And>xs l. mset (rateSort xs l) = mset l"
  shows "seg_ok a b xs \<Longrightarrow> queue_ok a b queue sList \<Longrightarrow> \<forall>i. a < i \<and> i < b \<longrightarrow> 10 \<le> PlanItem_GetDur (xs ! i) \<Longrightarrow>
    \<exists>N ys. (\<forall>n \<ge> N. stretch_loop n rateSort a b queue sList xs = Some (0, ys)) \<and> longer a b xs ys"
proof (induction "(stretch_work xs queue, stretch_pos queue sList)" arbitrary: xs queue sList
    rule: wf_induct_rule [OF wf_lex_prod [OF wf_less_than wf_less_than]])
  case (1 xs queue sList)
  note IH = 1(1) and ok = 1(2) and qok = 1(3) and ten = 1(4)
  show ?case
  proof (cases queue)
    case Nil
    have "stretch_loop n rateSort a b queue sList xs = Some (0, xs)" if "1 \<le> n" for n
      using that Nil by (cases n) auto
    then show ?thesis using longer_refl [OF ok] by blast
  next
    case (Cons s rest)
    note q = qok [unfolded Cons]
    have si: "a < si_index s" "si_index s < b" using q by (auto simp: queue_ok_def)
    have bl: "b < length xs" using ok by (simp add: seg_ok_def seg_static_def)
    show ?thesis
    proof (cases "can_stretch (StretchItem_GetHotLevel xs) s sList")
      case False
      have "stretch_pos (rest @ [s]) sList < stretch_pos queue sList"
        unfolding Cons by (rule stretch_pos_rotate [OF queue_hd_can_stretch [OF q False]])
      then obtain N ys where N: "\<forall>n \<ge> N. stretch_loop n rateSort a b (rest @ [s]) sList xs = Some (0, ys)" "longer a b xs ys"
        using IH [of xs "rest @ [s]" sList] ok ten queue_ok_rotate [OF q, of sList]
        by (force simp: Cons stretch_work_def)
      then show ?thesis using stretch_loop_Suc_mono [OF N(1), of queue sList xs] False Cons by auto
    next
      case True
      obtain ys again where S: "stretch_one a b s xs = Some (Inr (ys, again))" "seg_ok a b ys" "grown (si_index s) xs ys"
        "framed a b xs ys" "again \<longrightarrow> PlanItem_GetDur (ys ! si_index s) = dmulc (PlanItem_GetDur (xs ! si_index s)) d_1_1"
        by (rule stretch_one_keeps [OF ok si])
      have ten': "\<forall>i. a < i \<and> i < b \<longrightarrow> 10 \<le> PlanItem_GetDur (ys ! i)"
      proof (intro allI impI)
        fix i assume i: "a < i \<and> i < b"
        then have "PlanItem_GetDur (xs ! i) \<le> PlanItem_GetDur (ys ! i)" using S(3) bl by (simp add: grown_def)
        then show "10 \<le> PlanItem_GetDur (ys ! i)" using ten i by fastforce
      qed
      have rest: "stretch_work ys rest = stretch_work xs rest"
      proof (rule stretch_work_rest [OF S(3)], rule ballI)
        fix t assume t: "t \<in> set rest"
        then have "si_index t \<in> si_index ` set rest" by (rule imageI)
        then have "si_index t \<noteq> si_index s" using q by (auto simp: queue_ok_def)
        then show "si_index t \<noteq> si_index s \<and> si_index t < length xs" using q bl t by (auto simp: queue_ok_def)
      qed
      define q' where "q' = (if again then rest @ [s] else rest)"
      define l' where "l' = (if again then rateSort ys sList else filter (\<lambda>t. si_index t \<noteq> si_index s) sList)"
      have "stretch_work ys q' < stretch_work xs queue"
      proof (cases again)
        case True
        have "PlanItem_GetDur (xs ! si_index s) < 2 ^ 31"
          using ok si by (auto simp: seg_ok_def seg_dur_def)
        then have "PlanItem_GetDur (xs ! si_index s) < PlanItem_GetDur (ys ! si_index s)"
          using S(5) True d_1_1_gt ten si by simp
        then have "slack ys s < slack xs s" using slack_again [OF S(3) _ S(2) si] si bl by simp
        then show ?thesis using rest True by (simp add: q'_def Cons stretch_work_def)
      qed (use rest in \<open>simp add: q'_def Cons stretch_work_def\<close>)
      moreover have "queue_ok a b q' l'"
        using queue_ok_rotate [OF q, of l'] queue_ok_drop [OF q] mset_eq_setD [OF perm, of ys sList]
        by (auto simp: q'_def l'_def)
      ultimately obtain N zs where N: "\<forall>n \<ge> N. stretch_loop n rateSort a b q' l' ys = Some (0, zs)" "longer a b ys zs"
        using IH [of ys q' l'] S(2) ten' by auto
      have "stretch_loop (Suc n) rateSort a b queue sList xs = stretch_loop n rateSort a b q' l' ys" for n
        using True Cons S(1) by (simp add: q'_def l'_def)
      from stretch_loop_Suc_mono [OF N(1) this] show ?thesis using grown_longer [OF S(3,4) N(2)] by blast
    qed
  qed
qed

lemma stretch_items_Some:
  "\<forall>i \<in> set is. \<not> is_key (xs ! i) \<and> pl_durS (xs ! i) \<noteq> None \<Longrightarrow>
    \<exists>items. stretch_items xs is = Some items \<and> map si_index items = is"
  by (induction "is") auto

lemma TimeStretch_terminates_lemma:
  assumes ok: "seg_ok a b xs" and ten: "\<forall>i. a < i \<and> i < b \<longrightarrow> 10 \<le> PlanItem_GetDur (xs ! i)"
    and lev: "\<forall>i. a < i \<and> i < b \<longrightarrow> has_flag (lp_t (pl_place (xs ! i))) level_flags \<longrightarrow> lp_isVar (pl_place (xs ! i))"
    and perm: "\<And>xs l. mset (levelSort xs l) = mset l" "\<And>xs l. mset (rateSort xs l) = mset l"
  shows "\<exists>N ys. (\<forall>n \<ge> N. TimeStretch n levelSort rateSort (int a) (int b) xs = Some (0, ys)) \<and> longer a b xs ys"
proof -
  have bl: "b < length xs" using ok by (simp add: seg_ok_def seg_static_def)
  have "\<forall>i \<in> set [a + 1..<b]. \<not> is_key (xs ! i) \<and> pl_durS (xs ! i) \<noteq> None"
  proof
    fix i assume "i \<in> set [a + 1..<b]"
    then have i: "a < i" "i < b" by auto
    then obtain d where "pl_durS (xs ! i) = Some d" using ok unfolding seg_ok_def by (metis seg_dur_D)
    then show "\<not> is_key (xs ! i) \<and> pl_durS (xs ! i) \<noteq> None"
      using ok i by (simp add: seg_ok_def seg_static_def)
  qed
  then obtain items where it: "stretch_items xs [a + 1..<b] = Some items" "map si_index items = [a + 1..<b]"
    using stretch_items_Some by blast
  have "si_index ` set items = set [a + 1..<b]" using it(2) by (metis list.set_map)
  then have idx: "si_index ` set items = {a<..<b}" by auto
  have "level_ok xs s" if "s \<in> set items" for s
  proof -
    have "si_index s \<in> {a<..<b}" using that idx by blast
    then show ?thesis using lev by (simp add: level_ok_def)
  qed
  then have lv: "list_all (level_ok xs) items" by (simp add: list_all_iff)
  define queue where "queue = levelSort xs items"
  define sList where "sList = rateSort xs queue"
  have Q: "set queue = set items" "set sList = set items" "mset queue = mset items"
    using mset_eq_setD [OF perm(1), of xs items] mset_eq_setD [OF perm(2), of xs queue] perm(1)
    by (auto simp: queue_def sList_def)
  have "distinct (map si_index items)" using it(2) by simp
  then have "distinct (map si_index queue)" using Q(3) by (metis mset_map mset_eq_imp_distinct_iff)
  then have "queue_ok a b queue sList" using Q idx by (auto simp: queue_ok_def)
  then obtain N ys where N: "\<forall>n \<ge> N. stretch_loop n rateSort a b queue sList xs = Some (0, ys)" "longer a b xs ys"
    using stretch_loop_terminates [of rateSort a b xs queue sList, OF perm(2) ok _ ten] by blast
  show ?thesis
  proof (cases "items = []")
    case True
    then show ?thesis using it bl longer_refl [OF ok] by (auto simp: TimeStretch_def Let_def min_def)
  next
    case False
    then have "\<forall>n \<ge> N. TimeStretch n levelSort rateSort (int a) (int b) xs = Some (0, ys)"
      using it bl lv N(1) by (auto simp: TimeStretch_def Let_def min_def queue_def sList_def)
    then show ?thesis using N(2) by blast
  qed
qed

lemma stretch_loop_stuck:
  assumes "stretch_one a b s xs = Some (Inr (xs, True))" "rateSort xs [s] = [s]"
  shows "stretch_loop fuel rateSort a b [s] [s] xs = None"
  by (induction fuel) (use assms in auto)

lemma pv_items_with_items: "length xs = pv_len path \<Longrightarrow> pv_items (with_items xs path) = xs"
  by (simp add: pv_items_def with_items_def)

lemmas demo_defs = stretch_demo_def demo_si_def PlanItem_new_def DurS_new_def PlanItem_GetDur_def trafT_def
  is_key_def has_flag_def place0_def

lemma between_02: "(0 < i \<and> i < 2) = (i = (1::nat))" "(0 \<le> i \<and> i < 2) = (i = 0 \<or> i = (1::nat))"
  by auto

lemma stretch_demo_ok: "seg_ok 0 2 (stretch_demo 50)"
  by (auto simp: seg_ok_def seg_static_def seg_cons_def seg_dur_def seg_time_def between_02 less_2_cases_iff demo_defs)

lemma nine_kept: "dmulc 9 d_1_1 = 9"
proof -
  have "round53 22292818155483957 \<le> 20276 * 2 ^ 40" by (rule round53_le) simp_all
  moreover have "9 * 2 ^ 51 \<le> round53 22292818155483957" by (rule round53_ge) simp_all
  ultimately have "round53 22292818155483957 div 2 ^ 51 = 9" by (intro div_nat_eqI) simp_all
  then show ?thesis by (simp add: dmulc_def dmul_trunc_def d_1_1_def)
qed

lemma stretch_demo_stuck: "stretch_one 0 2 demo_si (stretch_demo 9) = Some (Inr (stretch_demo 9, True))"
  by (simp add: stretch_one_def GetEarliestDept_def GetLatestArv_def demo_defs numeral_2_eq_2 Let_def nine_kept)

lemma stretch_demo_feasible: "feasible (take 2 (stretch_demo 50)) (\<lambda>_. 0) (\<lambda>i. if i = 0 then 0 else 50)"
proof -
  have "length (take 2 (stretch_demo 50)) = 2" by (simp add: demo_defs)
  then show ?thesis by (simp add: feasible_def All_less_Suc numeral_2_eq_2 demo_defs)
qed

section \<open>Properties\<close>



text \<open>\<open>CalIdel\<close> is the total idle time of an itinerary whose legs all fit, and -1 when some item
  is left too late to reach the next one in time.\<close>

lemma CalIdel_gaps:
  "CalIdel path = (if legs_fit (pv_items path)
     then \<Sum>i < length (pv_items path) - 1. pl_arriveTime (pv_items path ! Suc i) - pl_departTime (pv_items path ! i)
            - leg (pv_items path ! i) (pv_items path ! Suc i)
     else -1)"
  by (simp add: CalIdel_def idel_loop_eq)

text \<open>C20: Stretching a consistent segment whose visits last at least ten seconds ends, without an
  error: with enough turns it returns 0, only times have changed, no visit has become shorter,
  and the segment is still consistent, with every visit between its compressed and its extended
  duration; nothing outside the segment has changed.\<close>

theorem TimeStretch_terminates:
  assumes "seg_ok a b xs" "\<forall>i. a < i \<and> i < b \<longrightarrow> 10 \<le> PlanItem_GetDur (xs ! i)"
    and "\<forall>i. a < i \<and> i < b \<longrightarrow> has_flag (lp_t (pl_place (xs ! i))) level_flags \<longrightarrow> lp_isVar (pl_place (xs ! i))"
    and "\<And>xs l. mset (levelSort xs l) = mset l" "\<And>xs l. mset (rateSort xs l) = mset l"
  shows "\<exists>N ys. (\<forall>n \<ge> N. TimeStretch n levelSort rateSort (int a) (int b) xs = Some (0, ys)) \<and>
    seg_ok a b ys \<and> retimed xs ys \<and> (\<forall>i < length xs. PlanItem_GetDur (xs ! i) \<le> PlanItem_GetDur (ys ! i)) \<and> framed a b xs ys"
  using TimeStretch_terminates_lemma [OF assms] unfolding longer_def .

theorem TimeStretch_terminates_witness:
  "\<exists>N ys. (\<forall>n \<ge> N. TimeStretch n (\<lambda>_ l. l) (\<lambda>_ l. rev l) 0 2 (stretch_demo 50) = Some (0, ys)) \<and>
    50 \<le> PlanItem_GetDur (ys ! 1)"
proof -
  have "\<forall>i. 0 < i \<and> i < 2 \<longrightarrow> 10 \<le> PlanItem_GetDur (stretch_demo 50 ! i)"
    by (simp add: between_02 demo_defs)
  moreover have "\<forall>i. 0 < i \<and> i < 2 \<longrightarrow> has_flag (lp_t (pl_place (stretch_demo 50 ! i))) level_flags \<longrightarrow>
      lp_isVar (pl_place (stretch_demo 50 ! i))"
    by (simp add: between_02 demo_defs)
  ultimately obtain N ys where N: "\<forall>n \<ge> N. TimeStretch n (\<lambda>_ l. l) (\<lambda>_ l. rev l) (int 0) (int 2) (stretch_demo 50) = Some (0, ys)"
    "\<forall>i < length (stretch_demo 50). PlanItem_GetDur (stretch_demo 50 ! i) \<le> PlanItem_GetDur (ys ! i)"
    using TimeStretch_terminates [OF stretch_demo_ok, of "\<lambda>_ l. l" "\<lambda>_ l. rev l"] by auto
  have "1 < length (stretch_demo 50)" "PlanItem_GetDur (stretch_demo 50 ! 1) = 50" by (simp_all add: demo_defs)
  then show ?thesis using N by (metis int_ops(1) int_ops(3) of_nat_numeral)
qed

text \<open>C39: Below ten seconds a tenth more is rounded away: a turn on a visit of 9 seconds that may grow
  to 100 gives back the same times and queues the visit again, so the loop never returns.\<close>

theorem TimeStretch_hangs:
  "stretch_one 0 2 demo_si (stretch_demo 9) = Some (Inr (stretch_demo 9, True)) \<and>
    TimeStretch fuel (\<lambda>_ l. l) (\<lambda>_ l. l) 0 2 (stretch_demo 9) = None"
proof -
  have "stretch_items (stretch_demo 9) [nat 0 + 1..<2] = Some [demo_si]"
    by (simp add: demo_defs numeral_2_eq_2)
  moreover have "length (stretch_demo 9) = 3" "level_ok (stretch_demo 9) demo_si"
    by (simp_all add: demo_defs level_ok_def)
  ultimately show ?thesis
    using stretch_loop_stuck [OF stretch_demo_stuck, of "\<lambda>_ l. l"] stretch_demo_stuck
    by (simp add: TimeStretch_def Let_def)
qed

end
