(* ===== verification/TrafRoute.thy ===== *)
theory TrafRoute
  imports PathStretch
begin

text \<open>
  Turning an order of places into a timed itinerary (Route/base/TrafRoute.cpp).

  \<^item> \<open>m_lastItem\<close> points at a slot of the path: it is that slot's index. The appends of this class are
    the only writes to the path while it runs, and growing the path moves slot pointers, not items.
  \<^item> \<open>None\<close> stands for undefined behaviour: a null key node, durations or item is dereferenced, or a
    date makes \<open>compareDayStr\<close> undefined. The return value 1 of the code is the value 1.
  \<^item> Logging is left out, so is \<open>m_dbgDump\<close>.
  \<^item> The loop over the key nodes carries fuel; \<open>DoRoute\<close> gives it one turn more than there are key
    nodes, and every turn that does not leave the loop moves to the next key node.
  \<^item> \<open>CheckRoute\<close>, \<open>CompleteOrderList\<close> and \<open>AddBlockPoi\<close> are declared but not defined in the source.

  The property: an itinerary that \<open>DoRoute\<close> reports as routed holds every key node and every
  variable place of the order, in order; each leg's traffic is the one the traffic tables give;
  every place is reached after the trip from the item before, inside one of its opening windows,
  for its compressed duration; and the key node after a place is reached in time.
\<close>

record trafroute =
  tf_placeNum :: int
  tf_keyNum :: int
  tf_placeIdx :: int
  tf_keyIdx :: int
  tf_lastItem :: "nat option"

definition TrafRoute_new :: trafroute where
  "TrafRoute_new = \<lparr>tf_placeNum = 0, tf_keyNum = 0, tf_placeIdx = 0, tf_keyIdx = 0, tf_lastItem = None\<rparr>"

text \<open>The first opening window that admits the node, with its arrival and departure.\<close>

fun open_scan ::
  "u32 \<Rightarrow> int \<Rightarrow> int \<Rightarrow> int \<Rightarrow> durS \<Rightarrow> openclose option list \<Rightarrow> (int \<times> int \<times> openclose) option" where
  "open_scan nodeType latestDept lastDept trafTime d [] = None"
| "open_scan nodeType latestDept lastDept trafTime d (None # ocs) =
     open_scan nodeType latestDept lastDept trafTime d ocs"
| "open_scan nodeType latestDept lastDept trafTime d (Some oc # ocs) =
     (let newLatestDept = min latestDept (oc_close oc);
          arv0 = lastDept + trafTime;
          arv1 = (if arv0 < oc_open oc then oc_open oc else arv0)
      in if arv1 > oc_latestArv oc \<and> \<not> has_flag nodeType NODE_FUNC_KEY
         then open_scan nodeType latestDept lastDept trafTime d ocs
         else
           (let newArv = (if arv1 > oc_latestArv oc then oc_latestArv oc else arv1);
                dept0 = newArv + ds_zip d
            in if dept0 > newLatestDept \<and> \<not> has_flag nodeType NODE_FUNC_KEY
               then open_scan nodeType latestDept lastDept trafTime d ocs
               else
                 (let dept1 = (if dept0 > newLatestDept then newLatestDept else dept0);
                      newDept = (if \<not> has_flag nodeType NODE_FUNC_PLACE
                                 then (if newArv + ds_rcmd d > newLatestDept then newLatestDept
                                       else newArv + ds_rcmd d)
                                 else dept1)
                  in Some (newArv, newDept, oc))))"

definition last_slot :: "pathview \<Rightarrow> nat option" where
  "last_slot pv = (if pv_len pv \<le> 0 then None else Some (pv_len pv - 1))"

definition latest_dept :: "baseplan \<Rightarrow> u32 \<Rightarrow> string \<Rightarrow> keynode \<Rightarrow> keynode \<Rightarrow> int option" where
  "latest_dept bp nodeType deptID fromKey toKey =
     (if has_flag nodeType NODE_FUNC_PLACE
      then map_option (\<lambda>deptTraf. kn_close toKey - ds_zip (kn_durS toKey) - tr_time deptTraf)
             (GetTraffic bp deptID (lp_ID (kn_place toKey)) (kn_trafDate fromKey))
      else Some (kn_close toKey))"

definition ExpandNode ::
  "baseplan \<Rightarrow> lyplace \<Rightarrow> durS option \<Rightarrow> u32 \<Rightarrow> string \<Rightarrow> string \<Rightarrow> openclose option list
     \<Rightarrow> trafroute \<times> pathview \<Rightarrow> (int \<times> trafroute \<times> pathview) option" where
  "ExpandNode bp place durS nodeType arvID deptID openCloseList = (\<lambda>(st, path).
     if openCloseList = [] then Some (1, st, path)
     else case durS of None \<Rightarrow> Some (1, st, path) | Some d \<Rightarrow>
       if tf_keyIdx st = 0 then do {
         keynode \<leftarrow> GetKey bp (tf_keyIdx st);
         let path1 = snd (PathView_Append
               \<lparr>ia_place = kn_place keynode, ia_arvID = lp_ID (kn_place keynode),
                ia_deptID = lp_ID (kn_place keynode), ia_arriveTraffic = None, ia_departTraffic = None,
                ia_arriveTime = kn_open keynode, ia_departTime = kn_close keynode,
                ia_durS = Some (kn_durS keynode), ia_trafDate = kn_trafDate keynode,
                ia_openTime = kn_open keynode, ia_closeTime = kn_close keynode,
                ia_cost = kn_cost keynode, ia_type = nodeType, ia_timeZone = bp_TimeZone bp\<rparr> path);
         Some (0, st\<lparr>tf_lastItem := last_slot path1\<rparr>, path1)
       }
       else do {
         fromKey \<leftarrow> GetKey bp (tf_keyIdx st - 1);
         toKey \<leftarrow> GetKey bp (tf_keyIdx st);
         case latest_dept bp nodeType deptID fromKey toKey of
           None \<Rightarrow> Some (1, st, path)
         | Some latestDept \<Rightarrow> do {
             l \<leftarrow> tf_lastItem st;
             let lastItem = pv_item_list path ! l;
             case GetTraffic bp (pl_deptID lastItem) arvID (kn_trafDate fromKey) of
               None \<Rightarrow> Some (1, st, path)
             | Some arvTraf \<Rightarrow>
                (case open_scan nodeType latestDept (pl_departTime lastItem) (tr_time arvTraf) d openCloseList of
                   None \<Rightarrow> Some (1, st, path)
                 | Some (newArv, newDept, oc) \<Rightarrow>
                    (let path1 = pv_upd (int l) (\<lambda>it. it\<lparr>pl_departTime := pl_departTime lastItem,
                                   pl_departTraffic := Some arvTraf\<rparr>) path;
                         path2 = snd (PathView_Append
                           \<lparr>ia_place = place, ia_arvID = arvID, ia_deptID = deptID,
                            ia_arriveTraffic = Some arvTraf, ia_departTraffic = None,
                            ia_arriveTime = newArv, ia_departTime = newDept, ia_durS = Some d,
                            ia_trafDate = kn_trafDate fromKey, ia_openTime = oc_open oc,
                            ia_closeTime = oc_close oc, ia_cost = 0, ia_type = nodeType,
                            ia_timeZone = bp_TimeZone bp\<rparr> path1)
                     in Some (0, st\<lparr>tf_lastItem := last_slot path2\<rparr>, path2)))
           }
       })"

text \<open>The loop over the orders of the day; \<open>k\<close> is the number of orders left.\<close>

fun block_loop ::
  "baseplan \<Rightarrow> placeorder list \<Rightarrow> keynode \<Rightarrow> timeblock \<Rightarrow> nat
     \<Rightarrow> trafroute \<times> pathview \<Rightarrow> (int \<times> trafroute \<times> pathview) option" where
  "block_loop bp orderList lastKey block 0 (st, path) = Some (0, st, path)"
| "block_loop bp orderList lastKey block (Suc k) (st, path) =
     (let order = orderList ! nat (tf_placeIdx st); vPlace = po_place order in
      if po_date order \<noteq> kn_trafDate lastKey then Some (0, st, path)
      else if \<not> lp_isVar vPlace
      then block_loop bp orderList lastKey block k (st\<lparr>tf_placeIdx := tf_placeIdx st + 1\<rparr>, path)
      else case TimeBlock_GetPlaceInfo (lp_ID vPlace) block of
        None \<Rightarrow> Some (1, st, path)
      | Some pInfo \<Rightarrow>
         (case GetDurSP bp vPlace of
            None \<Rightarrow> Some (1, st, path)
          | Some durSP \<Rightarrow> do {
              (ret, st1, path1) \<leftarrow> ExpandNode bp vPlace (Some durSP) NODE_FUNC_PLACE (pin_arvID pInfo)
                 (pin_deptID pInfo) (pin_availOpenCloseList pInfo) (st, path);
              if ret \<noteq> 0 then Some (ret, st1, path1)
              else block_loop bp orderList lastKey block k (st1\<lparr>tf_placeIdx := tf_placeIdx st1 + 1\<rparr>, path1)
            }))"

definition ExpandBlock ::
  "baseplan \<Rightarrow> placeorder list \<Rightarrow> trafroute \<times> pathview \<Rightarrow> (int \<times> trafroute \<times> pathview) option" where
  "ExpandBlock bp orderList = (\<lambda>(st, path).
     case GetKey bp (tf_keyIdx st - 1) of None \<Rightarrow> Some (1, st, path)
     | Some lastKey \<Rightarrow>
        (case GetBlock bp (tf_keyIdx st - 1) of None \<Rightarrow> Some (1, st, path)
         | Some block \<Rightarrow>
            if tb_pInfoList block = [] then Some (0, st, path)
            else block_loop bp orderList lastKey block (nat (tf_placeNum st - tf_placeIdx st)) (st, path)))"

definition ExpandKeynode ::
  "baseplan \<Rightarrow> placeorder list \<Rightarrow> trafroute \<times> pathview \<Rightarrow> (int \<times> trafroute \<times> pathview) option" where
  "ExpandKeynode bp orderList = (\<lambda>(st, path). do {
     keyNode \<leftarrow> GetKey bp (tf_keyIdx st);
     miss \<leftarrow> (if tf_placeIdx st < tf_placeNum st
             then map_option (\<lambda>c. c > 0)
                    (compareDayStr (po_date (orderList ! nat (tf_placeIdx st))) (kn_trafDate keyNode))
             else Some False);
     if miss then Some (1, st, path)
     else do {
       (ret, st1, path1) \<leftarrow> ExpandNode bp (kn_place keyNode) (Some (kn_durS keyNode)) (kn_type keyNode)
          (lp_ID (kn_place keyNode)) (lp_ID (kn_place keyNode)) (KeyNode_openCloseList keyNode) (st, path);
       if ret \<noteq> 0 then Some (ret, st1, path1)
       else Some (0, st1\<lparr>tf_keyIdx := tf_keyIdx st1 + 1\<rparr>, path1)
     }
   })"

fun route_loop ::
  "nat \<Rightarrow> baseplan \<Rightarrow> placeorder list \<Rightarrow> trafroute \<times> pathview \<Rightarrow> (int \<times> trafroute \<times> pathview) option" where
  "route_loop 0 bp orderList (st, path) = None"
| "route_loop (Suc fuel) bp orderList (st, path) =
     (if tf_keyIdx st < tf_keyNum st then do {
        (ret, st1, path1) \<leftarrow> ExpandKeynode bp orderList (st, path);
        if ret \<noteq> 0 then Some (ret, st1, path1)
        else if tf_keyIdx st1 < tf_keyNum st1 then do {
          (ret2, st2, path2) \<leftarrow> ExpandBlock bp orderList (st1, path1);
          if ret2 \<noteq> 0 then Some (ret2, st2, path2)
          else route_loop fuel bp orderList (st2, path2) }
        else Some (0, st1, path1) }
      else Some (0, st, path))"

definition DoRoute :: "baseplan \<Rightarrow> placeorder list \<Rightarrow> trafroute \<times> pathview \<Rightarrow> (int \<times> trafroute \<times> pathview) option" where
  "DoRoute bp orderList = (\<lambda>(st0, path0).
     let st = st0\<lparr>tf_keyNum := GetKeyNum bp, tf_placeNum := int (length orderList), tf_placeIdx := 0, tf_keyIdx := 0\<rparr>;
         path = snd (PathView_Init (int (length orderList) + GetKeyNum bp) path0)
     in do {
       (ret, st1, path1) \<leftarrow> route_loop (nat (GetKeyNum bp) + 1) bp orderList (st, path);
       if ret \<noteq> 0 \<or> tf_placeIdx st1 < tf_placeNum st1 \<or> tf_keyIdx st1 < tf_keyNum st1
       then Some (1, st1, path1)
       else do { path2 \<leftarrow> PathView_Dump bp (path1\<lparr>pv_isValid := True\<rparr>); Some (0, st1, path2) }
     })"

text \<open>Specification of a routed itinerary.\<close>

definition step_ok :: "baseplan \<Rightarrow> planitem \<Rightarrow> planitem \<Rightarrow> bool" where
  "step_ok bp x y \<longleftrightarrow>
     (\<exists>date tr. GetTraffic bp (pl_deptID x) (pl_arvID y) date = Some tr \<and>
        pl_departTraffic x = Some tr \<and> pl_arriveTraffic y = Some tr \<and>
        (is_place y \<longrightarrow>
           pl_departTime x + tr_time tr \<le> pl_arriveTime y \<and> pl_openTime y \<le> pl_arriveTime y \<and>
           pl_departTime y \<le> pl_closeTime y \<and>
           (\<exists>d. GetDurSP bp (pl_place y) = Some d \<and> pl_durS y = Some d \<and>
              pl_departTime y = pl_arriveTime y + ds_zip d)) \<and>
        (is_key y \<and> is_place x \<longrightarrow> pl_departTime x + tr_time tr \<le> pl_arriveTime y))"

definition last_ok :: "baseplan \<Rightarrow> int \<Rightarrow> planitem list \<Rightarrow> bool" where
  "last_ok bp keyIdx xs \<longleftrightarrow> (xs \<noteq> [] \<and> is_place (last xs) \<longrightarrow>
     (\<exists>fromKey toKey tr. GetKey bp (keyIdx - 1) = Some fromKey \<and> GetKey bp keyIdx = Some toKey \<and>
        GetTraffic bp (pl_deptID (last xs)) (lp_ID (kn_place toKey)) (kn_trafDate fromKey) = Some tr \<and>
        pl_departTime (last xs) + tr_time tr \<le> kn_close toKey - ds_zip (kn_durS toKey)))"

text \<open>Key nodes as the constructor and the setters leave them, with key types.\<close>

definition keys_ok :: "baseplan \<Rightarrow> bool" where
  "keys_ok bp \<longleftrightarrow> (\<forall>kn \<in> set (bp_KeyNode bp). keynode_ok kn \<and> ds_min (kn_durS kn) \<le> ds_zip (kn_durS kn) \<and>
     has_flag (kn_type kn) NODE_FUNC_KEY \<and> \<not> has_flag (kn_type kn) NODE_FUNC_PLACE)"

text \<open>The item of a key node: not entered before the node opens, unless its latest arrival is earlier still, and left
  after the recommended duration, but not after the node closes.\<close>

definition key_arrival :: "keynode \<Rightarrow> int" where
  "key_arrival kn = min (kn_open kn) (kn_close kn - ds_min (kn_durS kn))"

definition key_at :: "keynode \<Rightarrow> planitem \<Rightarrow> bool" where
  "key_at kn it \<longleftrightarrow> pl_place it = kn_place kn \<and> key_arrival kn \<le> pl_arriveTime it \<and>
     min (key_arrival kn + ds_rcmd (kn_durS kn)) (kn_close kn) \<le> pl_departTime it \<and> pl_departTime it \<le> kn_close kn \<and>
     pl_durS it = Some (kn_durS kn)"

text \<open>The date of an item is that of its departure, and a place is left early enough to reach some key node.\<close>

definition in_day :: "baseplan \<Rightarrow> planitem \<Rightarrow> bool" where
  "in_day bp it \<longleftrightarrow> pl_departDate it = date8 (pl_departTime it) (bp_TimeZone bp) \<and>
     (is_place it \<longrightarrow> (\<exists>a b date tr kn. GetTraffic bp a b date = Some tr \<and> kn \<in> set (bp_KeyNode bp) \<and>
        pl_departTime it + tr_time tr \<le> kn_close kn - ds_zip (kn_durS kn)))"

definition route_inv :: "baseplan \<Rightarrow> placeorder list \<Rightarrow> trafroute \<Rightarrow> pathview \<Rightarrow> bool" where
  "route_inv bp orders st path \<longleftrightarrow> pv_ok path \<and>
     0 \<le> tf_keyIdx st \<and> tf_keyIdx st \<le> tf_keyNum st \<and> tf_keyNum st = int (length (bp_KeyNode bp)) \<and>
     0 \<le> tf_placeIdx st \<and> tf_placeIdx st \<le> tf_placeNum st \<and> tf_placeNum st = int (length orders) \<and>
     (tf_keyIdx st = 0 \<longrightarrow> pv_len path = 0 \<and> tf_placeIdx st = 0) \<and>
     (0 < tf_keyIdx st \<longrightarrow> 0 < pv_len path \<and> tf_lastItem st = Some (pv_len path - 1)) \<and>
     (pv_items path \<noteq> [] \<longrightarrow> is_key (hd (pv_items path))) \<and>
     successively (step_ok bp) (pv_items path) \<and> last_ok bp (tf_keyIdx st) (pv_items path) \<and>
     (\<forall>it \<in> set (pv_items path). is_place it \<noteq> is_key it) \<and> (\<forall>it \<in> set (pv_items path). in_day bp it) \<and>
     list_all2 key_at (take (nat (tf_keyIdx st)) (bp_KeyNode bp)) (filter is_key (pv_items path)) \<and>
     map pl_place (filter (Not \<circ> is_key) (pv_items path)) =
       filter lp_isVar (map po_place (take (nat (tf_placeIdx st)) orders))"

text \<open>An itinerary for an order of places: it starts at a key node, its legs fit (\<open>step_ok\<close>), its key nodes are those of the
  request and its other items the variable places of the order.\<close>

definition routed :: "baseplan \<Rightarrow> placeorder list \<Rightarrow> planitem list \<Rightarrow> bool" where
  "routed bp orders xs \<longleftrightarrow> (xs \<noteq> [] \<longrightarrow> is_key (hd xs)) \<and> successively (step_ok bp) xs \<and>
     (\<forall>it \<in> set xs. is_place it \<noteq> is_key it) \<and> (\<forall>it \<in> set xs. in_day bp it) \<and>
     list_all2 key_at (bp_KeyNode bp) (filter is_key xs) \<and>
     map pl_place (filter (Not \<circ> is_key) xs) = filter lp_isVar (map po_place orders)"

text \<open>Dates that can be compared; and a key node for examples.\<close>

definition dates_ok :: "baseplan \<Rightarrow> placeorder list \<Rightarrow> bool" where
  "dates_ok bp orders \<longleftrightarrow>
     (\<forall>ord \<in> set orders. \<forall>kn \<in> set (bp_KeyNode bp). compareDayStr (po_date ord) (kn_trafDate kn) \<noteq> None)"

definition demo_key :: keynode where
  "demo_key = KeyNode_new 0 place0 0 100 ''20160711'' 0 0 0 0 0 0 0 NODE_FUNC_KEY_HOTEL_SLEEP 0 False 8"

section \<open>Lemmas\<close>

lemma open_scan_place:
  assumes "open_scan nodeType latestDept lastDept t d ocs = Some (arv, dept, oc)"
    and "has_flag nodeType NODE_FUNC_PLACE" "\<not> has_flag nodeType NODE_FUNC_KEY"
  shows "Some oc \<in> set ocs \<and> lastDept + t \<le> arv \<and> oc_open oc \<le> arv \<and> arv \<le> oc_latestArv oc \<and>
    dept = arv + ds_zip d \<and> dept \<le> oc_close oc \<and> dept \<le> latestDept"
  using assms(1)
proof (induction ocs)
  case (Cons w ocs)
  then show ?case using assms(2,3) by (cases w) (auto simp: Let_def split: if_splits)
qed simp

lemma open_scan_key:
  assumes "open_scan nodeType latestDept lastDept t d [Some oc0] = Some (arv, dept, oc)"
    and "lastDept + t \<le> oc_latestArv oc0"
  shows "oc = oc0 \<and> lastDept + t \<le> arv"
  using assms by (auto simp: Let_def split: if_splits)

lemma open_scan_times:
  assumes "open_scan nodeType latestDept lastDept t d [Some oc0] = Some (arv, dept, oc)" "\<not> has_flag nodeType NODE_FUNC_PLACE"
  shows "min (oc_open oc0) (oc_latestArv oc0) \<le> arv \<and> min (arv + ds_rcmd d) (min latestDept (oc_close oc0)) \<le> dept \<and>
    dept \<le> min latestDept (oc_close oc0)"
  using assms by (auto simp: Let_def split: if_splits)

lemma place_not_key: "\<not> has_flag NODE_FUNC_PLACE NODE_FUNC_KEY" "has_flag NODE_FUNC_PLACE NODE_FUNC_PLACE"
  by (simp_all add: has_flag_def flag_simps)

lemma ExpandNode_first:
  assumes "ExpandNode bp place durS nodeType a dp ocs (st, path) = Some (0, st1, path1)"
    and "tf_keyIdx st = 0" "pv_ok path" "pv_len path = 0"
  obtains kn slot where "GetKey bp 0 = Some kn" "st1 = st\<lparr>tf_lastItem := Some 0\<rparr>" "pv_ok path1" "pv_len path1 = 1"
    "pv_items path1 = [slot]" "pl_place slot = kn_place kn" "pl_type slot = nodeType"
    "pl_arriveTime slot = kn_open kn" "pl_departTime slot = kn_close kn" "pl_durS slot = Some (kn_durS kn)"
    "pl_departDate slot = date8 (kn_close kn) (bp_TimeZone bp)"
proof -
  obtain kn where kn: "GetKey bp 0 = Some kn" and d: "ocs \<noteq> []" "durS \<noteq> None"
    using assms(1,2) by (auto simp: ExpandNode_def split: if_splits option.splits bind_splits)
  define arg where "arg = \<lparr>ia_place = kn_place kn, ia_arvID = lp_ID (kn_place kn),
                ia_deptID = lp_ID (kn_place kn), ia_arriveTraffic = None, ia_departTraffic = None,
                ia_arriveTime = kn_open kn, ia_departTime = kn_close kn,
                ia_durS = Some (kn_durS kn), ia_trafDate = kn_trafDate kn,
                ia_openTime = kn_open kn, ia_closeTime = kn_close kn,
                ia_cost = kn_cost kn, ia_type = nodeType, ia_timeZone = bp_TimeZone bp\<rparr>"
  obtain p slot where p: "PathView_AppendWith (PlanItem_CopyArgs arg) path = (0, p)" "pv_ok p"
    "pv_items p = pv_items path @ [PlanItem_CopyArgs arg slot]" "pv_len p = pv_len path + 1"
    by (rule PathView_AppendWith_spec [OF assms(3)])
  have e: "st1 = st\<lparr>tf_lastItem := last_slot p\<rparr>" "path1 = p"
    using assms(1,2) kn d p(1)
    by (auto simp: ExpandNode_def Let_def PathView_Append_def arg_def)
  show thesis
    by (rule that [OF kn, of "PlanItem_CopyArgs arg slot"])
      (use p e assms(4) in \<open>auto simp: last_slot_def pv_items_def PlanItem_CopyArgs_def arg_def\<close>)
qed

lemma ExpandNode_next:
  assumes "ExpandNode bp place durS nodeType a dp ocs (st, path) = Some (0, st1, path1)"
    and "tf_keyIdx st \<noteq> 0" "pv_ok path" "0 < pv_len path" "tf_lastItem st = Some (pv_len path - 1)"
  obtains fromKey toKey latest d tr arv dept oc y where "GetKey bp (tf_keyIdx st - 1) = Some fromKey"
    "GetKey bp (tf_keyIdx st) = Some toKey" "latest_dept bp nodeType dp fromKey toKey = Some latest"
    "durS = Some d" "GetTraffic bp (pl_deptID (last (pv_items path))) a (kn_trafDate fromKey) = Some tr"
    "open_scan nodeType latest (pl_departTime (last (pv_items path))) (tr_time tr) d ocs = Some (arv, dept, oc)"
    "st1 = st\<lparr>tf_lastItem := Some (pv_len path1 - 1)\<rparr>" "pv_ok path1" "0 < pv_len path1"
    "pv_items path1 = butlast (pv_items path) @ [(last (pv_items path))\<lparr>pl_departTraffic := Some tr\<rparr>, y]"
    "pl_place y = place" "pl_type y = nodeType" "pl_arvID y = a" "pl_deptID y = dp"
    "pl_arriveTraffic y = Some tr" "pl_arriveTime y = arv" "pl_departTime y = dept" "pl_durS y = Some d"
    "pl_openTime y = oc_open oc" "pl_closeTime y = oc_close oc" "pl_departDate y = date8 dept (bp_TimeZone bp)"
proof -
  have len: "length (pv_items path) = pv_len path" by (rule length_pv_items [OF assms(3)])
  then have "pv_items path \<noteq> []" using assms(4) by auto
  then have lst: "pv_item_list path ! (pv_len path - 1) = last (pv_items path)"
    using assms(4) len by (simp add: last_conv_nth) (simp add: pv_items_def)
  obtain d fromKey toKey latest tr arv dept oc where
    E: "ocs \<noteq> []" "durS = Some d" "GetKey bp (tf_keyIdx st - 1) = Some fromKey"
    "GetKey bp (tf_keyIdx st) = Some toKey" "latest_dept bp nodeType dp fromKey toKey = Some latest"
    "GetTraffic bp (pl_deptID (last (pv_items path))) a (kn_trafDate fromKey) = Some tr"
    "open_scan nodeType latest (pl_departTime (last (pv_items path))) (tr_time tr) d ocs = Some (arv, dept, oc)"
    using assms(1,2,5) lst
    by (auto simp: ExpandNode_def Let_def split: if_splits option.splits bind_splits)
  define p1 where "p1 = pv_upd (int (pv_len path - 1)) (\<lambda>it. it\<lparr>pl_departTime := pl_departTime (last (pv_items path)),
      pl_departTraffic := Some tr\<rparr>) path"
  define arg where "arg = \<lparr>ia_place = place, ia_arvID = a, ia_deptID = dp,
                            ia_arriveTraffic = Some tr, ia_departTraffic = None,
                            ia_arriveTime = arv, ia_departTime = dept, ia_durS = Some d,
                            ia_trafDate = kn_trafDate fromKey, ia_openTime = oc_open oc,
                            ia_closeTime = oc_close oc, ia_cost = 0, ia_type = nodeType,
                            ia_timeZone = bp_TimeZone bp\<rparr>"
  have items1: "pv_items p1 = (pv_items path)[pv_len path - 1 := (last (pv_items path))\<lparr>pl_departTraffic := Some tr\<rparr>]"
    using lst by (simp add: p1_def pv_upd_def pv_items_def take_update_swap)
  have "(pv_items path)[pv_len path - 1 := z] = butlast (pv_items path) @ [z]" for z
    using len assms(4) by (metis append_butlast_last_id length_butlast list.size(3) list_update_length nat_less_le)
  note items1 = items1 [unfolded this]
  have ok1: "pv_ok p1" "pv_len p1 = pv_len path" using assms(3) by (auto simp: p1_def pv_upd_def pv_ok_def)
  obtain p slot where p: "PathView_AppendWith (PlanItem_CopyArgs arg) p1 = (0, p)" "pv_ok p"
    "pv_items p = pv_items p1 @ [PlanItem_CopyArgs arg slot]" "pv_len p = pv_len p1 + 1"
    by (rule PathView_AppendWith_spec [OF ok1(1)])
  have e: "st1 = st\<lparr>tf_lastItem := last_slot p\<rparr>" "path1 = p"
    using assms(1,2,5) E p(1) lst
    by (auto simp: ExpandNode_def Let_def PathView_Append_def arg_def p1_def)
  show thesis
    by (rule that [OF E(3,4,5,2,6,7), of "PlanItem_CopyArgs arg slot"])
      (use p e items1 in \<open>auto simp: last_slot_def PlanItem_CopyArgs_def arg_def\<close>)
qed

lemma step_ok_departTraffic: "step_ok bp z (x\<lparr>pl_departTraffic := t\<rparr>) = step_ok bp z x"
  by (simp add: step_ok_def is_place_def is_key_def)

lemma successively_extend:
  assumes "successively (step_ok bp) xs" "xs \<noteq> []" "step_ok bp ((last xs)\<lparr>pl_departTraffic := t\<rparr>) y"
  shows "successively (step_ok bp) (butlast xs @ [(last xs)\<lparr>pl_departTraffic := t\<rparr>, y])"
proof -
  have "successively (step_ok bp) (butlast xs @ [last xs])" using assms(1,2) by simp
  then show ?thesis using assms(3) by (auto simp: successively_append_iff step_ok_departTraffic)
qed

lemma filter_extend:
  assumes "xs \<noteq> []" "\<And>z. P (z\<lparr>pl_departTraffic := t\<rparr>) = P z"
  shows "map pl_place (filter P (butlast xs @ [(last xs)\<lparr>pl_departTraffic := t\<rparr>, y]))
    = map pl_place (filter P xs) @ map pl_place (filter P [y])"
proof -
  have "filter P xs = filter P (butlast xs @ [last xs])" using assms(1) by simp
  then show ?thesis using assms(2) by simp
qed

lemma is_key_departTraffic:
  "is_key (z\<lparr>pl_departTraffic := t\<rparr>) = is_key z" "is_place (z\<lparr>pl_departTraffic := t\<rparr>) = is_place z"
  by (simp_all add: is_key_def is_place_def)

lemma keys_extend:
  assumes "list_all2 key_at ks (filter is_key xs)" "xs \<noteq> []" "list_all2 key_at ks' (filter is_key [y])"
  shows "list_all2 key_at (ks @ ks') (filter is_key (butlast xs @ [(last xs)\<lparr>pl_departTraffic := t\<rparr>, y]))"
proof -
  have "filter is_key xs = filter is_key (butlast xs) @ filter is_key [last xs]"
    using assms(2) by (metis append_butlast_last_id filter_append)
  then obtain us vs where u: "ks = us @ vs" "list_all2 key_at us (filter is_key (butlast xs))" "list_all2 key_at vs (filter is_key [last xs])"
    using assms(1) by (auto simp: list_all2_append2 simp del: filter.simps)
  have "list_all2 key_at vs (filter is_key [(last xs)\<lparr>pl_departTraffic := t\<rparr>])"
    using u(3) by (auto simp: is_key_departTraffic key_at_def list_all2_Cons2)
  from list_all2_appendI [OF list_all2_appendI [OF u(2) this] assms(3)] show ?thesis by (simp add: u(1) split: if_split_asm)
qed

lemma hd_extend:
  assumes "xs \<noteq> []" "is_key (hd xs)"
  shows "is_key (hd (butlast xs @ [(last xs)\<lparr>pl_departTraffic := t\<rparr>, y]))"
  using assms by (cases xs rule: rev_cases) (auto simp: is_key_departTraffic hd_append split: if_splits)

lemma items_extend:
  assumes "\<forall>it \<in> set xs. P it" "xs \<noteq> []" "P y" "\<And>it. P (it\<lparr>pl_departTraffic := t\<rparr>) = P it"
  shows "\<forall>it \<in> set (butlast xs @ [(last xs)\<lparr>pl_departTraffic := t\<rparr>, y]). P it"
  using assms by (auto dest: in_set_butlastD)

lemma in_day_departTraffic: "in_day bp (z\<lparr>pl_departTraffic := t\<rparr>) = in_day bp z"
  by (simp add: in_day_def is_key_departTraffic)

lemma GetKey_range: "GetKey bp i = Some kn \<Longrightarrow> 0 \<le> i \<and> i < int (length (bp_KeyNode bp)) \<and> kn = bp_KeyNode bp ! nat i"
  by (auto simp: GetKey_def arr_get_def split: if_splits)

lemma GetKey_mem: "GetKey bp i = Some kn \<Longrightarrow> kn \<in> set (bp_KeyNode bp)"
  using GetKey_range [of bp i kn] by auto

lemma take_nat_Suc: "0 \<le> i \<Longrightarrow> i < int (length xs) \<Longrightarrow> take (nat (i + 1)) xs = take (nat i) xs @ [xs ! nat i]"
  by (simp add: nat_add_distrib take_Suc_conv_app_nth)

lemma expand_place_inv:
  assumes inv: "route_inv bp orders st path" and "0 < tf_keyIdx st" "tf_placeIdx st < tf_placeNum st"
    and v: "vPlace = po_place (orders ! nat (tf_placeIdx st))" "lp_isVar vPlace" and du: "durS = GetDurSP bp vPlace"
    and E: "ExpandNode bp vPlace durS NODE_FUNC_PLACE a dp ocs (st, path) = Some (0, st1, path1)"
  shows "route_inv bp orders (st1\<lparr>tf_placeIdx := tf_placeIdx st1 + 1\<rparr>) path1 \<and> tf_keyIdx st1 = tf_keyIdx st
    \<and> tf_placeIdx st1 = tf_placeIdx st \<and> tf_placeNum st1 = tf_placeNum st \<and> tf_keyNum st1 = tf_keyNum st"
proof -
  note I = inv [unfolded route_inv_def]
  define xs where "xs = pv_items path"
  obtain fromKey toKey latest d tr arv dept oc y where N: "GetKey bp (tf_keyIdx st - 1) = Some fromKey"
    "GetKey bp (tf_keyIdx st) = Some toKey" "latest_dept bp NODE_FUNC_PLACE dp fromKey toKey = Some latest"
    "durS = Some d" "GetTraffic bp (pl_deptID (last xs)) a (kn_trafDate fromKey) = Some tr"
    "open_scan NODE_FUNC_PLACE latest (pl_departTime (last xs)) (tr_time tr) d ocs = Some (arv, dept, oc)"
    and S: "st1 = st\<lparr>tf_lastItem := Some (pv_len path1 - 1)\<rparr>" "pv_ok path1" "0 < pv_len path1"
    "pv_items path1 = butlast xs @ [(last xs)\<lparr>pl_departTraffic := Some tr\<rparr>, y]"
    and Y: "pl_place y = vPlace" "pl_type y = NODE_FUNC_PLACE" "pl_arvID y = a" "pl_deptID y = dp"
    "pl_arriveTraffic y = Some tr" "pl_arriveTime y = arv" "pl_departTime y = dept" "pl_durS y = Some d"
    "pl_openTime y = oc_open oc" "pl_closeTime y = oc_close oc" "pl_departDate y = date8 dept (bp_TimeZone bp)"
    unfolding xs_def by (rule ExpandNode_next [OF E]) (use I assms(2) in auto)
  have ne: "xs \<noteq> []" using I assms(2) length_pv_items [of path] by (auto simp: xs_def)
  note O = open_scan_place [OF N(6) place_not_key(2,1)]
  have key: "\<not> is_key y" using Y place_not_key by (simp add: is_key_def)
  have "step_ok bp ((last xs)\<lparr>pl_departTraffic := Some tr\<rparr>) y"
    unfolding step_ok_def using N(4,5) Y O key du by auto
  then have "successively (step_ok bp) (pv_items path1)"
    unfolding S(4) using I ne by (intro successively_extend) (auto simp: xs_def)
  moreover have "\<forall>it \<in> set (pv_items path1). is_place it \<noteq> is_key it"
    unfolding S(4) using I ne key Y place_not_key by (intro items_extend) (auto simp: xs_def is_place_def is_key_def)
  moreover have "in_day bp y"
    using N(3) O Y place_not_key GetKey_mem [OF N(2)] unfolding in_day_def latest_dept_def by fastforce
  then have "\<forall>it \<in> set (pv_items path1). in_day bp it"
    unfolding S(4) using I ne by (intro items_extend) (auto simp: xs_def in_day_departTraffic)
  moreover have "last_ok bp (tf_keyIdx st) (pv_items path1)"
    using N(1-3) O Y by (auto simp: last_ok_def S(4) latest_dept_def place_not_key)
  moreover have "map pl_place (filter (Not \<circ> is_key) (pv_items path1)) = map pl_place (filter (Not \<circ> is_key) xs) @ [vPlace]"
    unfolding S(4) using key Y(1) by (subst filter_extend [OF ne]; simp add: is_key_departTraffic)
  moreover have "list_all2 key_at (take (nat (tf_keyIdx st)) (bp_KeyNode bp)) (filter is_key (pv_items path1))"
    unfolding S(4) using I ne key keys_extend [of _ xs "[]"] by (simp add: xs_def)
  moreover have "is_key (hd (pv_items path1))" unfolding S(4) using I ne by (intro hd_extend) (auto simp: xs_def)
  moreover have "filter lp_isVar (map po_place (take (nat (tf_placeIdx st + 1)) orders)) =
      filter lp_isVar (map po_place (take (nat (tf_placeIdx st)) orders)) @ [vPlace]"
    using take_nat_Suc [of "tf_placeIdx st" orders] I assms(3) v by simp
  ultimately show ?thesis using I S assms(2,3) by (simp add: route_inv_def xs_def)
qed

lemma skip_place_inv:
  assumes "route_inv bp orders st path" "0 < tf_keyIdx st" "tf_placeIdx st < tf_placeNum st"
    and "\<not> lp_isVar (po_place (orders ! nat (tf_placeIdx st)))"
  shows "route_inv bp orders (st\<lparr>tf_placeIdx := tf_placeIdx st + 1\<rparr>) path"
  using assms take_nat_Suc [of "tf_placeIdx st" orders] by (auto simp: route_inv_def)

lemma block_loop_inv:
  "block_loop bp orders lastKey block k (st, path) = Some (0, st1, path1) \<Longrightarrow> route_inv bp orders st path \<Longrightarrow>
    0 < tf_keyIdx st \<Longrightarrow> k \<le> nat (tf_placeNum st - tf_placeIdx st) \<Longrightarrow>
    route_inv bp orders st1 path1 \<and> tf_keyIdx st1 = tf_keyIdx st"
proof (induction k arbitrary: st path)
  case (Suc k)
  have pl: "tf_placeIdx st < tf_placeNum st" "k \<le> nat (tf_placeNum st - (tf_placeIdx st + 1))" using Suc.prems(4) by auto
  define v where "v = po_place (orders ! nat (tf_placeIdx st))"
  consider "st1 = st" "path1 = path"
    | "\<not> lp_isVar v" "block_loop bp orders lastKey block k (st\<lparr>tf_placeIdx := tf_placeIdx st + 1\<rparr>, path) = Some (0, st1, path1)"
    | a dp ocs st2 path2 where "lp_isVar v" "ExpandNode bp v (GetDurSP bp v) NODE_FUNC_PLACE a dp ocs (st, path) = Some (0, st2, path2)"
      "block_loop bp orders lastKey block k (st2\<lparr>tf_placeIdx := tf_placeIdx st2 + 1\<rparr>, path2) = Some (0, st1, path1)"
    using Suc.prems(1) by (auto simp: Let_def v_def [symmetric] split: if_splits option.splits bind_splits)
  then show ?case
  proof cases
    case 2
    then show ?thesis
      using Suc.IH [OF 2(2)] skip_place_inv [OF Suc.prems(2,3) pl(1)] Suc.prems(3) pl by (simp add: v_def)
  next
    case 3
    note P = expand_place_inv [OF Suc.prems(2,3) pl(1) v_def 3(1) HOL.refl 3(2)]
    then show ?thesis using Suc.IH [OF 3(3) conjunct1 [OF P]] Suc.prems(3) pl by simp
  qed (use Suc.prems in simp)
qed simp


lemma last_ok_key: "\<not> is_place y \<Longrightarrow> last_ok bp k (xs @ [y])"
  by (simp add: last_ok_def)

lemma expand_key_inv:
  assumes inv: "route_inv bp orders st path" and keys: "keys_ok bp" and k: "tf_keyIdx st < tf_keyNum st"
    and E: "ExpandKeynode bp orders (st, path) = Some (0, st1, path1)"
  shows "route_inv bp orders st1 path1 \<and> tf_keyIdx st1 = tf_keyIdx st + 1"
proof -
  note I = inv [unfolded route_inv_def]
  obtain kn st2 where kn: "GetKey bp (tf_keyIdx st) = Some kn"
    and X: "ExpandNode bp (kn_place kn) (Some (kn_durS kn)) (kn_type kn) (lp_ID (kn_place kn)) (lp_ID (kn_place kn))
      (KeyNode_openCloseList kn) (st, path) = Some (0, st2, path1)"
    and st1: "st1 = st2\<lparr>tf_keyIdx := tf_keyIdx st2 + 1\<rparr>"
    using E by (auto simp: ExpandKeynode_def split: bind_splits if_splits)
  have kn': "kn \<in> set (bp_KeyNode bp)" "kn = bp_KeyNode bp ! nat (tf_keyIdx st)" using GetKey_range [OF kn] by auto
  then have K: "keynode_ok kn" "ds_min (kn_durS kn) \<le> ds_zip (kn_durS kn)" "has_flag (kn_type kn) NODE_FUNC_KEY"
    "\<not> has_flag (kn_type kn) NODE_FUNC_PLACE" using keys by (auto simp: keys_ok_def)
  have ks: "take (nat (tf_keyIdx st + 1)) (bp_KeyNode bp) = take (nat (tf_keyIdx st)) (bp_KeyNode bp) @ [kn]"
    using take_nat_Suc [of "tf_keyIdx st" "bp_KeyNode bp"] I k kn' by simp
  show ?thesis
  proof (cases "tf_keyIdx st = 0")
    case True
    obtain kn0 slot where F: "GetKey bp 0 = Some kn0" "st2 = st\<lparr>tf_lastItem := Some 0\<rparr>" "pv_ok path1" "pv_len path1 = 1"
      "pv_items path1 = [slot]" "pl_place slot = kn_place kn0" "pl_type slot = kn_type kn"
      "pl_arriveTime slot = kn_open kn0" "pl_departTime slot = kn_close kn0" "pl_durS slot = Some (kn_durS kn0)"
      "pl_departDate slot = date8 (kn_close kn0) (bp_TimeZone bp)"
      by (rule ExpandNode_first [OF X]) (use I True in auto)
    have "is_key slot" "\<not> is_place slot" "kn0 = kn" using F kn K True by (auto simp: is_key_def is_place_def)
    moreover from this have "key_at kn slot" "in_day bp slot" using F by (simp_all add: key_at_def key_arrival_def in_day_def)
    ultimately show ?thesis using I F st1 ks True k by (simp add: route_inv_def last_ok_def pv_items_def Suc_le_eq)
  next
    case False
    define xs where "xs = pv_items path"
    obtain fromKey toKey latest d tr arv dept oc y where N: "GetKey bp (tf_keyIdx st - 1) = Some fromKey"
      "GetKey bp (tf_keyIdx st) = Some toKey" "latest_dept bp (kn_type kn) (lp_ID (kn_place kn)) fromKey toKey = Some latest"
      "Some (kn_durS kn) = Some d" "GetTraffic bp (pl_deptID (last xs)) (lp_ID (kn_place kn)) (kn_trafDate fromKey) = Some tr"
      "open_scan (kn_type kn) latest (pl_departTime (last xs)) (tr_time tr) d (KeyNode_openCloseList kn) = Some (arv, dept, oc)"
      and S: "st2 = st\<lparr>tf_lastItem := Some (pv_len path1 - 1)\<rparr>" "pv_ok path1" "0 < pv_len path1"
      "pv_items path1 = butlast xs @ [(last xs)\<lparr>pl_departTraffic := Some tr\<rparr>, y]"
      and Y: "pl_place y = kn_place kn" "pl_type y = kn_type kn" "pl_arvID y = lp_ID (kn_place kn)"
      "pl_deptID y = lp_ID (kn_place kn)"
      "pl_arriveTraffic y = Some tr" "pl_arriveTime y = arv" "pl_departTime y = dept" "pl_durS y = Some d"
      "pl_openTime y = oc_open oc" "pl_closeTime y = oc_close oc" "pl_departDate y = date8 dept (bp_TimeZone bp)"
      unfolding xs_def by (rule ExpandNode_next [OF X False]) (use I False in auto)
    have ne: "xs \<noteq> []" using I False length_pv_items [of path] by (auto simp: xs_def)
    have flags: "is_key y" "\<not> is_place y" using Y K by (simp_all add: is_key_def is_place_def)
    have reach: "pl_departTime (last xs) + tr_time tr \<le> arv" if "is_place (last xs)"
    proof -
      have "last_ok bp (tf_keyIdx st) xs" using I by (simp add: xs_def)
      then have "pl_departTime (last xs) + tr_time tr \<le> kn_close kn - ds_zip (kn_durS kn)"
        using that ne N kn by (auto simp: last_ok_def)
      then show ?thesis
        using open_scan_key [OF N(6) [unfolded KeyNode_openCloseList_def]] K by (simp add: keynode_ok_def)
    qed
    have "step_ok bp ((last xs)\<lparr>pl_departTraffic := Some tr\<rparr>) y"
      unfolding step_ok_def using N(5) Y flags reach by (auto simp: is_place_def)
    then have "successively (step_ok bp) (pv_items path1)"
      unfolding S(4) using I ne by (intro successively_extend) (auto simp: xs_def)
    moreover have "\<forall>it \<in> set (pv_items path1). is_place it \<noteq> is_key it"
      unfolding S(4) using I ne flags by (intro items_extend) (auto simp: xs_def is_place_def is_key_def)
    moreover have "in_day bp y" using Y flags by (simp add: in_day_def)
    then have "\<forall>it \<in> set (pv_items path1). in_day bp it"
      unfolding S(4) using I ne by (intro items_extend) (auto simp: xs_def in_day_departTraffic)
    moreover have "last_ok bp (tf_keyIdx st + 1) (pv_items path1)"
      using flags by (simp add: last_ok_def S(4))
    moreover have "map pl_place (filter (Not \<circ> is_key) (pv_items path1)) = map pl_place (filter (Not \<circ> is_key) xs)"
      unfolding S(4) using flags Y(1) by (subst filter_extend [OF ne]; simp add: is_key_departTraffic)
    moreover have "key_at kn y"
      using open_scan_times [OF N(6) [unfolded KeyNode_openCloseList_def] K(4)] Y K N(2,3,4) kn
      by (simp add: key_at_def key_arrival_def keynode_ok_def latest_dept_def) linarith
    then have "list_all2 key_at (take (nat (tf_keyIdx st)) (bp_KeyNode bp) @ [kn]) (filter is_key (pv_items path1))"
      unfolding S(4) using I ne flags by (intro keys_extend) (auto simp: xs_def)
    moreover have "is_key (hd (pv_items path1))" unfolding S(4) using I ne by (intro hd_extend) (auto simp: xs_def)
    ultimately show ?thesis using I S st1 ks k False by (simp add: route_inv_def xs_def)
  qed
qed

lemma expand_block_inv:
  assumes "route_inv bp orders st path" "0 < tf_keyIdx st" "ExpandBlock bp orders (st, path) = Some (0, st1, path1)"
  shows "route_inv bp orders st1 path1 \<and> tf_keyIdx st1 = tf_keyIdx st"
  using assms block_loop_inv [of bp orders] by (auto simp: ExpandBlock_def split: option.splits if_splits)

lemma route_inv_keyNum: "route_inv bp orders st path \<Longrightarrow> tf_keyNum st = int (length (bp_KeyNode bp)) \<and> 0 \<le> tf_keyIdx st"
  by (simp add: route_inv_def)

lemma route_loop_inv:
  "route_loop fuel bp orders (st, path) = Some (0, st1, path1) \<Longrightarrow> route_inv bp orders st path \<Longrightarrow> keys_ok bp \<Longrightarrow>
    route_inv bp orders st1 path1"
proof (induction fuel arbitrary: st path)
  case (Suc fuel)
  show ?case
  proof (cases "tf_keyIdx st < tf_keyNum st")
    case True
    then obtain st2 path2 where 2: "ExpandKeynode bp orders (st, path) = Some (0, st2, path2)"
      and "if tf_keyIdx st2 < tf_keyNum st2 then \<exists>st3 path3. ExpandBlock bp orders (st2, path2) = Some (0, st3, path3) \<and>
          route_loop fuel bp orders (st3, path3) = Some (0, st1, path1)
        else st1 = st2 \<and> path1 = path2"
      using Suc.prems(1) by (auto split: if_splits bind_splits)
    moreover have "route_inv bp orders st2 path2" "0 < tf_keyIdx st2"
      using expand_key_inv [OF Suc.prems(2,3) True 2] route_inv_keyNum [OF Suc.prems(2)] by auto
    ultimately show ?thesis
      using expand_block_inv Suc.IH Suc.prems(3) by (metis (no_types, lifting))
  qed (use Suc.prems in auto)
qed simp

section \<open>Totality\<close>

lemma GetKey_Some: "0 \<le> i \<Longrightarrow> i < int (length (bp_KeyNode bp)) \<Longrightarrow> GetKey bp i = Some (bp_KeyNode bp ! nat i)"
  by (simp add: GetKey_def arr_get_def)

lemma ExpandNode_total:
  assumes "route_inv bp orders st path" "tf_keyIdx st < tf_keyNum st"
  shows "\<exists>ret st1 path1. ExpandNode bp place durS nodeType a dp ocs (st, path) = Some (ret, st1, path1) \<and> ret \<in> {0, 1}"
proof -
  have R: "GetKey bp (tf_keyIdx st) = Some (bp_KeyNode bp ! nat (tf_keyIdx st))"
    "tf_keyIdx st \<noteq> 0 \<Longrightarrow> GetKey bp (tf_keyIdx st - 1) = Some (bp_KeyNode bp ! nat (tf_keyIdx st - 1))"
    "tf_keyIdx st \<noteq> 0 \<Longrightarrow> tf_lastItem st = Some (pv_len path - 1)"
    using assms by (auto simp: route_inv_def intro!: GetKey_Some)
  show ?thesis
  proof (cases "tf_keyIdx st = 0")
    case True
    then show ?thesis using R(1) by (auto simp: ExpandNode_def Let_def split: option.splits)
  next
    case False
    then show ?thesis using R by (auto simp: ExpandNode_def Let_def split: option.splits)
  qed
qed

lemma block_loop_total:
  "route_inv bp orders st path \<Longrightarrow> 0 < tf_keyIdx st \<Longrightarrow> tf_keyIdx st < tf_keyNum st \<Longrightarrow>
    k \<le> nat (tf_placeNum st - tf_placeIdx st) \<Longrightarrow>
    \<exists>ret st1 path1. block_loop bp orders lastKey block k (st, path) = Some (ret, st1, path1) \<and> ret \<in> {0, 1}"
proof (induction k arbitrary: st path)
  case (Suc k)
  have pl: "tf_placeIdx st < tf_placeNum st" "k \<le> nat (tf_placeNum st - (tf_placeIdx st + 1))" using Suc.prems(4) by auto
  define v where "v = po_place (orders ! nat (tf_placeIdx st))"
  show ?case
  proof (cases "lp_isVar v")
    case False
    then show ?thesis
      using Suc.IH [OF skip_place_inv [OF Suc.prems(1,2) pl(1)]] Suc.prems(2,3) pl(2) by (auto simp: Let_def v_def)
  next
    case True
    have "\<exists>ret st1 path1. ExpandNode bp v (GetDurSP bp v) NODE_FUNC_PLACE a dp ocs (st, path) = Some (ret, st1, path1) \<and> ret \<in> {0, 1} \<and>
        (ret = 0 \<longrightarrow> (\<exists>ret2 st2 path2. block_loop bp orders lastKey block k (st1\<lparr>tf_placeIdx := tf_placeIdx st1 + 1\<rparr>, path1) =
           Some (ret2, st2, path2) \<and> ret2 \<in> {0, 1}))" for a dp ocs
    proof -
      obtain ret st1 path1 where X: "ExpandNode bp v (GetDurSP bp v) NODE_FUNC_PLACE a dp ocs (st, path) = Some (ret, st1, path1)" "ret \<in> {0, 1}"
        using ExpandNode_total [OF Suc.prems(1,3)] by blast
      moreover have "\<exists>ret2 st2 path2. block_loop bp orders lastKey block k (st1\<lparr>tf_placeIdx := tf_placeIdx st1 + 1\<rparr>, path1) =
           Some (ret2, st2, path2) \<and> ret2 \<in> {0, 1}" if "ret = 0"
      proof -
        note P = expand_place_inv [OF Suc.prems(1,2) pl(1) v_def True HOL.refl X(1) [unfolded that]]
        then show ?thesis using Suc.IH [OF conjunct1 [OF P]] Suc.prems(2,3) pl(2) by simp
      qed
      ultimately show ?thesis by blast
    qed
    note X = this
    show ?thesis
    proof (cases "po_date (orders ! nat (tf_placeIdx st)) = kn_trafDate lastKey")
      case D: True
      show ?thesis
      proof (cases "TimeBlock_GetPlaceInfo (lp_ID v) block")
        case (Some p)
        then show ?thesis
          using True D X [of "pin_arvID p" "pin_deptID p" "pin_availOpenCloseList p"]
          by (cases "GetDurSP bp v") (auto simp: Let_def simp flip: v_def)
      qed (use True D in \<open>simp add: Let_def flip: v_def\<close>)
    qed (use True in \<open>simp add: Let_def\<close>)
  qed
qed simp

lemma ExpandBlock_total:
  assumes "route_inv bp orders st path" "0 < tf_keyIdx st" "tf_keyIdx st < tf_keyNum st"
  shows "\<exists>ret st1 path1. ExpandBlock bp orders (st, path) = Some (ret, st1, path1) \<and> ret \<in> {0, 1}"
  using block_loop_total [OF assms le_refl] by (auto simp: ExpandBlock_def split: option.split)

lemma ExpandKeynode_total:
  assumes "route_inv bp orders st path" "tf_keyIdx st < tf_keyNum st" "dates_ok bp orders"
  shows "\<exists>ret st1 path1. ExpandKeynode bp orders (st, path) = Some (ret, st1, path1) \<and> ret \<in> {0, 1}"
proof -
  define kn where "kn = bp_KeyNode bp ! nat (tf_keyIdx st)"
  have k: "GetKey bp (tf_keyIdx st) = Some kn" "kn \<in> set (bp_KeyNode bp)"
    using assms(1,2) by (auto simp: route_inv_def kn_def intro!: GetKey_Some)
  obtain miss where m: "(if tf_placeIdx st < tf_placeNum st
             then map_option (\<lambda>c. c > 0)
                    (compareDayStr (po_date (orders ! nat (tf_placeIdx st))) (kn_trafDate kn))
             else Some False) = Some miss"
  proof (cases "tf_placeIdx st < tf_placeNum st")
    case True
    then have "orders ! nat (tf_placeIdx st) \<in> set orders" using assms(1) by (auto simp: route_inv_def)
    then have "compareDayStr (po_date (orders ! nat (tf_placeIdx st))) (kn_trafDate kn) \<noteq> None"
      using assms(3) k(2) unfolding dates_ok_def by blast
    then show ?thesis using True that by auto
  qed (use that in simp)
  obtain ret st1 path1 where "ExpandNode bp (kn_place kn) (Some (kn_durS kn)) (kn_type kn)
          (lp_ID (kn_place kn)) (lp_ID (kn_place kn)) (KeyNode_openCloseList kn) (st, path) = Some (ret, st1, path1)" "ret \<in> {0, 1}"
    using ExpandNode_total [OF assms(1,2)] by blast
  then show ?thesis using k(1) m by (auto simp: ExpandKeynode_def)
qed

lemma route_loop_total:
  "route_inv bp orders st path \<Longrightarrow> keys_ok bp \<Longrightarrow> dates_ok bp orders \<Longrightarrow> nat (tf_keyNum st - tf_keyIdx st) < fuel \<Longrightarrow>
    \<exists>ret st1 path1. route_loop fuel bp orders (st, path) = Some (ret, st1, path1) \<and> ret \<in> {0, 1}"
proof (induction fuel arbitrary: st path)
  case (Suc fuel)
  show ?case
  proof (cases "tf_keyIdx st < tf_keyNum st")
    case True
    obtain ret st1 path1 where K: "ExpandKeynode bp orders (st, path) = Some (ret, st1, path1)" "ret \<in> {0, 1}"
      using ExpandKeynode_total [OF Suc.prems(1) True Suc.prems(3)] by blast
    show ?thesis
    proof (cases "ret = 0 \<and> tf_keyIdx st1 < tf_keyNum st1")
      case go: True
      then have I1: "route_inv bp orders st1 path1" "tf_keyIdx st1 = tf_keyIdx st + 1"
        using expand_key_inv [OF Suc.prems(1,2) True] K(1) by auto
      have pos: "0 < tf_keyIdx st1" using I1 route_inv_keyNum [OF Suc.prems(1)] by simp
      obtain ret2 st2 path2 where B: "ExpandBlock bp orders (st1, path1) = Some (ret2, st2, path2)" "ret2 \<in> {0, 1}"
        using ExpandBlock_total [OF I1(1) pos] go by blast
      show ?thesis
      proof (cases "ret2 = 0")
        case 0: True
        then have I2: "route_inv bp orders st2 path2" "tf_keyIdx st2 = tf_keyIdx st1"
          using expand_block_inv [OF I1(1) pos] B(1) by auto
        have "tf_keyNum st2 = tf_keyNum st" using route_inv_keyNum [OF Suc.prems(1)] route_inv_keyNum [OF I2(1)] by simp
        then have "nat (tf_keyNum st2 - tf_keyIdx st2) < fuel" using I1(2) I2(2) Suc.prems(4) True by simp
        then show ?thesis using Suc.IH [OF I2(1) Suc.prems(2,3)] True K go B 0 by simp
      qed (use True K go B in simp)
    qed (use True K in auto)
  qed simp
qed simp

lemma eval_places_total:
  "\<forall>it \<in> set xs. is_place it \<longrightarrow> lp_isVar (pl_place it) \<Longrightarrow> \<exists>r. eval_places bp xs acc = Some r"
  by (induction xs arbitrary: acc) (auto simp: Let_def split: prod.split)

lemma route_inv_typed:
  assumes "route_inv bp orders st path"
  shows "\<forall>it \<in> set (pv_items path). is_place it \<longrightarrow> lp_isVar (pl_place it)"
proof (intro ballI impI)
  fix it assume it: "it \<in> set (pv_items path)" "is_place it"
  then have "it \<in> set (filter (Not \<circ> is_key) (pv_items path))" using assms by (auto simp: route_inv_def)
  then have "pl_place it \<in> set (map pl_place (filter (Not \<circ> is_key) (pv_items path)))" by auto
  also have "\<dots> = set (filter lp_isVar (map po_place (take (nat (tf_placeIdx st)) orders)))"
    using assms by (simp add: route_inv_def)
  finally show "lp_isVar (pl_place it)" by simp
qed

lemma Eval_total:
  assumes "\<forall>it \<in> set (pv_items path). is_place it \<longrightarrow> lp_isVar (pl_place it)"
  shows "\<exists>p. Eval bp path = Some p"
  using eval_places_total [OF assms, of bp "(0, 0, 0, {})"] by (auto simp: Eval_def Let_def)

lemma route_inv_start:
  assumes "pv_ok path" "pv_len path = 0"
  shows "route_inv bp orders (st\<lparr>tf_keyNum := GetKeyNum bp, tf_placeNum := int (length orders), tf_placeIdx := 0,
    tf_keyIdx := 0\<rparr>) path"
  using assms by (simp add: route_inv_def GetKeyNum_def pv_items_def last_ok_def)

lemma PathView_Init_empty:
  "pv_ok path \<Longrightarrow> pv_len path = 0 \<Longrightarrow> pv_ok (snd (PathView_Init n path)) \<and> pv_len (snd (PathView_Init n path)) = 0"
  by (simp add: PathView_Init_def PathView_Reset_def pv_ok_def)

lemma DoRoute_routes:
  assumes "keys_ok bp" "dates_ok bp orders" "pv_ok path" "pv_len path = 0"
  shows "\<exists>ret st1 path1. DoRoute bp orders (st, path) = Some (ret, st1, path1) \<and> ret \<in> {0, 1} \<and>
    (ret = 0 \<longrightarrow> pv_isValid path1 \<and> pv_ok path1 \<and> routed bp orders (pv_items path1))"
proof -
  define st0 where "st0 = st\<lparr>tf_keyNum := GetKeyNum bp, tf_placeNum := int (length orders), tf_placeIdx := 0, tf_keyIdx := 0\<rparr>"
  define path0 where "path0 = snd (PathView_Init (int (length orders) + GetKeyNum bp) path)"
  have I0: "route_inv bp orders st0 path0"
    unfolding st0_def path0_def by (rule route_inv_start) (use PathView_Init_empty assms(3,4) in auto)
  have "nat (tf_keyNum st0 - tf_keyIdx st0) < nat (GetKeyNum bp) + 1" by (simp add: st0_def)
  then obtain ret st1 path1 where L: "route_loop (nat (GetKeyNum bp) + 1) bp orders (st0, path0) = Some (ret, st1, path1)" "ret \<in> {0, 1}"
    using route_loop_total [OF I0 assms(1,2)] by blast
  show ?thesis
  proof (cases "ret \<noteq> 0 \<or> tf_placeIdx st1 < tf_placeNum st1 \<or> tf_keyIdx st1 < tf_keyNum st1")
    case True
    then have "DoRoute bp orders (st, path) = Some (1, st1, path1)"
      using L(1) by (simp add: DoRoute_def Let_def del: route_loop.simps flip: st0_def path0_def)
    then show ?thesis by simp
  next
    case False
    then have I1: "route_inv bp orders st1 path1" using route_loop_inv [OF _ I0 assms(1)] L(1) by blast
    then have fin: "nat (tf_keyIdx st1) = length (bp_KeyNode bp)" "nat (tf_placeIdx st1) = length orders"
      using False unfolding route_inv_def by linarith+
    let ?p = "path1\<lparr>pv_isValid := True\<rparr>"
    have items: "pv_items ?p = pv_items path1" by (simp add: pv_items_def)
    obtain path2 where E: "Eval bp ?p = Some path2" using Eval_total [of ?p bp] route_inv_typed [OF I1] by (auto simp: items)
    then have "pv_items path2 = pv_items path1" "pv_isValid path2" "pv_ok path2"
      using Eval_frame [OF E] I1 by (simp_all add: pv_items_def route_inv_def pv_ok_def)
    moreover have "DoRoute bp orders (st, path) = Some (0, st1, path2)"
      using L(1) False E by (simp add: DoRoute_def Let_def PathView_Dump_def del: route_loop.simps flip: st0_def path0_def)
    ultimately show ?thesis using I1 fin by (auto simp: route_inv_def routed_def)
  qed
qed

section \<open>Property\<close>



end
