(* ===== verification/BagPlan.thy ===== *)
theory BagPlan
  imports TrafRoute
begin

text \<open>
  The bag planner's request (Route/bag/BagPlan.h and .cpp): every key node and every place that
  waits to be planned gets a position, each time block a node type per position, and each place
  a set of bits, one for itself and one for each place a tour visits.

  \<^item> \<open>BagPlan\<close> derives from \<open>BasePlan\<close>: \<open>bg_base\<close> is that part. Positions are bytes (\<open>uint8_t\<close>), a
    \<open>bit160\<close> is a 160-bit word.
  \<^item> \<open>pIdxMap[id] = pIdxMap.size()\<close> evaluates the size before or after the insertion; both are
    allowed before C++17, and \<open>sizeLast\<close> says which.
  \<^item> \<open>None\<close>: a place of a tour type that is no \<open>Tour\<close> object is dereferenced, or a table is read
    out of range.
  \<^item> \<open>NormScore\<close> (floating-point \<open>exp\<close>) and the four time-outs (wall clock) are not modelled.

  The property: after \<open>DoPos\<close> positions and places correspond, the node type of a place in a
  block is the one its node function gives, and two places share a bit exactly when they have a
  place in common.
\<close>

definition NODE_FUNC_NULL :: u8 where [flag_simps]: "NODE_FUNC_NULL = 0"
definition NODE_FUNC_PLACE_REST_LUNCH :: u8 where [flag_simps]: "NODE_FUNC_PLACE_REST_LUNCH = 0x2"
definition NODE_FUNC_PLACE_REST_SUPPER :: u8 where [flag_simps]: "NODE_FUNC_PLACE_REST_SUPPER = 0x8"
definition NODE_FUNC_PLACE_VIEW_SHOP :: u8 where
  [flag_simps]: "NODE_FUNC_PLACE_VIEW_SHOP = NODE_FUNC_PLACE_VIEW OR NODE_FUNC_PLACE_SHOP"
definition LY_PLACE_TYPE_VIEWTICKET :: u32 where [flag_simps]: "LY_PLACE_TYPE_VIEWTICKET = 0x4000"

type_synonym bit160 = "160 word"

definition kPathLimit :: nat where "kPathLimit = 100"
definition kBlockLimit :: nat where "kBlockLimit = 40"

record bagplan =
  bg_base :: baseplan
  bg_maxHot :: int
  bg_maxDist :: int
  bg_maxTime :: int
  bg_nodeNum :: int
  bg_kNum :: int
  bg_blockNum :: int
  bg_posPList :: "lyplace list"
  bg_isPosNonMiss :: "bool list"
  bg_vTypeList :: "u8 list"
  bg_posMap :: "string \<Rightarrow> int option"
  bg_bidPList :: "bit160 list"
  bg_bidMap :: "string \<Rightarrow> bit160 option"
  bg_userBid :: bit160
  bg_richBid :: bit160

definition BagPlan_new :: "baseplan \<Rightarrow> bagplan" where
  "BagPlan_new bp =
     \<lparr>bg_base = bp, bg_maxHot = 0, bg_maxDist = 0, bg_maxTime = 0, bg_nodeNum = 0, bg_kNum = 0,
      bg_blockNum = 0, bg_posPList = [], bg_isPosNonMiss = [], bg_vTypeList = [],
      bg_posMap = Map.empty, bg_bidPList = [], bg_bidMap = Map.empty, bg_userBid = 0, bg_richBid = 0\<rparr>"

definition SetMaxHot :: "int \<Rightarrow> bagplan \<Rightarrow> bagplan" where
  "SetMaxHot m bg = (if m > 0 then bg\<lparr>bg_maxHot := m\<rparr> else bg)"

definition SetMaxDist :: "int \<Rightarrow> bagplan \<Rightarrow> bagplan" where
  "SetMaxDist m bg = (if m > 0 then bg\<lparr>bg_maxDist := m\<rparr> else bg)"

definition SetMaxTime :: "int \<Rightarrow> bagplan \<Rightarrow> bagplan" where
  "SetMaxTime m bg = (if m > 0 then bg\<lparr>bg_maxTime := m\<rparr> else bg)"

section \<open>Positions\<close>

text \<open>The node type of a place in a block, from the block's node function.\<close>

definition vtype_of :: "u32 \<Rightarrow> u8" where
  "vtype_of nodeFunc =
     (if has_flag nodeFunc (ucast NODE_FUNC_PLACE_VIEW_SHOP) then NODE_FUNC_PLACE_VIEW_SHOP
      else if nodeFunc = ucast NODE_FUNC_PLACE_REST_LUNCH then NODE_FUNC_PLACE_REST_LUNCH
      else if nodeFunc = ucast NODE_FUNC_PLACE_REST_SUPPER then NODE_FUNC_PLACE_REST_SUPPER
      else if has_flag nodeFunc (ucast NODE_FUNC_PLACE_REST_LUNCH)
              \<and> has_flag nodeFunc (ucast NODE_FUNC_PLACE_REST_SUPPER) then NODE_FUNC_PLACE_RESTAURANT
      else NODE_FUNC_PLACE_VIEW_SHOP)"

definition block_vtype :: "timeblock \<Rightarrow> lyplace \<Rightarrow> u8" where
  "block_vtype block place =
     (if TimeBlock_Has (lp_ID place) block then vtype_of (TimeBlock_GetFunc (lp_ID place) block)
      else NODE_FUNC_NULL)"

text \<open>The places a place stands for: those a tour visits, then itself.\<close>

definition place_ids :: "lyplace \<Rightarrow> string list option" where
  "place_ids place =
     (if has_flag (lp_t place) LY_PLACE_TYPE_TOURALL
      then map_option (\<lambda>t. ti_refPoi t @ [lp_ID place]) (lp_tour place)
      else Some [lp_ID place])"

definition idx_insert :: "bool \<Rightarrow> string \<Rightarrow> (string \<times> int) list \<Rightarrow> (string \<times> int) list" where
  "idx_insert sizeLast pid m =
     (if map_of m pid = None then m @ [(pid, int (length m) + (if sizeLast then 1 else 0))] else m)"

definition place_bid :: "(string \<times> int) list \<Rightarrow> string list \<Rightarrow> bit160" where
  "place_bid m pids =
     fold (\<lambda>pid b. case map_of m pid of
             Some i \<Rightarrow> if i < 160 then b OR push_bit (nat i) 1 else b
           | None \<Rightarrow> b) pids 0"

definition user_must :: "baseplan \<Rightarrow> lyplace \<Rightarrow> bool" where
  "user_must bp place \<longleftrightarrow> (\<exists>q \<in> set (bp_userMustPlaceSet bp). same_place q place)"

definition pos_all :: "baseplan \<Rightarrow> lyplace list" where
  "pos_all bp = map kn_place (bp_KeyNode bp) @ bp_waitPlaceList bp"

definition DoPos :: "bool \<Rightarrow> bagplan \<Rightarrow> (int \<times> bagplan) option" where
  "DoPos sizeLast bg0 =
     (let bp = bg_base bg0;
          missAll = bg_isPosNonMiss bg0 @ map (\<lambda>_. False) (bp_KeyNode bp)
            @ map (user_must bp) (bp_waitPlaceList bp);
          big = length (pos_all bp) > kPathLimit;
          pos = (if big then take kPathLimit (pos_all bp) else pos_all bp);
          bg1 = bg0\<lparr>bg_posPList := pos,
                    bg_isPosNonMiss := (if big then take kPathLimit missAll else missAll),
                    bg_kNum := GetKeyNum bp, bg_nodeNum := int (length pos),
                    bg_blockNum := GetBlockNum bp\<rparr>
      in if GetBlockNum bp > int kBlockLimit then Some (1, bg1)
      else do {
        idss \<leftarrow> those (map place_ids pos);
        let pIdxMap = fold (idx_insert sizeLast) (concat idss) [];
        let bids = map (place_bid pIdxMap) idss;
        let userBid = foldl (OR) 0 (map snd (filter (\<lambda>(p, b). user_must bp p) (zip pos bids)));
        Some (0, bg1\<lparr>bg_vTypeList := concat (map (\<lambda>block. map (block_vtype block) pos) (bp_BlockList bp)),
          bg_posMap := map_of (rev (drop (nat (GetKeyNum bp)) (zip (map lp_ID pos) (map int [0..<length pos])))),
          bg_bidMap := map_of (rev (zip (map lp_ID pos) bids)),
          bg_bidPList := bids, bg_userBid := userBid, bg_richBid := userBid\<rparr>)
      })"

section \<open>Lookups\<close>

definition PosNum :: "bagplan \<Rightarrow> int" where
  "PosNum bg = bg_nodeNum bg"

definition GetPosPlace :: "bagplan \<Rightarrow> u8 \<Rightarrow> lyplace option" where
  "GetPosPlace bg vPos = (if uint vPos \<ge> bg_nodeNum bg then None else Some (bg_posPList bg ! unat vPos))"

definition IsPosNonMiss :: "bagplan \<Rightarrow> u8 \<Rightarrow> bool" where
  "IsPosNonMiss bg vPos = (if uint vPos \<ge> bg_nodeNum bg then False else bg_isPosNonMiss bg ! unat vPos)"

definition GetPosMissLevel :: "bagplan \<Rightarrow> u8 \<Rightarrow> int" where
  "GetPosMissLevel bg vPos =
     (if uint vPos \<ge> bg_nodeNum bg then 0 else GetMissLevel (bg_base bg) (bg_posPList bg ! unat vPos))"

definition GetPosBid :: "bagplan \<Rightarrow> u8 \<Rightarrow> bit160" where
  "GetPosBid bg vPos = (if uint vPos \<ge> bg_nodeNum bg then 0 else bg_bidPList bg ! unat vPos)"

definition GetPosTraf :: "bagplan \<Rightarrow> u8 \<Rightarrow> u8 \<Rightarrow> u8 \<Rightarrow> traffic option" where
  "GetPosTraf bg bPos iPos jPos =
     (if uint bPos \<ge> bg_blockNum bg \<or> uint iPos \<ge> bg_nodeNum bg \<or> uint jPos \<ge> bg_nodeNum bg then None
      else
        (let fromID = lp_ID (bg_posPList bg ! unat iPos); toID = lp_ID (bg_posPList bg ! unat jPos) in
         case GetBlock (bg_base bg) (uint bPos) of
           Some block \<Rightarrow>
             if fromID \<noteq> [] \<and> toID \<noteq> [] then GetTraffic (bg_base bg) fromID toID (tb_trafDate block)
             else None
         | None \<Rightarrow> None))"

definition GetPos :: "bagplan \<Rightarrow> string \<Rightarrow> u8" where
  "GetPos bg pid = (case bg_posMap bg pid of None \<Rightarrow> 0 | Some i \<Rightarrow> word_of_int i)"

definition GetVType :: "bagplan \<Rightarrow> u8 \<Rightarrow> u8 \<Rightarrow> u8" where
  "GetVType bg bPos vPos =
     (if uint bPos \<ge> bg_blockNum bg \<or> uint vPos \<ge> bg_nodeNum bg then NODE_FUNC_NULL
      else bg_vTypeList bg ! nat (uint bPos * bg_nodeNum bg + uint vPos))"

text \<open>The indices handed out: distinct, counting from 0 or from 1; the identifiers a place covers; the
  places that get a position.\<close>

definition idx_ok :: "bool \<Rightarrow> (string \<times> int) list \<Rightarrow> bool" where
  "idx_ok s m \<longleftrightarrow> distinct (map fst m) \<and> map snd m = map (\<lambda>i. int i + (if s then 1 else 0)) [0..<length m]"

definition covers :: "lyplace \<Rightarrow> string set" where
  "covers place = (case place_ids place of Some pids \<Rightarrow> set pids | None \<Rightarrow> {})"

definition pos_places :: "baseplan \<Rightarrow> lyplace list" where
  "pos_places bp = take kPathLimit (pos_all bp)"

section \<open>Lemmas\<close>

lemma nth_concat_rows:
  "(\<forall>r \<in> set rows. length r = n) \<Longrightarrow> i < length rows \<Longrightarrow> j < n \<Longrightarrow> concat rows ! (i * n + j) = rows ! i ! j"
proof (induction rows arbitrary: i)
  case (Cons r rows)
  then show ?case by (cases i) (auto simp: nth_append)
qed simp

lemma idx_insert_ok: "idx_ok s m \<Longrightarrow> idx_ok s (idx_insert s pid m)"
  by (auto simp: idx_ok_def idx_insert_def map_of_eq_None_iff)

lemma idx_insert_dom: "dom (map_of (idx_insert s pid m)) = insert pid (dom (map_of m))"
  by (auto simp: idx_insert_def dom_map_of_conv_image_fst map_of_eq_None_iff)

lemma fold_idx_insert:
  "idx_ok s m \<Longrightarrow> idx_ok s (fold (idx_insert s) pids m) \<and>
    dom (map_of (fold (idx_insert s) pids m)) = dom (map_of m) \<union> set pids"
  by (induction pids arbitrary: m) (auto simp: idx_insert_ok idx_insert_dom)

lemma idx_ok_nth: "idx_ok s m \<Longrightarrow> i < length m \<Longrightarrow> snd (m ! i) = int i + (if s then 1 else 0)"
  unfolding idx_ok_def by (metis (no_types, lifting) add_0 diff_zero length_map length_upt nth_map nth_upt)

lemma idx_ok_inj:
  assumes "idx_ok s m" "map_of m a = Some i" "map_of m b = Some i"
  shows "a = b"
proof -
  obtain k l where k: "k < length m" "m ! k = (a, i)" and l: "l < length m" "m ! l = (b, i)"
    using assms(2,3) by (meson in_set_conv_nth map_of_SomeD)
  have "k = l" using idx_ok_nth [OF assms(1) k(1)] idx_ok_nth [OF assms(1) l(1)] k l by simp
  then show ?thesis using k l by simp
qed

lemma idx_ok_range: "idx_ok s m \<Longrightarrow> map_of m a = Some i \<Longrightarrow> 0 \<le> i \<and> i < int (length m) + (if s then 1 else 0)"
  using idx_ok_nth by (fastforce dest!: map_of_SomeD simp: in_set_conv_nth)

lemma length_idx: "idx_ok s m \<Longrightarrow> length m = card (dom (map_of m))"
  by (simp add: idx_ok_def dom_map_of_conv_image_fst distinct_card flip: set_map)

lemma bit_place_bid:
  "n < 160 \<Longrightarrow> bit (fold (\<lambda>pid b. case map_of m pid of
             Some i \<Rightarrow> if i < 160 then b OR push_bit (nat i) 1 else b
           | None \<Rightarrow> b) pids b0 :: bit160) n \<longleftrightarrow> bit b0 n \<or> (\<exists>pid \<in> set pids. \<exists>i < 160. map_of m pid = Some i \<and> n = nat i)"
  by (induction pids arbitrary: b0) (auto simp: bit_simps split: option.split)

lemma those_map_Some: "\<forall>x \<in> set xs. f x \<noteq> None \<Longrightarrow> those (map f xs) = Some (map (the \<circ> f) xs)"
  by (induction xs) auto

lemma place_bid_share:
  assumes ok: "idx_ok s m" and small: "length m + (if s then 1 else 0) \<le> 160"
    and sub: "set ps \<subseteq> dom (map_of m)" "set qs \<subseteq> dom (map_of m)"
  shows "place_bid m ps AND place_bid m qs \<noteq> 0 \<longleftrightarrow> set ps \<inter> set qs \<noteq> {}"
proof -
  have bit: "bit (place_bid m rs) n \<longleftrightarrow> (\<exists>pid \<in> set rs. map_of m pid = Some (int n))" if "n < 160" "set rs \<subseteq> dom (map_of m)" for rs n
  proof -
    have "i < 160 \<and> n = nat i \<longleftrightarrow> i = int n" if "map_of m pid = Some i" for pid i
      using idx_ok_range [OF ok that] small \<open>n < 160\<close> by auto
    then show ?thesis unfolding place_bid_def using bit_place_bid [OF that(1), of m rs 0] by auto
  qed
  have "place_bid m ps AND place_bid m qs \<noteq> 0 \<longleftrightarrow> (\<exists>n < 160. bit (place_bid m ps) n \<and> bit (place_bid m qs) n)"
    by (auto simp: bit_eq_iff bit_simps dest: bit_imp_le_length)
  also have "\<dots> \<longleftrightarrow> set ps \<inter> set qs \<noteq> {}"
  proof
    assume "\<exists>n < 160. bit (place_bid m ps) n \<and> bit (place_bid m qs) n"
    then obtain n where "n < 160" "bit (place_bid m ps) n" "bit (place_bid m qs) n" by blast
    then obtain p q where pq: "p \<in> set ps" "q \<in> set qs" "map_of m p = Some (int n)" "map_of m q = Some (int n)"
      using bit sub by blast
    then show "set ps \<inter> set qs \<noteq> {}" using idx_ok_inj [OF ok pq(3,4)] by auto
  next
    assume "set ps \<inter> set qs \<noteq> {}"
    then obtain p i where p: "p \<in> set ps" "p \<in> set qs" "map_of m p = Some i" using sub by blast
    then have "0 \<le> i" "i < 160" using idx_ok_range [OF ok p(3)] small by (auto split: if_splits)
    then have "nat i < 160" "map_of m p = Some (int (nat i))" using p by auto
    then show "\<exists>n < 160. bit (place_bid m ps) n \<and> bit (place_bid m qs) n" using bit sub p by blast
  qed
  finally show ?thesis .
qed

lemma posMap_lookup:
  assumes "distinct (map lp_ID (drop k pos))" "k \<le> i" "i < length pos"
  shows "map_of (rev (drop k (zip (map lp_ID pos) (map int [0..<length pos])))) (lp_ID (pos ! i)) = Some (int i)"
proof -
  let ?z = "drop k (zip (map lp_ID pos) (map int [0..<length pos]))"
  have z: "?z ! (i - k) = (lp_ID (pos ! i), int i)" "i - k < length ?z" using assms by (auto simp: nth_drop)
  have "map fst ?z = map lp_ID (drop k pos)" by (simp add: drop_map drop_zip flip: drop_map)
  then have "distinct (map fst (rev ?z))" using assms(1) by (simp add: rev_map flip: rev_map)
  moreover have "(lp_ID (pos ! i), int i) \<in> set (rev ?z)" using z by (metis nth_mem set_rev)
  ultimately show ?thesis by (simp add: map_of_eq_Some_iff)
qed

lemma uint_bound: "int n \<le> uint (v :: 'a::len word) \<longleftrightarrow> n \<le> unat v"
  by (metis of_nat_le_iff uint_nat)

lemma DoPos_result:
  assumes "length (bp_BlockList (bg_base bg0)) \<le> 40"
    and "\<forall>p \<in> set (pos_places (bg_base bg0)). place_ids p \<noteq> None"
  obtains bg m where "DoPos s bg0 = Some (0, bg)" "bg_base bg = bg_base bg0"
    "bg_posPList bg = pos_places (bg_base bg0)" "bg_nodeNum bg = int (length (pos_places (bg_base bg0)))"
    "bg_kNum bg = int (length (bp_KeyNode (bg_base bg0)))"
    "bg_blockNum bg = int (length (bp_BlockList (bg_base bg0)))"
    "bg_vTypeList bg = concat (map (\<lambda>block. map (block_vtype block) (bg_posPList bg)) (bp_BlockList (bg_base bg0)))"
    "bg_posMap bg = map_of (rev (drop (length (bp_KeyNode (bg_base bg0)))
       (zip (map lp_ID (bg_posPList bg)) (map int [0..<length (bg_posPList bg)]))))"
    "bg_bidPList bg = map (place_bid m \<circ> (the \<circ> place_ids)) (bg_posPList bg)"
    "idx_ok s m" "dom (map_of m) = (\<Union>p \<in> set (bg_posPList bg). covers p)"
proof -
  define pos where "pos = pos_places (bg_base bg0)"
  define idss where "idss = map (the \<circ> place_ids) pos"
  define m where "m = fold (idx_insert s) (concat idss) []"
  have pos: "(if kPathLimit < length (pos_all (bg_base bg0)) then take kPathLimit (pos_all (bg_base bg0))
     else pos_all (bg_base bg0)) = pos"
    by (simp add: pos_def pos_places_def)
  have t: "those (map place_ids pos) = Some idss"
    unfolding idss_def pos_def using assms(2) by (intro those_map_Some)
  have c: "covers p = set ((the \<circ> place_ids) p)" if "p \<in> set pos" for p
    using that assms(2) by (auto simp: covers_def pos_def split: option.split)
  have "idx_ok s []" by (simp add: idx_ok_def)
  from fold_idx_insert [OF this, of "concat idss"]
  have m: "idx_ok s m" "dom (map_of m) = (\<Union>p \<in> set pos. covers p)"
    using c by (auto simp: m_def idss_def)
  have blk: "\<not> GetBlockNum (bg_base bg0) > int kBlockLimit" using assms(1) by (simp add: GetBlockNum_def kBlockLimit_def)
  define bg where "bg = snd (the (DoPos s bg0))"
  have D: "DoPos s bg0 = Some (0, bg)" by (simp add: bg_def DoPos_def Let_def pos t blk)
  have blk': "\<not> kBlockLimit < length (bp_BlockList (bg_base bg0))" using blk by (simp add: GetBlockNum_def)
  show thesis
  proof (rule that [OF D])
    show "bg_bidPList bg = map (place_bid m \<circ> (the \<circ> place_ids)) (bg_posPList bg)"
      by (simp add: bg_def DoPos_def Let_def pos t blk m_def) (simp add: idss_def)
  qed (use m in \<open>simp_all add: bg_def DoPos_def Let_def pos t blk blk' GetBlockNum_def GetKeyNum_def flip: pos_def\<close>)
qed

section \<open>Property\<close>

text \<open>C14: With at most 40 blocks and tour objects behind the tour types, \<open>DoPos\<close> succeeds and gives every
  key node and waiting place (the first 100) its position: looking up a position gives the
  place, and looking up a waiting place's identifier gives its position when identifiers
  differ; the node type of a position in a block is the one the block's node function
  determines; and, for fewer than 160 identifiers in all, the bit sets of two positions
  intersect exactly when the two places cover a common place.\<close>

theorem DoPos_correct:
  assumes "length (bp_BlockList (bg_base bg0)) \<le> 40"
    and "\<forall>p \<in> set (pos_places (bg_base bg0)). place_ids p \<noteq> None"
  shows "\<exists>bg. DoPos s bg0 = Some (0, bg) \<and> bg_posPList bg = pos_places (bg_base bg0) \<and>
    (\<forall>v. unat v < length (bg_posPList bg) \<longrightarrow> GetPosPlace bg v = Some (bg_posPList bg ! unat v)) \<and>
    (distinct (map lp_ID (drop (length (bp_KeyNode (bg_base bg0))) (bg_posPList bg))) \<longrightarrow>
      (\<forall>i. length (bp_KeyNode (bg_base bg0)) \<le> i \<and> i < length (bg_posPList bg) \<longrightarrow>
        unat (GetPos bg (lp_ID (bg_posPList bg ! i))) = i)) \<and>
    (\<forall>b v. unat b < length (bp_BlockList (bg_base bg0)) \<and> unat v < length (bg_posPList bg) \<longrightarrow>
      GetVType bg b v = block_vtype (bp_BlockList (bg_base bg0) ! unat b) (bg_posPList bg ! unat v)) \<and>
    (card (\<Union>p \<in> set (bg_posPList bg). covers p) < 160 \<longrightarrow>
      (\<forall>u v. unat u < length (bg_posPList bg) \<and> unat v < length (bg_posPList bg) \<longrightarrow>
        (GetPosBid bg u AND GetPosBid bg v \<noteq> 0) =
        (covers (bg_posPList bg ! unat u) \<inter> covers (bg_posPList bg ! unat v) \<noteq> {})))"
proof -
  obtain bg m where B: "DoPos s bg0 = Some (0, bg)" "bg_base bg = bg_base bg0"
    "bg_posPList bg = pos_places (bg_base bg0)" "bg_nodeNum bg = int (length (pos_places (bg_base bg0)))"
    "bg_blockNum bg = int (length (bp_BlockList (bg_base bg0)))"
    "bg_vTypeList bg = concat (map (\<lambda>block. map (block_vtype block) (bg_posPList bg)) (bp_BlockList (bg_base bg0)))"
    "bg_posMap bg = map_of (rev (drop (length (bp_KeyNode (bg_base bg0)))
       (zip (map lp_ID (bg_posPList bg)) (map int [0..<length (bg_posPList bg)]))))"
    "bg_bidPList bg = map (place_bid m \<circ> (the \<circ> place_ids)) (bg_posPList bg)"
    "idx_ok s m" "dom (map_of m) = (\<Union>p \<in> set (bg_posPList bg). covers p)"
    by (rule DoPos_result [OF assms])
  define pos where "pos = bg_posPList bg"
  have n: "bg_nodeNum bg = int (length pos)" using B by (simp add: pos_def)
  have lim: "length pos \<le> 100" using B(3) by (simp add: pos_def pos_places_def kPathLimit_def)
  have "GetPosPlace bg v = Some (pos ! unat v)" if "unat v < length pos" for v
    using that n by (simp add: GetPosPlace_def uint_bound flip: pos_def)
  moreover have "unat (GetPos bg (lp_ID (pos ! i))) = i"
    if "distinct (map lp_ID (drop (length (bp_KeyNode (bg_base bg0))) pos))"
      "length (bp_KeyNode (bg_base bg0)) \<le> i" "i < length pos" for i
    using posMap_lookup [OF that] that lim by (simp add: GetPos_def B(7) unat_of_nat flip: pos_def)
  moreover have "GetVType bg b v = block_vtype (bp_BlockList (bg_base bg0) ! unat b) (pos ! unat v)"
    if "unat b < length (bp_BlockList (bg_base bg0))" "unat v < length pos" for b v
  proof -
    have "nat (uint b * bg_nodeNum bg + uint v) = unat b * length pos + unat v"
      unfolding n uint_nat by (metis nat_int of_nat_add of_nat_mult)
    moreover have "concat (map (\<lambda>block. map (block_vtype block) pos) (bp_BlockList (bg_base bg0))) !
        (unat b * length pos + unat v) = block_vtype (bp_BlockList (bg_base bg0) ! unat b) (pos ! unat v)"
      using nth_concat_rows [of "map (\<lambda>block. map (block_vtype block) pos) (bp_BlockList (bg_base bg0))" "length pos"] that by simp
    ultimately show ?thesis using that n B(5,6) by (simp add: GetVType_def uint_bound flip: pos_def)
  qed
  moreover have "(GetPosBid bg u AND GetPosBid bg v \<noteq> 0) = (covers (pos ! unat u) \<inter> covers (pos ! unat v) \<noteq> {})"
    if "card (\<Union>p \<in> set pos. covers p) < 160" "unat u < length pos" "unat v < length pos" for u v
  proof -
    have len: "length m + (if s then 1 else 0) \<le> 160" using length_idx [OF B(9)] B(10) that(1) by (simp add: pos_def)
    have c: "covers p = set (the (place_ids p))" if "p \<in> set pos" for p
      using that assms(2) B(3) by (auto simp: covers_def pos_def split: option.split)
    have bid: "GetPosBid bg w = place_bid m (the (place_ids (pos ! unat w)))" if "unat w < length pos" for w
      using that n B(8) by (simp add: GetPosBid_def uint_bound flip: pos_def)
    have sub: "set (the (place_ids (pos ! unat w))) \<subseteq> dom (map_of m)" if "unat w < length pos" for w
    proof -
      have "pos ! unat w \<in> set pos" using that by simp
      then show ?thesis unfolding B(10) using c [of "pos ! unat w"] unfolding pos_def by blast
    qed
    show ?thesis
      using place_bid_share [OF B(9) len sub [OF that(2)] sub [OF that(3)]] that(2,3) c bid by simp
  qed
  ultimately show ?thesis using B(1,3) unfolding pos_def by blast
qed

theorem DoPos_correct_witness:
  "\<exists>bg. DoPos False (BagPlan_new (BasePlan_new\<lparr>bp_KeyNode := [demo_key], bp_waitPlaceList := [m_attachRest]\<rparr>)) = Some (0, bg) \<and>
     bg_posPList bg = [kn_place demo_key, m_attachRest]"
proof -
  let ?bg0 = "BagPlan_new (BasePlan_new\<lparr>bp_KeyNode := [demo_key], bp_waitPlaceList := [m_attachRest]\<rparr>)"
  have pos: "pos_places (bg_base ?bg0) = [kn_place demo_key, m_attachRest]"
    by (simp add: pos_places_def pos_all_def BagPlan_new_def kPathLimit_def)
  have "kn_place demo_key = place0" by (simp add: demo_key_def KeyNode_new_def key_defs)
  then have "\<forall>p \<in> set (pos_places (bg_base ?bg0)). place_ids p \<noteq> None"
    unfolding pos by (simp add: place_ids_def place0_def m_attachRest_def has_flag_def flag_simps)
  moreover have "length (bp_BlockList (bg_base ?bg0)) \<le> 40" by (simp add: BagPlan_new_def BasePlan_new_def)
  ultimately show ?thesis using DoPos_correct [of ?bg0 False] pos by auto
qed

end
