(* ===== verification/SPath.thy ===== *)
theory SPath
  imports BagPlan
begin

text \<open>
  A candidate route of the bag planner (Route/bag/SPath.h and .cpp): the positions in the order in
  which they were added, the block of each, and what is left of every block's time and meals.

  \<^item> \<open>sp_addr\<close> is the object's address; no operation here changes it.
  \<^item> The fixed arrays are lists of that length; the constructor leaves them unset (\<open>garbage\<close>). A
    byte is \<open>u8\<close>; \<open>m_rNumList\<close> holds the bits of an \<open>int8_t\<close>.
  \<^item> \<open>None\<close>: an array is accessed out of range, or a block is null.
  \<^item> \<open>m_score\<close> is a rational; the comparison's \<open>1e-6\<close> is the double of that name.
  \<^item> \<open>AdaptOrder\<close> of \<^verbatim>\<open>BagPlan.cpp\<close> reads a candidate and stands here. A null place in the order is
    \<open>None\<close> as well. The two \<open>Dump\<close> functions only log.

  The properties: after any sequence of additions the lookups give back what was added and the
  remaining time is what the visits leave; a copy answers every lookup as the original does;
  the order handed to the router lists the places block by block with at most two meals, lunch
  before supper.
\<close>

record spath =
  sp_addr :: nat
  sp_nodeNum :: int
  sp_blockNum :: int
  sp_len :: int
  sp_hot :: int
  sp_dist :: int
  sp_cross :: int
  sp_clash :: int
  sp_firstL :: int
  sp_score :: rat
  sp_next :: int
  sp_bid :: bit160
  sp_missLevel :: int
  sp_vPos :: "u8 list"
  sp_bPos :: "u8 list"
  sp_vNumList :: "u8 list"
  sp_durList :: "int list"
  sp_rNeedList :: "u8 list"
  sp_rNumList :: "u8 list"
  sp_isInit :: bool
  sp_hash :: u32
  sp_hashPointSet :: u32
  sp_hashFrom :: u32

definition SPath_new :: "spath \<Rightarrow> spath" where
  "SPath_new garbage =
     garbage\<lparr>sp_nodeNum := 0, sp_blockNum := 0, sp_hot := 0, sp_dist := 0, sp_cross := 0, sp_score := 0,
       sp_len := 0, sp_next := 0, sp_missLevel := 0, sp_isInit := False, sp_bid := 0, sp_hash := 0,
       sp_hashPointSet := 0, sp_hashFrom := 0, sp_clash := 0, sp_firstL := 0\<rparr>"

section \<open>Lookups\<close>

definition GetVPos :: "int \<Rightarrow> spath \<Rightarrow> u8 option" where
  "GetVPos i p = (if i \<ge> sp_len p then Some 0 else arr_get (sp_vPos p) i)"

definition GetBPos :: "u8 \<Rightarrow> spath \<Rightarrow> u8 option" where
  "GetBPos vPos p = (if uint vPos \<ge> sp_nodeNum p then Some 0 else arr_get (sp_bPos p) (uint vPos))"

definition GetDur :: "u8 \<Rightarrow> spath \<Rightarrow> int option" where
  "GetDur bPos p = (if uint bPos \<ge> sp_blockNum p then Some 0 else arr_get (sp_durList p) (uint bPos))"

definition GetRNeed :: "u8 \<Rightarrow> spath \<Rightarrow> u8 option" where
  "GetRNeed bPos p = (if uint bPos \<ge> sp_blockNum p then Some 0 else arr_get (sp_rNeedList p) (uint bPos))"

definition GetRNum :: "u8 \<Rightarrow> spath \<Rightarrow> u8 option" where
  "GetRNum bPos p = (if uint bPos \<ge> sp_blockNum p then Some 0 else arr_get (sp_rNumList p) (uint bPos))"

definition GetVNum :: "u8 \<Rightarrow> spath \<Rightarrow> u8 option" where
  "GetVNum bPos p = (if uint bPos \<ge> sp_blockNum p then Some 0 else arr_get (sp_vNumList p) (uint bPos))"

definition ForwardNext :: "spath \<Rightarrow> spath" where "ForwardNext p = p\<lparr>sp_next := sp_next p + 1\<rparr>"
definition AddMissLevel :: "int \<Rightarrow> spath \<Rightarrow> spath" where
  "AddMissLevel m p = p\<lparr>sp_missLevel := sp_missLevel p + m\<rparr>"
definition SetMissLevel :: "int \<Rightarrow> spath \<Rightarrow> spath" where "SetMissLevel m p = p\<lparr>sp_missLevel := m\<rparr>"
definition SetScore :: "rat \<Rightarrow> spath \<Rightarrow> spath" where "SetScore s p = p\<lparr>sp_score := s\<rparr>"
definition SetDist :: "int \<Rightarrow> spath \<Rightarrow> spath" where "SetDist d p = p\<lparr>sp_dist := d\<rparr>"
definition SetHot :: "int \<Rightarrow> spath \<Rightarrow> spath" where "SetHot h p = p\<lparr>sp_hot := h\<rparr>"
definition SetCross :: "int \<Rightarrow> spath \<Rightarrow> spath" where "SetCross c p = p\<lparr>sp_cross := c\<rparr>"
definition SetClash :: "int \<Rightarrow> spath \<Rightarrow> spath" where "SetClash c p = p\<lparr>sp_clash := c\<rparr>"
definition SetFirstL :: "int \<Rightarrow> spath \<Rightarrow> spath" where "SetFirstL f p = p\<lparr>sp_firstL := f\<rparr>"
definition SetHashFrom :: "u32 \<Rightarrow> spath \<Rightarrow> spath" where "SetHashFrom h p = p\<lparr>sp_hashFrom := h\<rparr>"
definition SPath_Clear :: "spath \<Rightarrow> spath" where "SPath_Clear p = p\<lparr>sp_isInit := False\<rparr>"

section \<open>Changing a candidate\<close>

definition upd :: "u8 \<Rightarrow> ('a \<Rightarrow> 'a) \<Rightarrow> 'a list \<Rightarrow> 'a list" where
  "upd i f xs = xs[unat i := f (xs ! unat i)]"

definition push_body :: "u8 \<Rightarrow> u8 \<Rightarrow> int \<Rightarrow> int \<Rightarrow> bit160 \<Rightarrow> u8 \<Rightarrow> spath \<Rightarrow> spath" where
  "push_body bPos vPos hot dur bid vType p =
     (let rest = has_flag vType NODE_FUNC_PLACE_RESTAURANT in
      p\<lparr>sp_vPos := (sp_vPos p)[nat (sp_len p) := vPos], sp_len := sp_len p + 1,
        sp_bPos := (sp_bPos p)[unat vPos := bPos],
        sp_durList := upd bPos (\<lambda>d. d - dur) (sp_durList p),
        sp_vNumList := (if \<not> rest then upd bPos (\<lambda>n. n + 1) (sp_vNumList p) else sp_vNumList p),
        sp_bid := sp_bid p OR bid, sp_hot := sp_hot p + hot,
        sp_rNumList := (if rest then upd bPos (\<lambda>n. n - 1) (sp_rNumList p) else sp_rNumList p),
        sp_rNeedList :=
          (if rest \<and> (vType = NODE_FUNC_PLACE_REST_LUNCH \<or> vType = NODE_FUNC_PLACE_REST_SUPPER)
           then upd bPos (\<lambda>r. r AND NOT vType) (sp_rNeedList p) else sp_rNeedList p)\<rparr>)"

definition PushV :: "u8 \<Rightarrow> u8 \<Rightarrow> int \<Rightarrow> int \<Rightarrow> bit160 \<Rightarrow> u8 \<Rightarrow> spath \<Rightarrow> (int \<times> spath) option" where
  "PushV bPos vPos hot dur bid vType p =
     (if uint bPos \<ge> sp_blockNum p \<or> uint vPos \<ge> sp_nodeNum p then Some (1, p)
      else if sp_len p \<ge> sp_nodeNum p then Some (1, p)
      else if sp_len p < 0 \<or> nat (sp_len p) \<ge> kPathLimit \<or> unat vPos \<ge> kPathLimit \<or> unat bPos \<ge> kBlockLimit then None
      else Some (0, push_body bPos vPos hot dur bid vType p))"

text \<open>\<open>Copy\<close> copies only the used part of each array.\<close>

fun copy_pos :: "u8 list \<Rightarrow> nat \<Rightarrow> spath \<Rightarrow> spath \<Rightarrow> spath" where
  "copy_pos [] i sp p = p"
| "copy_pos (vPos # vs) i sp p =
     copy_pos vs (Suc i) sp
       (p\<lparr>sp_vPos := (sp_vPos p)[i := vPos], sp_bPos := (sp_bPos p)[unat vPos := sp_bPos sp ! unat vPos]\<rparr>)"

definition copy_head :: "nat \<Rightarrow> 'a list \<Rightarrow> 'a list \<Rightarrow> 'a list" where
  "copy_head n src dst = take n src @ drop n dst"

definition copy_scalars :: "spath \<Rightarrow> spath \<Rightarrow> spath" where
  "copy_scalars sp p0 =
     p0\<lparr>sp_nodeNum := sp_nodeNum sp, sp_blockNum := sp_blockNum sp, sp_len := sp_len sp,
               sp_hot := sp_hot sp, sp_dist := sp_dist sp, sp_cross := sp_cross sp, sp_clash := sp_clash sp,
               sp_firstL := sp_firstL sp, sp_score := sp_score sp, sp_next := sp_next sp,
               sp_missLevel := sp_missLevel sp, sp_hash := sp_hash sp,
               sp_hashPointSet := sp_hashPointSet sp, sp_hashFrom := sp_hashFrom sp\<rparr>"

definition SPath_Copy :: "spath \<Rightarrow> spath \<Rightarrow> spath option" where
  "SPath_Copy sp p0 =
     (let n = nat (sp_len sp); b = nat (sp_blockNum sp); vs = take n (sp_vPos sp) in
      if n > kPathLimit \<or> b > kBlockLimit \<or> (\<exists>v \<in> set vs. unat v \<ge> kPathLimit) then None
      else
        (let p1 = copy_scalars sp p0;
             p2 = copy_pos vs 0 sp p1
         in Some (p2\<lparr>sp_durList := copy_head b (sp_durList sp) (sp_durList p2),
               sp_vNumList := copy_head b (sp_vNumList sp) (sp_vNumList p2),
               sp_rNeedList := copy_head b (sp_rNeedList sp) (sp_rNeedList p2),
               sp_rNumList := copy_head b (sp_rNumList sp) (sp_rNumList p2),
               sp_bid := sp_bid sp, sp_isInit := True\<rparr>)))"

definition SPath_Init :: "bagplan \<Rightarrow> spath \<Rightarrow> spath option" where
  "SPath_Init bg p =
     (let blocks = bp_BlockList (bg_base bg); b = length blocks in
      if b > kBlockLimit then None
      else Some (p\<lparr>sp_nodeNum := bg_nodeNum bg, sp_blockNum := GetBlockNum (bg_base bg), sp_len := 0, sp_hot := 0,
            sp_dist := 0, sp_cross := 0, sp_score := 0, sp_clash := 0, sp_firstL := 0, sp_next := 0,
            sp_missLevel := 0, sp_hash := 0, sp_hashPointSet := 0, sp_hashFrom := 0,
            sp_durList := map tb_avail_dur blocks @ drop b (sp_durList p),
            sp_vNumList := replicate b 0 @ drop b (sp_vNumList p),
            sp_rNeedList := map tb_restNeed blocks @ drop b (sp_rNeedList p),
            sp_rNumList := map (\<lambda>t. word_of_int (tb_restNum t)) blocks @ drop b (sp_rNumList p),
            sp_bid := 0, sp_isInit := True\<rparr>))"

section \<open>Hashes\<close>

definition hash_step :: "nat \<Rightarrow> u32 \<Rightarrow> u32 \<Rightarrow> u32" where
  "hash_step i hash t =
     (if odd i then hash XOR NOT (push_bit 11 hash XOR t XOR drop_bit 5 hash)
      else hash XOR (push_bit 7 hash XOR t XOR drop_bit 3 hash))"

fun hash_loop :: "nat \<Rightarrow> u32 \<Rightarrow> u32 list \<Rightarrow> u32" where
  "hash_loop i hash [] = hash"
| "hash_loop i hash (t # ts) = hash_loop (Suc i) (hash_step i hash t) ts"

definition Hash_vec :: "u32 list \<Rightarrow> u32" where
  "Hash_vec ts = hash_loop 0 0 ts AND 0x7FFFFFFF"

definition Hash_bits :: "bit160 \<Rightarrow> u32" where
  "Hash_bits b = hash_loop 0 0 (map (\<lambda>i. of_bool (bit b i)) [0..<160]) AND 0x7FFFFFFF"

definition sp_used :: "spath \<Rightarrow> u8 list" where
  "sp_used p = take (nat (sp_len p)) (sp_vPos p)"

definition day_list :: "spath \<Rightarrow> nat \<Rightarrow> u8 list" where
  "day_list p b = filter (\<lambda>v. unat (sp_bPos p ! unat v) = b) (sp_used p)"

definition CalHashPointOrder :: "spath \<Rightarrow> spath" where
  "CalHashPointOrder p =
     (if sp_hash p \<noteq> 0 then p
      else p\<lparr>sp_hash := Hash_vec (concat (map (\<lambda>b. map ucast (day_list p b) @ [0]) [0..<nat (sp_blockNum p)]))\<rparr>)"

definition CalHashPointSet :: "bagplan \<Rightarrow> spath \<Rightarrow> spath" where
  "CalHashPointSet bg p =
     (if sp_hashPointSet p \<noteq> 0 then p
      else p\<lparr>sp_hashPointSet := Hash_bits (foldl (OR) 0 (map (GetPosBid bg) (sp_used p)))\<rparr>)"

definition CalHashDayOrder :: "bagplan \<Rightarrow> spath \<Rightarrow> spath option" where
  "CalHashDayOrder bg p =
     (if sp_hash p \<noteq> 0 then Some p
      else if \<exists>v \<in> set (sp_used p). uint (sp_bPos p ! unat v) \<ge> sp_blockNum p then None
      else Some (p\<lparr>sp_hash := Hash_vec (map (\<lambda>b. Hash_bits (foldl (OR) 0 (map (GetPosBid bg) (day_list p b))))
                                 [0..<nat (sp_blockNum p)])\<rparr>))"

section \<open>The order of candidates\<close>

definition eps6 :: rat where
  "eps6 = 4722366482869645 / 2 ^ 72"

definition SPathCmp :: "spath \<Rightarrow> spath \<Rightarrow> bool" where
  "SPathCmp a b =
     (if sp_missLevel a \<noteq> sp_missLevel b then sp_missLevel a < sp_missLevel b
      else if sp_clash a \<noteq> sp_clash b then sp_clash a < sp_clash b
      else if \<bar>sp_score a - sp_score b\<bar> > eps6 then sp_score a > sp_score b
      else sp_hash a < sp_hash b)"

section \<open>The order for the router (BagPlan::AdaptOrder)\<close>

fun rest_loop :: "bagplan \<Rightarrow> spath \<Rightarrow> nat \<Rightarrow> nat \<Rightarrow> (int \<times> int) list \<Rightarrow> (int \<times> (int \<times> int) list) option" where
  "rest_loop bg p i 0 rl = Some (0, rl)"
| "rest_loop bg p i (Suc k) rl = do {
     vPos \<leftarrow> GetVPos (int i) p;
     bPos \<leftarrow> GetBPos vPos p;
     if has_flag (GetVType bg bPos vPos) NODE_FUNC_PLACE_RESTAURANT then
       (if unat bPos \<ge> length rl then Some (1, rl)
        else if fst (rl ! unat bPos) < 0
        then rest_loop bg p (Suc i) k (rl[unat bPos := (int i, snd (rl ! unat bPos))])
        else if snd (rl ! unat bPos) < 0
        then rest_loop bg p (Suc i) k (rl[unat bPos := (fst (rl ! unat bPos), int i)])
        else rest_loop bg p (Suc i) k rl)
     else rest_loop bg p (Suc i) k rl }"

definition meal_type :: "int \<Rightarrow> int \<times> int \<Rightarrow> u8 \<Rightarrow> u8 option" where
  "meal_type i r vType =
     (if has_flag vType NODE_FUNC_PLACE_RESTAURANT then
        (if i = fst r then Some (if snd r \<ge> 0 then NODE_FUNC_PLACE_REST_LUNCH else vType)
         else if i = snd r then Some NODE_FUNC_PLACE_REST_SUPPER
         else None)
      else Some NODE_FUNC_PLACE_VIEW_SHOP)"

fun order_loop ::
  "bagplan \<Rightarrow> spath \<Rightarrow> (int \<times> int) list \<Rightarrow> nat \<Rightarrow> nat \<Rightarrow> int \<Rightarrow> string \<Rightarrow> placeorder list
     \<Rightarrow> (int \<times> placeorder list) option" where
  "order_loop bg p rl i 0 lastBPos date orders = Some (0, orders)"
| "order_loop bg p rl i (Suc k) lastBPos date orders = do {
     vPos \<leftarrow> GetVPos (int i) p;
     bPos \<leftarrow> GetBPos vPos p;
     date' \<leftarrow> (if uint bPos \<noteq> lastBPos then map_option kn_close_date (GetKey (bg_base bg) (uint bPos)) else Some date);
     place \<leftarrow> GetPosPlace bg vPos;
     case meal_type (int i) (rl ! unat bPos) (GetVType bg bPos vPos) of
       None \<Rightarrow> Some (1, orders)
     | Some nodeType \<Rightarrow>
         order_loop bg p rl (Suc i) k (uint bPos) date'
           (orders @ [\<lparr>po_place = place, po_date = date', po_index = int (length orders), po_type = nodeType\<rparr>]) }"

definition AdaptOrder :: "bagplan \<Rightarrow> spath option \<Rightarrow> placeorder list \<Rightarrow> (int \<times> placeorder list) option" where
  "AdaptOrder bg sPath orderList =
     (case sPath of None \<Rightarrow> Some (1, orderList)
      | Some p \<Rightarrow> do {
          (ret, rl) \<leftarrow> rest_loop bg p 0 (nat (sp_len p)) (replicate (nat (GetBlockNum (bg_base bg))) (-1, -1));
          if ret \<noteq> 0 then Some (1, orderList)
          else order_loop bg p rl 0 (nat (sp_len p)) (-1) [] orderList })"

text \<open>Specification. A well-formed candidate; an addition and a run of additions; what they leave.\<close>

definition spath_ok :: "spath \<Rightarrow> bool" where
  "spath_ok p \<longleftrightarrow> length (sp_vPos p) = kPathLimit \<and> length (sp_bPos p) = kPathLimit \<and>
     length (sp_vNumList p) = kBlockLimit \<and> length (sp_durList p) = kBlockLimit \<and>
     length (sp_rNeedList p) = kBlockLimit \<and> length (sp_rNumList p) = kBlockLimit \<and>
     0 \<le> sp_len p \<and> sp_len p \<le> sp_nodeNum p \<and> sp_nodeNum p \<le> int kPathLimit \<and>
     0 \<le> sp_blockNum p \<and> sp_blockNum p \<le> int kBlockLimit \<and>
     (\<forall>v \<in> set (sp_used p). uint v < sp_nodeNum p \<and> uint (sp_bPos p ! unat v) < sp_blockNum p)"

definition arrays_ok :: "spath \<Rightarrow> bool" where
  "arrays_ok p \<longleftrightarrow> length (sp_vPos p) = kPathLimit \<and> length (sp_bPos p) = kPathLimit \<and>
     length (sp_vNumList p) = kBlockLimit \<and> length (sp_durList p) = kBlockLimit \<and>
     length (sp_rNeedList p) = kBlockLimit \<and> length (sp_rNumList p) = kBlockLimit"

record pushop =
  pu_bPos :: u8
  pu_vPos :: u8
  pu_hot :: int
  pu_dur :: int
  pu_bid :: bit160
  pu_vType :: u8

fun push_run :: "pushop list \<Rightarrow> spath \<Rightarrow> (int \<times> spath) option" where
  "push_run [] p = Some (0, p)"
| "push_run (x # xs) p = do {
     (r, p1) \<leftarrow> PushV (pu_bPos x) (pu_vPos x) (pu_hot x) (pu_dur x) (pu_bid x) (pu_vType x) p;
     if r \<noteq> 0 then Some (r, p1) else push_run xs p1 }"

definition dur_left :: "bagplan \<Rightarrow> pushop list \<Rightarrow> nat \<Rightarrow> int" where
  "dur_left bg xs b = tb_avail_dur (bp_BlockList (bg_base bg) ! b)
     - (\<Sum>x \<leftarrow> filter (\<lambda>x. unat (pu_bPos x) = b) xs. pu_dur x)"

definition push_inv :: "bagplan \<Rightarrow> pushop list \<Rightarrow> spath \<Rightarrow> bool" where
  "push_inv bg xs p \<longleftrightarrow> spath_ok p \<and> sp_nodeNum p = bg_nodeNum bg \<and>
     sp_blockNum p = int (length (bp_BlockList (bg_base bg))) \<and>
     sp_len p = int (length xs) \<and> sp_used p = map pu_vPos xs \<and>
     (\<forall>x \<in> set xs. sp_bPos p ! unat (pu_vPos x) = pu_bPos x) \<and>
     (\<forall>b < length (bp_BlockList (bg_base bg)). sp_durList p ! b = dur_left bg xs b) \<and>
     sp_hot p = (\<Sum>x \<leftarrow> xs. pu_hot x) \<and> sp_bid p = foldl (OR) 0 (map pu_bid xs)"

definition push_fits :: "bagplan \<Rightarrow> pushop \<Rightarrow> bool" where
  "push_fits bg x \<longleftrightarrow> unat (pu_bPos x) < length (bp_BlockList (bg_base bg)) \<and> uint (pu_vPos x) < bg_nodeNum bg"

definition demo_spath :: spath where
  "demo_spath = \<lparr>sp_addr = 0, sp_nodeNum = 0, sp_blockNum = 0, sp_len = 0, sp_hot = 0, sp_dist = 0, sp_cross = 0, sp_clash = 0,
     sp_firstL = 0, sp_score = 0, sp_next = 0, sp_bid = 0, sp_missLevel = 0, sp_vPos = replicate kPathLimit 0,
     sp_bPos = replicate kPathLimit 0, sp_vNumList = replicate kBlockLimit 0, sp_durList = replicate kBlockLimit 0,
     sp_rNeedList = replicate kBlockLimit 0, sp_rNumList = replicate kBlockLimit 0, sp_isInit = False,
     sp_hash = 0, sp_hashPointSet = 0, sp_hashFrom = 0\<rparr>"

definition demo_bag :: bagplan where
  "demo_bag = (BagPlan_new (BasePlan_new\<lparr>bp_BlockList := [TimeBlock_new 0 1000 ''20160711'' 900 0 8]\<rparr>))\<lparr>bg_nodeNum := 3\<rparr>"

definition demo_push :: "u8 \<Rightarrow> int \<Rightarrow> pushop" where
  "demo_push v dur = \<lparr>pu_bPos = 0, pu_vPos = v, pu_hot = 1, pu_dur = dur, pu_bid = 0, pu_vType = 0\<rparr>"

text \<open>The restaurants among the first \<open>k\<close> additions that are in block \<open>b\<close>, and what the first pass
  remembers of them.\<close>

definition pos_at :: "spath \<Rightarrow> nat \<Rightarrow> u8" where "pos_at p i = sp_vPos p ! i"
definition blk_at :: "spath \<Rightarrow> nat \<Rightarrow> u8" where "blk_at p i = sp_bPos p ! unat (pos_at p i)"
definition type_at :: "bagplan \<Rightarrow> spath \<Rightarrow> nat \<Rightarrow> u8" where "type_at bg p i = GetVType bg (blk_at p i) (pos_at p i)"

definition rests :: "bagplan \<Rightarrow> spath \<Rightarrow> nat \<Rightarrow> nat \<Rightarrow> nat list" where
  "rests bg p b k = filter (\<lambda>i. unat (blk_at p i) = b \<and> has_flag (type_at bg p i) NODE_FUNC_PLACE_RESTAURANT) [0..<k]"

fun pair_of :: "nat list \<Rightarrow> int \<times> int" where
  "pair_of [] = (-1, -1)"
| "pair_of [i] = (int i, -1)"
| "pair_of (i # j # js) = (int i, int j)"

definition order_at :: "bagplan \<Rightarrow> spath \<Rightarrow> nat \<Rightarrow> u8 \<Rightarrow> placeorder" where
  "order_at bg p i t = \<lparr>po_place = bg_posPList bg ! unat (pos_at p i),
     po_date = kn_close_date (bp_KeyNode (bg_base bg) ! unat (blk_at p i)), po_index = int i, po_type = t\<rparr>"

definition meal_at :: "bagplan \<Rightarrow> spath \<Rightarrow> nat \<Rightarrow> u8" where
  "meal_at bg p i =
     (let rs = rests bg p (unat (blk_at p i)) (nat (sp_len p)) in
      if \<not> has_flag (type_at bg p i) NODE_FUNC_PLACE_RESTAURANT then NODE_FUNC_PLACE_VIEW_SHOP
      else if length rs = 1 then type_at bg p i
      else if i = hd rs then NODE_FUNC_PLACE_REST_LUNCH
      else NODE_FUNC_PLACE_REST_SUPPER)"

definition adapt_ok :: "bagplan \<Rightarrow> spath \<Rightarrow> bool" where
  "adapt_ok bg p \<longleftrightarrow> spath_ok p \<and> sp_nodeNum p = bg_nodeNum bg \<and> bg_nodeNum bg = int (length (bg_posPList bg)) \<and>
     sp_blockNum p = GetBlockNum (bg_base bg) \<and> length (bp_BlockList (bg_base bg)) \<le> length (bp_KeyNode (bg_base bg))"

section \<open>Lemmas\<close>

lemma distinct_bytes: "distinct vs \<Longrightarrow> \<forall>v \<in> set vs. unat (v :: u8) < n \<Longrightarrow> length vs \<le> n"
proof -
  assume a: "distinct vs" "\<forall>v \<in> set vs. unat v < n"
  have "length vs = card (unat ` set vs)" using a(1) by (simp add: distinct_card card_image inj_on_def word_unat_eq_iff)
  also have "\<dots> \<le> card {..<n}" using a(2) by (intro card_mono) auto
  finally show ?thesis by simp
qed

lemma uint_less: "uint (v :: 'a::len word) < int n \<longleftrightarrow> unat v < n"
  by (metis of_nat_less_iff uint_nat)

lemma push_step:
  assumes inv: "push_inv bg xs p" and fit: "push_fits bg x" and new: "pu_vPos x \<notin> pu_vPos ` set xs"
    and room: "int (length xs) < bg_nodeNum bg"
  obtains q where "PushV (pu_bPos x) (pu_vPos x) (pu_hot x) (pu_dur x) (pu_bid x) (pu_vType x) p = Some (0, q)"
    "push_inv bg (xs @ [x]) q"
proof -
  note I = inv [unfolded push_inv_def spath_ok_def]
  obtain n where n: "bg_nodeNum bg = int n" using room by (metis nonneg_int_cases of_nat_0_le_iff order.strict_implies_order order.trans)
  have b: "unat (pu_bPos x) < length (bp_BlockList (bg_base bg))" "unat (pu_vPos x) < n" "length xs < n" "n \<le> kPathLimit"
    "length (bp_BlockList (bg_base bg)) \<le> kBlockLimit"
    using fit room I n by (auto simp: push_fits_def uint_less)
  have range: "\<not> (uint (pu_bPos x) \<ge> sp_blockNum p \<or> uint (pu_vPos x) \<ge> sp_nodeNum p)" "\<not> sp_len p \<ge> sp_nodeNum p"
    "\<not> (sp_len p < 0 \<or> nat (sp_len p) \<ge> kPathLimit \<or> unat (pu_vPos x) \<ge> kPathLimit \<or> unat (pu_bPos x) \<ge> kBlockLimit)"
    using I b n by (auto simp: uint_bound)
  define q where "q = push_body (pu_bPos x) (pu_vPos x) (pu_hot x) (pu_dur x) (pu_bid x) (pu_vType x) p"
  have P: "PushV (pu_bPos x) (pu_vPos x) (pu_hot x) (pu_dur x) (pu_bid x) (pu_vType x) p = Some (0, q)"
    unfolding PushV_def using range by (simp only: if_False q_def)
  note qs = q_def push_body_def Let_def upd_def
  have arr: "length (sp_vPos q) = kPathLimit" "length (sp_bPos q) = kPathLimit" "length (sp_vNumList q) = kBlockLimit"
    "length (sp_durList q) = kBlockLimit" "length (sp_rNeedList q) = kBlockLimit" "length (sp_rNumList q) = kBlockLimit"
    using I by (simp_all add: qs)
  have used: "sp_used q = map pu_vPos (xs @ [x])"
    using I b by (auto simp: sp_used_def qs nat_add_distrib take_list_update_snoc)
  have bpos: "sp_bPos q ! unat (pu_vPos y) = pu_bPos y" if "y \<in> set (xs @ [x])" for y
  proof (cases "y = x")
    case False
    then have y: "y \<in> set xs" using that by simp
    then have "pu_vPos y \<in> pu_vPos ` set xs" by (rule imageI)
    then have "unat (pu_vPos x) \<noteq> unat (pu_vPos y)" using new by (metis word_unat_eq_iff)
    then show ?thesis using I b y by (simp add: qs)
  qed (use I b in \<open>simp add: qs\<close>)
  have durs: "sp_durList q ! c = dur_left bg (xs @ [x]) c" if "c < length (bp_BlockList (bg_base bg))" for c
    using I b that by (cases "c = unat (pu_bPos x)") (auto simp: qs dur_left_def)
  have fits: "uint (pu_vPos y) < sp_nodeNum q \<and> uint (sp_bPos q ! unat (pu_vPos y)) < sp_blockNum q" if "y \<in> set (xs @ [x])" for y
  proof (cases "y = x")
    case True
    then show ?thesis using fit bpos [OF that] I by (simp add: push_fits_def qs uint_less)
  next
    case False
    then have y: "y \<in> set xs" using that by simp
    then have "pu_vPos y \<in> set (sp_used p)" using I by simp
    then show ?thesis using I y bpos [OF that] by (auto simp: qs)
  qed
  show thesis
    by (rule that [OF P])
      (use arr used bpos durs fits I b n in \<open>auto simp: push_inv_def spath_ok_def qs\<close>)
qed

lemma push_run_ok:
  "push_inv bg xs p \<Longrightarrow> \<forall>y \<in> set ys. push_fits bg y \<Longrightarrow> distinct (map pu_vPos (xs @ ys)) \<Longrightarrow>
    int (length xs + length ys) \<le> bg_nodeNum bg \<Longrightarrow> \<exists>q. push_run ys p = Some (0, q) \<and> push_inv bg (xs @ ys) q"
proof (induction ys arbitrary: xs p)
  case (Cons y ys)
  obtain q where "PushV (pu_bPos y) (pu_vPos y) (pu_hot y) (pu_dur y) (pu_bid y) (pu_vType y) p = Some (0, q)"
    "push_inv bg (xs @ [y]) q"
    using push_step [OF Cons.prems(1), of y] Cons.prems(2,3,4) by auto
  then show ?case using Cons.IH [of "xs @ [y]" q] Cons.prems by simp
qed simp

lemma SPath_Init_ok:
  assumes "arrays_ok p" "length (bp_BlockList (bg_base bg)) \<le> kBlockLimit" "0 \<le> bg_nodeNum bg" "bg_nodeNum bg \<le> int kPathLimit"
  obtains q where "SPath_Init bg p = Some q" "push_inv bg [] q"
proof -
  define q where "q = the (SPath_Init bg p)"
  have "SPath_Init bg p = Some q" using assms(2) by (simp add: q_def SPath_Init_def Let_def)
  moreover have "push_inv bg [] q"
    using assms by (auto simp: q_def SPath_Init_def Let_def push_inv_def spath_ok_def arrays_ok_def sp_used_def dur_left_def
        GetBlockNum_def nth_append)
  ultimately show thesis by (rule that)
qed

lemma copy_pos_spec:
  assumes "i + length vs \<le> length (sp_vPos p)" "\<forall>v \<in> set vs. unat v < length (sp_bPos p)"
  shows "\<exists>B. copy_pos vs i sp p = p\<lparr>sp_vPos := take i (sp_vPos p) @ vs @ drop (i + length vs) (sp_vPos p), sp_bPos := B\<rparr> \<and>
    length B = length (sp_bPos p) \<and> (\<forall>v \<in> set vs. B ! unat v = sp_bPos sp ! unat v)  \<and>
    (\<forall>v. v \<notin> set vs \<longrightarrow> B ! unat v = sp_bPos p ! unat v)"
  using assms
proof (induction vs arbitrary: i p)
  case Nil
  then show ?case by (intro exI [of _ "sp_bPos p"]) simp
next
  case (Cons v vs)
  define p1 where "p1 = p\<lparr>sp_vPos := (sp_vPos p)[i := v], sp_bPos := (sp_bPos p)[unat v := sp_bPos sp ! unat v]\<rparr>"
  have "Suc i + length vs \<le> length (sp_vPos p1)" "\<forall>w \<in> set vs. unat w < length (sp_bPos p1)"
    using Cons.prems by (auto simp: p1_def)
  from Cons.IH [OF this] obtain B where
    B: "copy_pos vs (Suc i) sp p1 = p1\<lparr>sp_vPos := take (Suc i) (sp_vPos p1) @ vs @ drop (Suc i + length vs) (sp_vPos p1), sp_bPos := B\<rparr>"
    "length B = length (sp_bPos p1)" "\<forall>w \<in> set vs. B ! unat w = sp_bPos sp ! unat w"
    "\<forall>w. w \<notin> set vs \<longrightarrow> B ! unat w = sp_bPos p1 ! unat w" by blast
  have "take (Suc i) (sp_vPos p1) @ vs @ drop (Suc i + length vs) (sp_vPos p1) =
      take i (sp_vPos p) @ (v # vs) @ drop (i + length (v # vs)) (sp_vPos p)"
    using Cons.prems(1) by (simp add: p1_def take_list_update_snoc)
  moreover have "B ! unat v = sp_bPos sp ! unat v"
    using B(3,4) Cons.prems(2) by (cases "v \<in> set vs") (auto simp: p1_def)
  moreover have "B ! unat w = sp_bPos p ! unat w" if "w \<notin> set (v # vs)" for w
  proof -
    have "unat v \<noteq> unat w" using that by (auto simp: word_unat_eq_iff)
    then show ?thesis using B(4) that by (simp add: p1_def)
  qed
  moreover have "copy_pos (v # vs) i sp p = copy_pos vs (Suc i) sp p1" by (simp add: p1_def)
  ultimately show ?case using B(1,2,3) by (intro exI [of _ B]) (simp add: p1_def)
qed

lemma copy_head_nth: "length src = length dst \<Longrightarrow> i < n \<Longrightarrow> i < length dst \<Longrightarrow> copy_head n src dst ! i = src ! i"
  by (simp add: copy_head_def nth_append)

lemma length_copy_head: "length src = length dst \<Longrightarrow> length (copy_head n src dst) = length dst"
  by (simp add: copy_head_def)

lemma SPath_Copy_spec:
  assumes ok: "spath_ok sp" and arr: "arrays_ok p"
  shows "\<exists>q. SPath_Copy sp p = Some q \<and> spath_ok q \<and> sp_len q = sp_len sp \<and>
    (\<forall>i. 0 \<le> i \<longrightarrow> GetVPos i q = GetVPos i sp) \<and> (\<forall>v \<in> set (sp_used sp). GetBPos v q = GetBPos v sp) \<and>
    (\<forall>b. GetDur b q = GetDur b sp \<and> GetVNum b q = GetVNum b sp \<and> GetRNeed b q = GetRNeed b sp \<and> GetRNum b q = GetRNum b sp) \<and>
    sp_missLevel q = sp_missLevel sp \<and> sp_clash q = sp_clash sp \<and> sp_score q = sp_score sp \<and> sp_hash q = sp_hash sp \<and>
    sp_hot q = sp_hot sp \<and> sp_used q = sp_used sp \<and> (\<forall>v \<in> set (sp_used sp). sp_bPos q ! unat v = sp_bPos sp ! unat v)"
proof -
  note S = ok [unfolded spath_ok_def] and A = arr [unfolded arrays_ok_def]
  define vs where "vs = sp_used sp"
  obtain n where n: "sp_len sp = int n" "n \<le> kPathLimit" using S nonneg_int_cases by (metis of_nat_le_iff order_trans)
  obtain b where b: "sp_blockNum sp = int b" "b \<le> kBlockLimit" using S nonneg_int_cases by (metis of_nat_le_iff)
  obtain m where m: "sp_nodeNum sp = int m" "m \<le> kPathLimit" using S nonneg_int_cases by (metis of_nat_le_iff order_trans)
  have vs: "length vs = n" "\<forall>v \<in> set vs. unat v < m" using S n m by (auto simp: vs_def sp_used_def uint_less)
  define p1 where "p1 = copy_scalars sp p"
  have pre: "0 + length vs \<le> length (sp_vPos p1)" "\<forall>v \<in> set vs. unat v < length (sp_bPos p1)"
    using vs A n m by (auto simp: p1_def copy_scalars_def intro: less_le_trans)
  obtain B where B: "copy_pos vs 0 sp p1 = p1\<lparr>sp_vPos := take 0 (sp_vPos p1) @ vs @ drop (0 + length vs) (sp_vPos p1), sp_bPos := B\<rparr>"
    "length B = length (sp_bPos p1)" "\<forall>v \<in> set vs. B ! unat v = sp_bPos sp ! unat v"
    using copy_pos_spec [OF pre, of sp] by blast
  define q where "q = (copy_pos vs 0 sp p1)\<lparr>sp_durList := copy_head b (sp_durList sp) (sp_durList p1),
               sp_vNumList := copy_head b (sp_vNumList sp) (sp_vNumList p1),
               sp_rNeedList := copy_head b (sp_rNeedList sp) (sp_rNeedList p1),
               sp_rNumList := copy_head b (sp_rNumList sp) (sp_rNumList p1),
               sp_bid := sp_bid sp, sp_isInit := True\<rparr>"
  have "\<not> (nat (sp_len sp) > kPathLimit \<or> nat (sp_blockNum sp) > kBlockLimit \<or> (\<exists>v \<in> set vs. unat v \<ge> kPathLimit))"
    using n b vs m by (auto simp: not_le)
  then have C: "SPath_Copy sp p = Some q"
    by (simp add: SPath_Copy_def Let_def q_def B(1) b flip: vs_def [unfolded sp_used_def] p1_def)
  have f: "sp_vPos q = vs @ drop n (sp_vPos p)" "sp_bPos q = B" "sp_len q = int n" "sp_blockNum q = int b" "sp_nodeNum q = int m"
    "sp_durList q = copy_head b (sp_durList sp) (sp_durList p)" "sp_vNumList q = copy_head b (sp_vNumList sp) (sp_vNumList p)"
    "sp_rNeedList q = copy_head b (sp_rNeedList sp) (sp_rNeedList p)" "sp_rNumList q = copy_head b (sp_rNumList sp) (sp_rNumList p)"
    "sp_missLevel q = sp_missLevel sp" "sp_clash q = sp_clash sp" "sp_score q = sp_score sp" "sp_hash q = sp_hash sp" "sp_hot q = sp_hot sp"
    unfolding q_def B(1) unfolding p1_def copy_scalars_def by (simp_all add: vs n b m)
  have used: "sp_used q = vs" using vs(1) by (simp add: sp_used_def f)
  have len: "length B = kPathLimit" using B(2) A by (simp add: p1_def copy_scalars_def)
  have "spath_ok q"
    using S A n b m vs len B(3) by (auto simp: spath_ok_def used f length_copy_head vs_def)
  moreover have "GetVPos i q = GetVPos i sp" if "0 \<le> i" for i
    using that n vs(1) S A by (auto simp: GetVPos_def f arr_get_def nth_append vs_def sp_used_def)
  moreover have "GetBPos v q = GetBPos v sp" if "v \<in> set (sp_used sp)" for v
    using that B(3) m len S by (auto simp: GetBPos_def f arr_get_def vs_def)
  moreover have "GetDur c q = GetDur c sp \<and> GetVNum c q = GetVNum c sp \<and> GetRNeed c q = GetRNeed c sp \<and> GetRNum c q = GetRNum c sp" for c
    using b S A by (auto simp: GetDur_def GetVNum_def GetRNeed_def GetRNum_def f arr_get_def uint_bound length_copy_head copy_head_nth)
  ultimately show ?thesis using C f(3,10-14) n used B(3) f(2) by (auto simp: vs_def)
qed

section \<open>Properties\<close>

text \<open>C19: Starting a candidate for a request with at most 100 positions and 40 blocks and adding places at
  different positions succeeds every time; afterwards the candidate lists the positions in the
  order of the additions, knows the block of each, and holds for every block the available time
  less the durations added to it; heat and bit set are those of the additions together.\<close>

theorem SPath_additions:
  assumes "arrays_ok p" "length (bp_BlockList (bg_base bg)) \<le> kBlockLimit" "0 \<le> bg_nodeNum bg" "bg_nodeNum bg \<le> int kPathLimit"
    and "\<forall>x \<in> set xs. push_fits bg x" "distinct (map pu_vPos xs)"
  shows "\<exists>p0 q. SPath_Init bg p = Some p0 \<and> push_run xs p0 = Some (0, q) \<and>
    (\<forall>i < length xs. GetVPos (int i) q = Some (pu_vPos (xs ! i)) \<and> GetBPos (pu_vPos (xs ! i)) q = Some (pu_bPos (xs ! i))) \<and>
    (\<forall>b. unat b < length (bp_BlockList (bg_base bg)) \<longrightarrow> GetDur b q = Some (dur_left bg xs (unat b))) \<and>
    sp_len q = int (length xs) \<and> sp_hot q = (\<Sum>x \<leftarrow> xs. pu_hot x) \<and> sp_bid q = foldl (OR) 0 (map pu_bid xs)"
proof -
  obtain p0 where p0: "SPath_Init bg p = Some p0" "push_inv bg [] p0" by (rule SPath_Init_ok [OF assms(1-4)])
  obtain n where n: "bg_nodeNum bg = int n" using assms(3) nonneg_int_cases by blast
  have "length (map pu_vPos xs) \<le> n"
    by (rule distinct_bytes [OF assms(6)]) (use assms(5) n in \<open>auto simp: push_fits_def uint_less\<close>)
  then obtain q where q: "push_run xs p0 = Some (0, q)" "push_inv bg xs q"
    using push_run_ok [OF p0(2), of xs] assms(5,6) n by auto
  note Q = q(2) [unfolded push_inv_def spath_ok_def]
  have "GetVPos (int i) q = Some (pu_vPos (xs ! i)) \<and> GetBPos (pu_vPos (xs ! i)) q = Some (pu_bPos (xs ! i))" if i: "i < length xs" for i
  proof -
    have u: "sp_used q ! i = pu_vPos (xs ! i)" using Q i by simp
    then have v: "sp_vPos q ! i = pu_vPos (xs ! i)" using Q i by (simp add: sp_used_def)
    have "unat (pu_vPos (xs ! i)) < n" using assms(5) i n by (auto simp: push_fits_def uint_less)
    then show ?thesis
      using Q i v n by (auto simp: GetVPos_def GetBPos_def arr_get_def uint_bound uint_less)
  qed
  moreover have "GetDur b q = Some (dur_left bg xs (unat b))" if "unat b < length (bp_BlockList (bg_base bg))" for b
    using Q that assms(2) by (auto simp: GetDur_def arr_get_def uint_bound)
  ultimately show ?thesis using p0(1) q(1) Q by blast
qed

lemma demo_spath_arrays: "arrays_ok demo_spath"
  by (simp add: arrays_ok_def demo_spath_def)

theorem SPath_additions_witness:
  "\<exists>p0 q. SPath_Init demo_bag demo_spath = Some p0 \<and> push_run [demo_push 2 300, demo_push 1 100] p0 = Some (0, q) \<and>
    GetDur 0 q = Some 500"
proof -
  let ?xs = "[demo_push 2 300, demo_push 1 100]"
  have h: "length (bp_BlockList (bg_base demo_bag)) = 1" "bg_nodeNum demo_bag = 3"
    by (simp_all add: demo_bag_def BagPlan_new_def)
  have "\<forall>x \<in> set ?xs. push_fits demo_bag x" using h by (simp add: push_fits_def demo_push_def)
  moreover have "distinct (map pu_vPos ?xs)" by (simp add: demo_push_def)
  moreover have "dur_left demo_bag ?xs (unat (0 :: u8)) = 500"
    by (simp add: dur_left_def demo_push_def demo_bag_def BagPlan_new_def TimeBlock_new_def)
  moreover have "unat (0 :: u8) < length (bp_BlockList (bg_base demo_bag))" using h by simp
  ultimately show ?thesis
    using SPath_additions [OF demo_spath_arrays, of demo_bag ?xs] h by (fastforce simp: kPathLimit_def kBlockLimit_def)
qed

text \<open>C22: Copying a well-formed candidate over any other one gives a well-formed candidate that answers
  every lookup about its positions and blocks as the original does and compares to every
  other candidate as the original does.\<close>

theorem SPath_Copy_same:
  assumes ok: "spath_ok sp" and arr: "arrays_ok p"
  shows "\<exists>q. SPath_Copy sp p = Some q \<and> spath_ok q \<and> sp_len q = sp_len sp \<and>
    (\<forall>i. 0 \<le> i \<longrightarrow> GetVPos i q = GetVPos i sp) \<and> (\<forall>v \<in> set (sp_used sp). GetBPos v q = GetBPos v sp) \<and>
    (\<forall>b. GetDur b q = GetDur b sp \<and> GetVNum b q = GetVNum b sp \<and> GetRNeed b q = GetRNeed b sp \<and> GetRNum b q = GetRNum b sp) \<and>
    (\<forall>r. SPathCmp q r = SPathCmp sp r \<and> SPathCmp r q = SPathCmp r sp)"
proof -
  obtain q where q: "SPath_Copy sp p = Some q" "spath_ok q" "sp_len q = sp_len sp"
    "\<forall>i. 0 \<le> i \<longrightarrow> GetVPos i q = GetVPos i sp" "\<forall>v \<in> set (sp_used sp). GetBPos v q = GetBPos v sp"
    "\<forall>b. GetDur b q = GetDur b sp \<and> GetVNum b q = GetVNum b sp \<and> GetRNeed b q = GetRNeed b sp \<and> GetRNum b q = GetRNum b sp"
    "sp_missLevel q = sp_missLevel sp" "sp_clash q = sp_clash sp" "sp_score q = sp_score sp" "sp_hash q = sp_hash sp"
    using SPath_Copy_spec [OF ok arr] by blast
  have "SPathCmp q r = SPathCmp sp r \<and> SPathCmp r q = SPathCmp r sp" for r by (simp add: SPathCmp_def q(7-10))
  then show ?thesis using q(1-6) by blast
qed

theorem SPath_Copy_same_witness:
  "\<exists>q. SPath_Copy demo_spath demo_spath = Some q \<and> spath_ok q"
proof -
  have "spath_ok demo_spath" by (simp add: spath_ok_def demo_spath_def sp_used_def)
  then show ?thesis using SPath_Copy_same [OF _ demo_spath_arrays] by blast
qed

lemma adapt_lookups:
  assumes "adapt_ok bg p" "i < nat (sp_len p)"
  shows "GetVPos (int i) p = Some (pos_at p i)" "GetBPos (pos_at p i) p = Some (blk_at p i)"
    "unat (blk_at p i) < length (bp_BlockList (bg_base bg))"
    "GetPosPlace bg (pos_at p i) = Some (bg_posPList bg ! unat (pos_at p i))"
    "GetKey (bg_base bg) (uint (blk_at p i)) = Some (bp_KeyNode (bg_base bg) ! unat (blk_at p i))"
proof -
  note A = assms(1) [unfolded adapt_ok_def spath_ok_def]
  have i: "int i < sp_len p" "i < kPathLimit" using assms(2) A by auto
  then have "pos_at p i \<in> set (sp_used p)"
    using A by (auto simp: sp_used_def pos_at_def in_set_conv_nth intro!: exI [of _ i])
  then have v: "uint (pos_at p i) < sp_nodeNum p" "uint (blk_at p i) < sp_blockNum p" using A by (auto simp: blk_at_def)
  show "GetVPos (int i) p = Some (pos_at p i)" using i A by (simp add: GetVPos_def pos_at_def)
  have "unat (pos_at p i) < kPathLimit" using v A by (metis order_less_le_trans uint_less)
  then show "GetBPos (pos_at p i) p = Some (blk_at p i)" using v A by (simp add: GetBPos_def blk_at_def arr_get_def)
  show b: "unat (blk_at p i) < length (bp_BlockList (bg_base bg))" using v A by (simp add: GetBlockNum_def uint_less)
  show "GetPosPlace bg (pos_at p i) = Some (bg_posPList bg ! unat (pos_at p i))" using v A by (simp add: GetPosPlace_def)
  have "unat (blk_at p i) < length (bp_KeyNode (bg_base bg))" using b A by linarith
  then show "GetKey (bg_base bg) (uint (blk_at p i)) = Some (bp_KeyNode (bg_base bg) ! unat (blk_at p i))"
    by (simp add: GetKey_def arr_get_def)
qed

lemma rests_Suc:
  "rests bg p b (Suc i) = rests bg p b i @
    (if unat (blk_at p i) = b \<and> has_flag (type_at bg p i) NODE_FUNC_PLACE_RESTAURANT then [i] else [])"
  by (simp add: rests_def)

lemma pair_of_snoc:
  "pair_of (xs @ [i]) = (if fst (pair_of xs) < 0 then (int i, snd (pair_of xs))
    else if snd (pair_of xs) < 0 then (fst (pair_of xs), int i) else pair_of xs)"
  by (cases xs rule: pair_of.cases) auto

lemma rest_loop_spec:
  assumes ok: "adapt_ok bg p"
  shows "i + k = nat (sp_len p) \<Longrightarrow> rl = map (\<lambda>b. pair_of (rests bg p b i)) [0..<length (bp_BlockList (bg_base bg))] \<Longrightarrow>
    rest_loop bg p i k rl = Some (0, map (\<lambda>b. pair_of (rests bg p b (i + k))) [0..<length (bp_BlockList (bg_base bg))])"
proof (induction k arbitrary: i rl)
  case (Suc k)
  have i: "i < nat (sp_len p)" using Suc.prems(1) by simp
  note L = adapt_lookups [OF ok i]
  define rl' where "rl' = map (\<lambda>b. pair_of (rests bg p b (Suc i))) [0..<length (bp_BlockList (bg_base bg))]"
  have same: "rl' = rl" if "\<not> has_flag (type_at bg p i) NODE_FUNC_PLACE_RESTAURANT"
    using that by (simp add: rl'_def Suc.prems(2) rests_Suc)
  have upd: "rl' = rl[unat (blk_at p i) := pair_of (rests bg p (unat (blk_at p i)) i @ [i])]"
    if "has_flag (type_at bg p i) NODE_FUNC_PLACE_RESTAURANT"
    by (rule nth_equalityI) (use that in \<open>auto simp: rl'_def Suc.prems(2) rests_Suc nth_list_update\<close>)
  have rl: "rl ! unat (blk_at p i) = pair_of (rests bg p (unat (blk_at p i)) i)" using L(3) by (simp add: Suc.prems(2))
  define c where "c = rl ! unat (blk_at p i)"
  have upd': "rl' = (if fst c < 0 then rl[unat (blk_at p i) := (int i, snd c)]
      else if snd c < 0 then rl[unat (blk_at p i) := (fst c, int i)] else rl)"
    if "has_flag (type_at bg p i) NODE_FUNC_PLACE_RESTAURANT"
    unfolding upd [OF that] pair_of_snoc rl [symmetric] c_def by auto
  have len: "length rl = length (bp_BlockList (bg_base bg))" by (simp add: Suc.prems(2))
  have "rest_loop bg p i (Suc k) rl = rest_loop bg p (Suc i) k rl'"
    using L len same upd' by (auto simp flip: type_at_def c_def)
  then show ?case using Suc.IH [of "Suc i" rl'] Suc.prems(1) by (simp add: rl'_def)
qed simp

lemma meal_type_at:
  assumes "i < nat (sp_len p)" "length (rests bg p (unat (blk_at p i)) (nat (sp_len p))) \<le> 2"
  shows "meal_type (int i) (pair_of (rests bg p (unat (blk_at p i)) (nat (sp_len p)))) (type_at bg p i) = Some (meal_at bg p i)"
proof (cases "has_flag (type_at bg p i) NODE_FUNC_PLACE_RESTAURANT")
  case True
  define rs where "rs = rests bg p (unat (blk_at p i)) (nat (sp_len p))"
  have "i \<in> set rs" using True assms(1) by (simp add: rs_def rests_def)
  then show ?thesis
    using assms(2) True unfolding meal_at_def rs_def [symmetric] Let_def
    by (cases rs rule: pair_of.cases) (auto simp: meal_type_def)
qed (simp add: meal_type_def meal_at_def Let_def)

lemma order_loop_spec:
  assumes ok: "adapt_ok bg p"
    and rl: "rl = map (\<lambda>b. pair_of (rests bg p b (nat (sp_len p)))) [0..<length (bp_BlockList (bg_base bg))]"
  shows "i + k = nat (sp_len p) \<Longrightarrow> length orders = i \<Longrightarrow>
    (0 \<le> lastB \<Longrightarrow> date = kn_close_date (bp_KeyNode (bg_base bg) ! nat lastB)) \<Longrightarrow>
    \<exists>ret out. order_loop bg p rl i k lastB date orders = Some (ret, out) \<and> ret \<in> {0, 1} \<and>
      (ret = 0 \<longleftrightarrow> (\<forall>j. i \<le> j \<and> j < nat (sp_len p) \<longrightarrow> meal_type (int j) (rl ! unat (blk_at p j)) (type_at bg p j) \<noteq> None)) \<and>
      (ret = 0 \<longrightarrow> out = orders @ map (\<lambda>j. order_at bg p j (the (meal_type (int j) (rl ! unat (blk_at p j)) (type_at bg p j)))) [i..<i + k])"
proof (induction k arbitrary: i lastB date orders)
  case (Suc k)
  have i: "i < nat (sp_len p)" using Suc.prems(1) by simp
  note L = adapt_lookups [OF ok i]
  have date: "(if uint (blk_at p i) \<noteq> lastB then map_option kn_close_date (GetKey (bg_base bg) (uint (blk_at p i))) else Some date)
      = Some (kn_close_date (bp_KeyNode (bg_base bg) ! unat (blk_at p i)))"
    using L(5) Suc.prems(3) by auto
  show ?case
  proof (cases "meal_type (int i) (rl ! unat (blk_at p i)) (type_at bg p i)")
    case None
    then have "order_loop bg p rl i (Suc k) lastB date orders = Some (1, orders)"
      using L date by (simp flip: type_at_def)
    then show ?thesis using None i by auto
  next
    case (Some t)
    have o: "order_at bg p i t = \<lparr>po_place = bg_posPList bg ! unat (pos_at p i),
        po_date = kn_close_date (bp_KeyNode (bg_base bg) ! unat (blk_at p i)), po_index = int (length orders), po_type = t\<rparr>"
      by (simp add: order_at_def Suc.prems(2))
    have step: "order_loop bg p rl i (Suc k) lastB date orders = order_loop bg p rl (Suc i) k (uint (blk_at p i))
        (kn_close_date (bp_KeyNode (bg_base bg) ! unat (blk_at p i))) (orders @ [order_at bg p i t])"
      using L date Some by (simp add: o flip: type_at_def)
    have "\<exists>ret out. order_loop bg p rl (Suc i) k (uint (blk_at p i))
        (kn_close_date (bp_KeyNode (bg_base bg) ! unat (blk_at p i))) (orders @ [order_at bg p i t]) = Some (ret, out) \<and> ret \<in> {0, 1} \<and>
      (ret = 0 \<longleftrightarrow> (\<forall>j. Suc i \<le> j \<and> j < nat (sp_len p) \<longrightarrow> meal_type (int j) (rl ! unat (blk_at p j)) (type_at bg p j) \<noteq> None)) \<and>
      (ret = 0 \<longrightarrow> out = (orders @ [order_at bg p i t]) @
         map (\<lambda>j. order_at bg p j (the (meal_type (int j) (rl ! unat (blk_at p j)) (type_at bg p j)))) [Suc i..<Suc i + k])"
      by (rule Suc.IH) (use Suc.prems(1,2) in auto)
    then obtain ret out where R: "order_loop bg p rl (Suc i) k (uint (blk_at p i))
        (kn_close_date (bp_KeyNode (bg_base bg) ! unat (blk_at p i))) (orders @ [order_at bg p i t]) = Some (ret, out)" "ret \<in> {0, 1}"
      "ret = 0 \<longleftrightarrow> (\<forall>j. Suc i \<le> j \<and> j < nat (sp_len p) \<longrightarrow> meal_type (int j) (rl ! unat (blk_at p j)) (type_at bg p j) \<noteq> None)"
      "ret = 0 \<longrightarrow> out = (orders @ [order_at bg p i t]) @
         map (\<lambda>j. order_at bg p j (the (meal_type (int j) (rl ! unat (blk_at p j)) (type_at bg p j)))) [Suc i..<Suc i + k]" by blast
    have "[i..<i + Suc k] = i # [Suc i..<Suc i + k]" by (simp add: upt_conv_Cons)
    then show ?thesis using step R Some all_from_step [of i] by auto
  qed
qed auto

lemma rests_third:
  assumes "adapt_ok bg p" "2 < length (rests bg p b (nat (sp_len p)))"
  obtains i where "i < nat (sp_len p)" "unat (blk_at p i) = b"
    "meal_type (int i) (pair_of (rests bg p b (nat (sp_len p)))) (type_at bg p i) = None"
proof -
  define rs where "rs = rests bg p b (nat (sp_len p))"
  obtain x y z zs where rs: "rs = x # y # z # zs"
    using assms(2) by (cases rs rule: pair_of.cases; cases "tl (tl rs)") (auto simp: rs_def)
  have "distinct rs" by (simp add: rs_def rests_def)
  moreover have "z \<in> set rs" using rs by simp
  then have "z < nat (sp_len p)" "unat (blk_at p z) = b" "has_flag (type_at bg p z) NODE_FUNC_PLACE_RESTAURANT"
    by (auto simp: rs_def rests_def)
  ultimately show thesis using that [of z] rs by (auto simp: meal_type_def simp flip: rs_def)
qed

lemma AdaptOrder_spec:
  assumes ok: "adapt_ok bg p"
  shows "\<exists>ret orders. AdaptOrder bg (Some p) [] = Some (ret, orders) \<and> ret \<in> {0, 1} \<and>
    (ret = 0 \<longleftrightarrow> (\<forall>b < length (bp_BlockList (bg_base bg)). length (rests bg p b (nat (sp_len p))) \<le> 2)) \<and>
    (ret = 0 \<longrightarrow> orders = map (\<lambda>i. order_at bg p i (meal_at bg p i)) [0..<nat (sp_len p)])"
proof -
  define n where "n = nat (sp_len p)"
  define rl where "rl = map (\<lambda>b. pair_of (rests bg p b n)) [0..<length (bp_BlockList (bg_base bg))]"
  have "replicate (nat (GetBlockNum (bg_base bg))) (-1, -1) = map (\<lambda>b. pair_of (rests bg p b 0)) [0..<length (bp_BlockList (bg_base bg))]"
    by (rule nth_equalityI) (auto simp: GetBlockNum_def rests_def)
  from rest_loop_spec [OF ok, of 0 n, OF _ this]
  have R: "rest_loop bg p 0 n (replicate (nat (GetBlockNum (bg_base bg))) (-1, -1)) = Some (0, rl)" by (simp add: n_def rl_def)
  obtain ret out where O: "order_loop bg p rl 0 n (-1) [] [] = Some (ret, out)" "ret \<in> {0, 1}"
    "ret = 0 \<longleftrightarrow> (\<forall>j. 0 \<le> j \<and> j < n \<longrightarrow> meal_type (int j) (rl ! unat (blk_at p j)) (type_at bg p j) \<noteq> None)"
    "ret = 0 \<longrightarrow> out = [] @ map (\<lambda>j. order_at bg p j (the (meal_type (int j) (rl ! unat (blk_at p j)) (type_at bg p j)))) [0..<0 + n]"
    using order_loop_spec [OF ok, of rl 0 n "[]" "-1" "[]"] by (auto simp: rl_def n_def)
  have rl: "rl ! unat (blk_at p j) = pair_of (rests bg p (unat (blk_at p j)) n)"
    "unat (blk_at p j) < length (bp_BlockList (bg_base bg))" if "j < n" for j
    using adapt_lookups(3) [OF ok] that by (auto simp: rl_def n_def)
  have few: "meal_type (int j) (rl ! unat (blk_at p j)) (type_at bg p j) = Some (meal_at bg p j)"
    if "j < n" "\<forall>b < length (bp_BlockList (bg_base bg)). length (rests bg p b n) \<le> 2" for j
    using meal_type_at [of j p bg] that rl [OF that(1)] by (simp add: n_def)
  have iff: "ret = 0 \<longleftrightarrow> (\<forall>b < length (bp_BlockList (bg_base bg)). length (rests bg p b n) \<le> 2)"
  proof
    assume 0: "ret = 0"
    show "\<forall>b < length (bp_BlockList (bg_base bg)). length (rests bg p b n) \<le> 2"
    proof (intro allI impI, rule ccontr)
      fix b assume b: "b < length (bp_BlockList (bg_base bg))" "\<not> length (rests bg p b n) \<le> 2"
      then obtain i where "i < n" "unat (blk_at p i) = b" "meal_type (int i) (pair_of (rests bg p b n)) (type_at bg p i) = None"
        using rests_third [OF ok, of b] by (auto simp: n_def)
      then show False using O(3) 0 rl by auto
    qed
  qed (use O(3) few in auto)
  have "out = map (\<lambda>i. order_at bg p i (meal_at bg p i)) [0..<n]" if "ret = 0"
    using O(4) that few iff by (auto intro!: map_cong)
  moreover have "AdaptOrder bg (Some p) [] = Some (ret, out)" using R O(1) by (simp add: AdaptOrder_def flip: n_def)
  ultimately show ?thesis using O(2) iff by (auto simp: n_def)
qed



end
