(* ===== verification/StdHeap.thy ===== *)
theory StdHeap
  imports PP_Prelude "HOL-Library.Multiset"
begin

text \<open>
  \<open>std::priority_queue\<close> over a \<open>std::vector\<close>, as the heaps of Route/bag use it: \<open>push_heap\<close> and
  \<open>pop_heap\<close> with their sift-up (\<open>sift_up\<close>) and their walk of the hole to a leaf (\<open>sift_down\<close>).

  The comparator is a parameter \<open>lt\<close>. It must be a strict weak ordering on the elements that are
  stored (locale \<open>weak_order\<close>, relative to the set \<open>C\<close>); then the vector stays a heap, its first
  element is one that no other exceeds, and pushing and popping change the contents by that
  element only (locale \<open>prio_queue\<close>). \<open>best_insert\<close>: a queue bounded by \<open>K\<close> that gives up its top
  for a better element holds the best \<open>K\<close> elements of what was inserted (\<open>best_of\<close>).
\<close>

definition par :: "nat \<Rightarrow> nat" where
  "par i = (i - 1) div 2"

function sift_up :: "('a \<Rightarrow> 'a \<Rightarrow> bool) \<Rightarrow> 'a list \<Rightarrow> nat \<Rightarrow> 'a \<Rightarrow> 'a list" where
  "sift_up lt xs h v =
     (if h > 0 \<and> lt (xs ! par h) v then sift_up lt (xs[h := xs ! par h]) (par h) v else xs[h := v])"
  by auto
termination
  by (relation "measure (\<lambda>(lt, xs, h, v). h)") (auto simp: par_def)

text \<open>The hole moves to a leaf, the larger child moving up; \<open>len\<close> is the heap's length.\<close>

function sift_down :: "('a \<Rightarrow> 'a \<Rightarrow> bool) \<Rightarrow> 'a list \<Rightarrow> nat \<Rightarrow> nat \<Rightarrow> 'a list \<times> nat" where
  "sift_down lt xs h len =
     (if h < (len - 1) div 2 then
        (let c = 2 * (h + 1); c' = (if lt (xs ! c) (xs ! (c - 1)) then c - 1 else c)
         in sift_down lt (xs[h := xs ! c']) c' len)
      else if even len \<and> 0 < len \<and> h = (len - 2) div 2 then (xs[h := xs ! (2 * h + 1)], 2 * h + 1)
      else (xs, h))"
  by auto
termination
  by (relation "measure (\<lambda>(lt, xs, h, len). len - h)") (auto simp: Let_def split: if_splits)

definition pq_push :: "('a \<Rightarrow> 'a \<Rightarrow> bool) \<Rightarrow> 'a \<Rightarrow> 'a list \<Rightarrow> 'a list" where
  "pq_push lt v q = sift_up lt (q @ [v]) (length q) v"

definition pq_pop :: "('a \<Rightarrow> 'a \<Rightarrow> bool) \<Rightarrow> 'a list \<Rightarrow> 'a list" where
  "pq_pop lt q =
     (if length q > 1 then
        (let value = last q; (xs, h) = sift_down lt (butlast q) 0 (length q - 1)
         in sift_up lt xs h value)
      else [])"

text \<open>No element of \<open>rest\<close> is better than one of \<open>kept\<close>; and what a queue of \<open>K\<close> holds after \<open>vs\<close>.\<close>

definition dominates :: "('a \<Rightarrow> 'a \<Rightarrow> bool) \<Rightarrow> 'a multiset \<Rightarrow> 'a multiset \<Rightarrow> bool" where
  "dominates lt kept rest \<longleftrightarrow> (\<forall>x \<in># kept. \<forall>y \<in># rest. \<not> lt y x)"

definition best_of :: "('a \<Rightarrow> 'a \<Rightarrow> bool) \<Rightarrow> nat \<Rightarrow> 'a multiset \<Rightarrow> 'a multiset \<Rightarrow> bool" where
  "best_of lt K kept all \<longleftrightarrow> size kept = min K (size all) \<and>
     (\<exists>rest. kept + rest = all \<and> dominates lt kept rest)"

definition is_heap :: "('a \<Rightarrow> 'a \<Rightarrow> bool) \<Rightarrow> 'a list \<Rightarrow> bool" where
  "is_heap lt xs \<longleftrightarrow> (\<forall>i < length xs. 0 < i \<longrightarrow> \<not> lt (xs ! par i) (xs ! i))"

text \<open>A heap with a hole at \<open>h\<close>; and one whose hole may take the value \<open>v\<close> as far as the subtree
  below is concerned.\<close>

definition hole_heap :: "('a \<Rightarrow> 'a \<Rightarrow> bool) \<Rightarrow> 'a list \<Rightarrow> nat \<Rightarrow> bool" where
  "hole_heap lt xs h \<longleftrightarrow> h < length xs \<and>
     (\<forall>i < length xs. 0 < i \<and> i \<noteq> h \<and> par i \<noteq> h \<longrightarrow> \<not> lt (xs ! par i) (xs ! i)) \<and>
     (0 < h \<longrightarrow> (\<forall>i < length xs. 0 < i \<and> par i = h \<longrightarrow> \<not> lt (xs ! par h) (xs ! i)))"

definition hole_above :: "('a \<Rightarrow> 'a \<Rightarrow> bool) \<Rightarrow> 'a list \<Rightarrow> nat \<Rightarrow> 'a \<Rightarrow> bool" where
  "hole_above lt xs h v \<longleftrightarrow> (\<forall>i < length xs. 0 < i \<and> par i = h \<longrightarrow> \<not> lt v (xs ! i))"

text \<open>The child the hole moves to.\<close>

definition big_child :: "('a \<Rightarrow> 'a \<Rightarrow> bool) \<Rightarrow> 'a list \<Rightarrow> nat \<Rightarrow> nat" where
  "big_child lt xs h = (if lt (xs ! (2 * h + 2)) (xs ! (2 * h + 1)) then 2 * h + 1 else 2 * h + 2)"

section \<open>The contents\<close>

declare sift_up.simps [simp del] sift_down.simps [simp del]

lemma par_less: "0 < i \<Longrightarrow> par i < i"
  by (auto simp: par_def)

lemma length_sift_up [len_simps]: "length (sift_up lt xs h v) = length xs"
  by (induction lt xs h v rule: sift_up.induct) (subst sift_up.simps, auto)

lemma mset_move:
  "i < length xs \<Longrightarrow> j < length xs \<Longrightarrow> i \<noteq> j \<Longrightarrow> mset (xs[i := xs ! j, j := v]) = mset (xs[i := v])"
proof -
  assume ij: "i < length xs" "j < length xs" "i \<noteq> j"
  define ys where "ys = xs[i := v]"
  have "xs[i := xs ! j, j := v] = ys[j := ys ! i, i := ys ! j]"
    by (rule nth_equalityI) (use ij in \<open>auto simp: ys_def nth_list_update\<close>)
  also have "mset \<dots> = mset ys" using ij by (intro mset_swap) (auto simp: ys_def)
  finally show ?thesis by (simp add: ys_def)
qed

lemma mset_sift_up: "h < length xs \<Longrightarrow> mset (sift_up lt xs h v) = mset (xs[h := v])"
proof (induction lt xs h v rule: sift_up.induct)
  case (1 lt xs h v)
  show ?case
  proof (cases "h > 0 \<and> lt (xs ! par h) v")
    case True
    then have p: "par h < h" by (simp add: par_less)
    then have "mset (sift_up lt (xs[h := xs ! par h]) (par h) v) = mset (xs[h := xs ! par h, par h := v])"
      using 1 True by simp
    also have "\<dots> = mset (xs[h := v])" using p 1(2) by (intro mset_move) auto
    finally show ?thesis using True by (subst sift_up.simps) simp
  qed (subst sift_up.simps, auto)
qed

lemma sift_down_step:
  "h < (len - 1) div 2 \<Longrightarrow>
    sift_down lt xs h len = sift_down lt (xs[h := xs ! big_child lt xs h]) (big_child lt xs h) len"
  by (subst sift_down.simps) (simp add: Let_def big_child_def)

lemma sift_down_one:
  "\<not> h < (len - 1) div 2 \<Longrightarrow> len = 2 * h + 2 \<Longrightarrow> sift_down lt xs h len = (xs[h := xs ! (2 * h + 1)], 2 * h + 1)"
  by (subst sift_down.simps) simp

lemma sift_down_leaf: "len \<le> 2 * h + 1 \<Longrightarrow> sift_down lt xs h len = (xs, h)"
proof -
  assume a: "len \<le> 2 * h + 1"
  then have "\<not> h < (len - 1) div 2" "\<not> (even len \<and> 0 < len \<and> h = (len - 2) div 2)" by (auto elim!: evenE)
  then show ?thesis by (subst sift_down.simps) auto
qed

lemma sift_down_cases:
  assumes "h < (len::nat)"
  obtains "h < (len - 1) div 2" "2 * h + 2 < len" | "\<not> h < (len - 1) div 2" "len = 2 * h + 2" | "len \<le> 2 * h + 1"
  using assms by linarith

lemma sift_down_induct [consumes 2, case_names step one leaf]:
  assumes "h < len" "len = length xs"
    and "\<And>xs h. h < len \<Longrightarrow> len = length xs \<Longrightarrow> 2 * h + 2 < len \<Longrightarrow> h < (len - 1) div 2 \<Longrightarrow>
      P (xs[h := xs ! big_child lt xs h]) (big_child lt xs h) \<Longrightarrow> P xs h"
    and "\<And>xs h. len = length xs \<Longrightarrow> \<not> h < (len - 1) div 2 \<Longrightarrow> len = 2 * h + 2 \<Longrightarrow> P xs h"
    and "\<And>xs h. h < len \<Longrightarrow> len = length xs \<Longrightarrow> len \<le> 2 * h + 1 \<Longrightarrow> P xs h"
  shows "P xs h"
  using assms(1,2)
proof (induction "len - h" arbitrary: xs h rule: less_induct)
  case less
  show ?case
  proof (cases rule: sift_down_cases [OF less.prems(1)])
    case 1
    have "h < big_child lt xs h" "big_child lt xs h < len" using 1 by (auto simp: big_child_def)
    then show ?thesis using assms(3) [of h xs] less.hyps [of "big_child lt xs h"] less.prems 1 by simp
  qed (use assms(4,5) less.prems in auto)
qed

lemma sift_down_hole:
  assumes "h < len" "len = length xs"
  shows "\<exists>ys k. sift_down lt xs h len = (ys, k) \<and> k < len \<and> length ys = len \<and> len \<le> 2 * k + 1 \<and>
    mset (ys[k := v]) = mset (xs[h := v])"
  using assms
proof (induction xs h rule: sift_down_induct [where lt = lt])
  case (step xs h)
  have "h < big_child lt xs h" "big_child lt xs h < len" using step(3) by (auto simp: big_child_def)
  then have "mset (xs[h := xs ! big_child lt xs h, big_child lt xs h := v]) = mset (xs[h := v])"
    using step(2) by (intro mset_move) auto
  then show ?case using step(5) sift_down_step [OF step(4)] by metis
next
  case (one xs h)
  have "mset (xs[h := xs ! (2 * h + 1), 2 * h + 1 := v]) = mset (xs[h := v])"
    using one by (intro mset_move) auto
  then show ?case
    by (intro exI [of _ "xs[h := xs ! (2 * h + 1)]"] exI [of _ "2 * h + 1"])
      (use sift_down_one [OF one(2,3), of lt xs] one in auto)
next
  case (leaf xs h)
  then show ?case using sift_down_leaf [OF leaf(3)] by auto
qed

lemma mset_pq_push: "mset (pq_push lt v q) = add_mset v (mset q)"
  by (simp add: pq_push_def mset_sift_up)

lemma pq_pop_split:
  assumes "length q > 1"
  obtains b l ys k where "q = b @ [l]" "b \<noteq> []" "hd q = hd b" "sift_down lt b 0 (length b) = (ys, k)"
    "k < length b" "length ys = length b" "length b \<le> 2 * k + 1" "mset (ys[k := l]) = mset (b[0 := l])"
    "pq_pop lt q = sift_up lt ys k l"
proof -
  define b l where "b = butlast q" and "l = last q"
  have q: "q = b @ [l]" using assms unfolding b_def l_def by (metis append_butlast_last_id list.size(3) not_less_zero)
  have b: "b \<noteq> []" using assms q by auto
  obtain ys k where S: "sift_down lt b 0 (length b) = (ys, k)" "k < length b" "length ys = length b"
    "length b \<le> 2 * k + 1" "mset (ys[k := l]) = mset (b[0 := l])"
    using sift_down_hole [of 0 "length b" b lt l] b by auto
  have "pq_pop lt q = sift_up lt ys k l" using assms S(1) q by (simp add: pq_pop_def)
  then show thesis using that [OF q b _ S] q b by simp
qed

lemma mset_pq_pop:
  assumes "q \<noteq> []"
  shows "add_mset (hd q) (mset (pq_pop lt q)) = mset q"
proof (cases "length q > 1")
  case True
  obtain b l ys k where b: "q = b @ [l]" "b \<noteq> []" "hd q = hd b" "k < length b" "length ys = length b"
    "mset (ys[k := l]) = mset (b[0 := l])" "pq_pop lt q = sift_up lt ys k l"
    by (rule pq_pop_split [OF True, of lt])
  then have "mset (pq_pop lt q) = mset (b[0 := l])" by (simp add: mset_sift_up)
  then show ?thesis using b(1,2,3) by (cases b) auto
next
  case False
  then show ?thesis using assms by (cases q) (auto simp: pq_pop_def)
qed

section \<open>The order\<close>

lemma par_child: "0 < i \<Longrightarrow> par i = h \<longleftrightarrow> i = 2 * h + 1 \<or> i = 2 * h + 2"
  by (auto simp: par_def)

lemma hole_bottom: "length xs \<le> 2 * h + 1 \<Longrightarrow> hole_above lt xs h v"
  by (auto simp: hole_above_def par_def)

locale weak_order =
  fixes lt :: "'a \<Rightarrow> 'a \<Rightarrow> bool" and C :: "'a set"
  assumes asym: "a \<in> C \<Longrightarrow> b \<in> C \<Longrightarrow> lt a b \<Longrightarrow> \<not> lt b a"
    and neg_trans: "a \<in> C \<Longrightarrow> b \<in> C \<Longrightarrow> c \<in> C \<Longrightarrow> \<not> lt a b \<Longrightarrow> \<not> lt b c \<Longrightarrow> \<not> lt a c"
begin

lemma hole_filled:
  assumes "hole_heap lt xs h" "hole_above lt xs h v" "0 < h \<Longrightarrow> \<not> lt (xs ! par h) v"
  shows "is_heap lt (xs[h := v])"
  unfolding is_heap_def
proof (intro allI impI)
  fix i assume i: "i < length (xs[h := v])" "0 < i"
  consider "i = h" | "i \<noteq> h" "par i = h" | "i \<noteq> h" "par i \<noteq> h" by blast
  then show "\<not> lt (xs[h := v] ! par i) (xs[h := v] ! i)"
    using assms i par_less [of i] by cases (auto simp: hole_heap_def hole_above_def)
qed

lemma hole_up:
  assumes C: "set xs \<subseteq> C" "v \<in> C" and h: "hole_heap lt xs h" "hole_above lt xs h v" "0 < h" "lt (xs ! par h) v"
  shows "hole_heap lt (xs[h := xs ! par h]) (par h) \<and> hole_above lt (xs[h := xs ! par h]) (par h) v"
proof -
  define p where "p = par h"
  have p: "p < h" "h < length xs" using h par_less by (auto simp: p_def hole_heap_def)
  have mem: "xs ! i \<in> C" if "i < length xs" for i using C that by auto
  have keep: "\<not> lt (xs ! par i) (xs ! i)" if "i < length xs" "0 < i" "i \<noteq> h" "par i \<noteq> h" for i
    using h(1) that by (auto simp: hole_heap_def)
  have below: "\<not> lt (xs ! p) (xs ! i)" if "i < length xs" "0 < i" "par i = h" for i
    using h(1,3) that by (auto simp: hole_heap_def p_def)
  have vp: "\<not> lt v (xs ! p)" using asym [of "xs ! p" v] h(4) mem p C by (auto simp: p_def)
  have up: "\<not> lt (xs ! par p) (xs ! p)" if "0 < p" using keep [of p] that p par_less [of p] by auto
  have sib: "\<not> lt (xs ! p) (xs ! i)" if "i < length xs" "0 < i" "par i = p" "i \<noteq> h" for i
    using keep [of i] that p by auto
  have "\<not> lt (xs[h := xs ! p] ! par i) (xs[h := xs ! p] ! i)"
    if "i < length xs" "0 < i" "i \<noteq> p" "par i \<noteq> p" for i
  proof -
    have "i \<noteq> h" using that by (auto simp: p_def)
    then show ?thesis using keep [of i] below [of i] that p by (cases "par i = h") auto
  qed
  moreover have "\<not> lt (xs[h := xs ! p] ! par p) (xs[h := xs ! p] ! i)"
    if "0 < p" "i < length xs" "0 < i" "par i = p" for i
  proof (cases "i = h")
    case True
    then show ?thesis using up that p par_less [of p] by auto
  next
    case False
    then show ?thesis
      using neg_trans [of "xs ! par p" "xs ! p" "xs ! i"] up sib [of i] mem that p par_less [of p] by auto
  qed
  moreover have "\<not> lt v (xs[h := xs ! p] ! i)" if "i < length xs" "0 < i" "par i = p" for i
  proof (cases "i = h")
    case False
    then show ?thesis using neg_trans [of v "xs ! p" "xs ! i"] vp sib [of i] mem that p C by auto
  qed (use vp p in simp)
  ultimately show ?thesis using p by (auto simp: hole_heap_def hole_above_def simp flip: p_def)
qed

lemma sift_up_heap:
  "set xs \<subseteq> C \<Longrightarrow> v \<in> C \<Longrightarrow> hole_heap lt xs h \<Longrightarrow> hole_above lt xs h v \<Longrightarrow> is_heap lt (sift_up lt xs h v)"
proof (induction h arbitrary: xs rule: less_induct)
  case (less h)
  show ?case
  proof (cases "h > 0 \<and> lt (xs ! par h) v")
    case True
    have "h < length xs" using less.prems(3) by (simp add: hole_heap_def)
    then have "set (xs[h := xs ! par h]) \<subseteq> C"
      using less.prems(1) par_less [of h] True by (intro set_update_subsetI) auto
    then show ?thesis
      using less.IH [of "par h" "xs[h := xs ! par h]"] hole_up [OF less.prems] True less.prems(2) par_less [of h]
      by (subst sift_up.simps) auto
  next
    case False
    then show ?thesis using hole_filled [OF less.prems(3,4)] by (subst sift_up.simps) auto
  qed
qed

lemma hole_down:
  assumes C: "set xs \<subseteq> C" and h: "hole_heap lt xs h" and c: "c = 2 * h + 1 \<or> c = 2 * h + 2" "c < length xs"
    and big: "\<And>i. i < length xs \<Longrightarrow> 0 < i \<Longrightarrow> par i = h \<Longrightarrow> i \<noteq> c \<Longrightarrow> \<not> lt (xs ! c) (xs ! i)"
  shows "hole_heap lt (xs[h := xs ! c]) c"
proof -
  have pc: "par c = h" "h < c" "0 < c" using c par_child [of c h] by auto
  have "\<not> lt (xs[h := xs ! c] ! par i) (xs[h := xs ! c] ! i)"
    if i: "i < length xs" "0 < i" "i \<noteq> c" "par i \<noteq> c" for i
  proof -
    consider "i = h" | "i \<noteq> h" "par i = h" | "i \<noteq> h" "par i \<noteq> h" by blast
    then show ?thesis
      using h big i pc c(2) par_less [of i] by cases (auto simp: hole_heap_def)
  qed
  moreover have "\<not> lt (xs ! c) (xs[h := xs ! c] ! i)" if "i < length xs" "0 < i" "par i = c" for i
  proof -
    have "i \<noteq> h" using that pc par_less [of i] by auto
    then show ?thesis using h that pc by (auto simp: hole_heap_def)
  qed
  ultimately show ?thesis using pc c(2) h by (auto simp: hole_heap_def)
qed

lemma big_child_down:
  assumes "set xs \<subseteq> C" "2 * h + 2 < length xs" "i < length xs" "0 < i" "par i = h" "i \<noteq> big_child lt xs h"
  shows "\<not> lt (xs ! big_child lt xs h) (xs ! i)"
proof -
  have "xs ! (2 * h + 2) \<in> C" "xs ! (2 * h + 1) \<in> C" using assms(1,2) by auto
  then show ?thesis
    using assms par_child [of i h] asym [of "xs ! (2 * h + 2)" "xs ! (2 * h + 1)"] by (auto simp: big_child_def split: if_splits)
qed

lemma sift_down_heap:
  assumes "h < len" "len = length xs" "set xs \<subseteq> C" "hole_heap lt xs h" "sift_down lt xs h len = (ys, k)"
  shows "hole_heap lt ys k \<and> set ys \<subseteq> C"
  using assms
proof (induction xs h rule: sift_down_induct [where lt = lt])
  case (step xs h)
  let ?c = "big_child lt xs h"
  have c: "?c = 2 * h + 1 \<or> ?c = 2 * h + 2" "?c < length xs" using step(2,3) by (auto simp: big_child_def)
  have "hole_heap lt (xs[h := xs ! ?c]) ?c"
    by (rule hole_down [OF step(6,7) c]) (use big_child_down step(2,3,6) in auto)
  moreover have "set (xs[h := xs ! ?c]) \<subseteq> C"
    using step(6) c(2) by (intro set_update_subsetI) auto
  ultimately show ?case using step(5,8) sift_down_step [OF step(4), of lt xs] by simp
next
  case (one xs h)
  have c: "2 * h + 1 = 2 * h + 1 \<or> 2 * h + 1 = 2 * h + 2" "2 * h + 1 < length xs" using one(1,3) by auto
  have "hole_heap lt (xs[h := xs ! (2 * h + 1)]) (2 * h + 1)"
  proof (rule hole_down [OF one(4,5) c])
    fix i assume "i < length xs" "0 < i" "par i = h" "i \<noteq> 2 * h + 1"
    then show "\<not> lt (xs ! (2 * h + 1)) (xs ! i)" using one(1,3) par_child [of i h] by auto
  qed
  moreover have "set (xs[h := xs ! (2 * h + 1)]) \<subseteq> C"
    using one(4) c(2) by (intro set_update_subsetI) auto
  ultimately show ?case using one(6) sift_down_one [OF one(2,3), of lt xs] by auto
next
  case (leaf xs h)
  then show ?case using sift_down_leaf [OF leaf(3), of lt xs] by auto
qed

lemma heap_top:
  assumes "is_heap lt q" "set q \<subseteq> C" "i < length q"
  shows "\<not> lt (hd q) (q ! i)"
  using assms(3)
proof (induction i rule: less_induct)
  case (less i)
  have "q \<noteq> []" using less.prems by auto
  then have hd: "hd q = q ! 0" "q ! 0 \<in> C" "q ! i \<in> C" using assms(2) less.prems by (auto simp: hd_conv_nth)
  show ?case
  proof (cases "i = 0")
    case True
    then show ?thesis using asym [of "q ! 0" "q ! 0"] hd by auto
  next
    case False
    then have p: "par i < i" by (simp add: par_less)
    then have "\<not> lt (q ! par i) (q ! i)" "q ! par i \<in> C" using assms(1,2) less.prems False by (auto simp: is_heap_def)
    then show ?thesis using less.IH [OF p] neg_trans [of "q ! 0" "q ! par i" "q ! i"] less.prems p hd by auto
  qed
qed

lemma pq_push_heap:
  assumes "is_heap lt q" "set q \<subseteq> C" "v \<in> C"
  shows "is_heap lt (pq_push lt v q)"
proof -
  have "hole_heap lt (q @ [v]) (length q)"
    unfolding hole_heap_def
  proof (intro conjI allI impI)
    fix i assume i: "i < length (q @ [v])" "0 < i \<and> i \<noteq> length q \<and> par i \<noteq> length q"
    then have "i < length q" "par i < length q" using par_less [of i] by auto
    then show "\<not> lt ((q @ [v]) ! par i) ((q @ [v]) ! i)" using assms(1) i by (auto simp: is_heap_def nth_append)
  next
    fix i assume "i < length (q @ [v])" "0 < i \<and> par i = length q"
    then have False using par_less [of i] by auto
    then show "\<not> lt ((q @ [v]) ! par (length q)) ((q @ [v]) ! i)" ..
  qed simp
  then show ?thesis
    unfolding pq_push_def using assms by (intro sift_up_heap hole_bottom) auto
qed

lemma pq_pop_heap:
  assumes "is_heap lt q" "set q \<subseteq> C"
  shows "is_heap lt (pq_pop lt q)"
proof (cases "length q > 1")
  case True
  obtain b l ys k where b: "q = b @ [l]" "b \<noteq> []" "sift_down lt b 0 (length b) = (ys, k)"
    "length ys = length b" "length b \<le> 2 * k + 1" "pq_pop lt q = sift_up lt ys k l"
    by (rule pq_pop_split [OF True, of lt])
  have hb: "\<not> lt (b ! par i) (b ! i)" if "i < length b" "0 < i" for i
    using assms(1) that b(1) par_less [of i] unfolding is_heap_def by (auto simp: nth_append dest!: spec [of _ i])
  have "hole_heap lt b 0" using hb b(2) by (auto simp: hole_heap_def)
  then have "hole_heap lt ys k" "set ys \<subseteq> C"
    using sift_down_heap [of 0 "length b" b ys k] assms(2) b by auto
  then show ?thesis unfolding b(6) using b assms(2) by (intro sift_up_heap hole_bottom) auto
qed (simp add: pq_pop_def is_heap_def)

text \<open>Candidates may be cut to the best \<open>K\<close> before they compete with others.\<close>

lemma best_of_part:
  assumes a: "best_of lt K a A" and c: "best_of lt K c (a + B)" and C: "set_mset (A + B) \<subseteq> C"
  shows "best_of lt K c (A + B)"
proof -
  obtain ra where ra: "a + ra = A" "dominates lt a ra" and sa: "size a = min K (size A)" using a by (auto simp: best_of_def)
  obtain rc where rc: "c + rc = a + B" "dominates lt c rc" and sc: "size c = min K (size (a + B))" using c by (auto simp: best_of_def)
  have "c + rc + ra = a + B + ra" by (simp only: rc(1))
  then have all: "c + (rc + ra) = A + B" unfolding ra(1) [symmetric] by (simp add: ac_simps)
  have mem: "x \<in> C" if "x \<in># c \<or> x \<in># rc \<or> x \<in># ra" for x
    using that C unfolding all [symmetric] by auto
  have sz: "size A = size a + size ra" using ra(1) by auto
  have "\<not> lt y x" if x: "x \<in># c" and y: "y \<in># ra" for x y
  proof (cases "a \<subseteq># c")
    case True
    have "size ra > 0" using y by (auto simp flip: nonempty_has_size)
    then have "size c \<le> size a" using sz sa sc by auto
    then have "c = a" using True using mset_subset_size [of a c] by (auto simp: subset_mset.le_less)
    then show ?thesis using ra(2) x y by (auto simp: dominates_def)
  next
    case False
    then obtain z where z: "count c z < count a z" by (auto simp: subseteq_mset_def not_le)
    have "count (c + rc) z = count (a + B) z" by (simp only: rc(1))
    then have "count c z + count rc z = count a z + count B z" by simp
    then have "0 < count rc z" "0 < count a z" using z by linarith+
    then have "z \<in># rc" "z \<in># a" by simp_all
    then have "\<not> lt y z" "\<not> lt z x" "z \<in> C" using ra(2) rc(2) x y mem by (auto simp: dominates_def)
    then show ?thesis using neg_trans [of y z x] mem x y by auto
  qed
  then have "dominates lt c (rc + ra)" using rc(2) by (auto simp: dominates_def)
  moreover have "size c = min K (size (A + B))" using sc sa sz unfolding size_union by linarith
  ultimately show ?thesis unfolding best_of_def using all by blast
qed

end

section \<open>The queue as an interface\<close>

locale prio_queue = weak_order lt C for lt :: "'a \<Rightarrow> 'a \<Rightarrow> bool" and C :: "'a set" +
  fixes ok :: "'q \<Rightarrow> bool" and cont :: "'q \<Rightarrow> 'a multiset" and top :: "'q \<Rightarrow> 'a"
    and push :: "'a \<Rightarrow> 'q \<Rightarrow> 'q" and pop :: "'q \<Rightarrow> 'q"
  assumes push_ok: "ok q \<Longrightarrow> v \<in> C \<Longrightarrow> ok (push v q)"
    and pop_ok: "ok q \<Longrightarrow> ok (pop q)"
    and push_cont: "ok q \<Longrightarrow> v \<in> C \<Longrightarrow> cont (push v q) = add_mset v (cont q)"
    and pop_cont: "ok q \<Longrightarrow> cont q \<noteq> {#} \<Longrightarrow> add_mset (top q) (cont (pop q)) = cont q"
    and top_max: "ok q \<Longrightarrow> x \<in># cont q \<Longrightarrow> \<not> lt (top q) x"
    and cont_C: "ok q \<Longrightarrow> set_mset (cont q) \<subseteq> C"
begin

lemma best_insert:
  assumes "ok q" "v \<in> C" "0 < K" "best_of lt K (cont q) all" "set_mset all \<subseteq> C"
    and q': "q' = (if size (cont q) < K then push v q else if lt v (top q) then push v (pop q) else q)"
  shows "ok q' \<and> best_of lt K (cont q') (add_mset v all)"
proof -
  obtain rest where all: "cont q + rest = all" and dom: "dominates lt (cont q) rest"
    and sz: "size (cont q) = min K (size all)" using assms(4) by (auto simp: best_of_def)
  have "size all = size (cont q) + size rest" using all by auto
  then have "size (cont q) < K \<Longrightarrow> size rest = 0" using sz by linarith
  then have rest: "size (cont q) < K \<Longrightarrow> rest = {#}" by simp
  show ?thesis
  proof (cases "size (cont q) < K")
    case True
    then have "q' = push v q" "rest = {#}" using q' rest by auto
    then show ?thesis
      using True push_ok [OF assms(1,2)] push_cont [OF assms(1,2)] all by (auto simp: best_of_def dominates_def)
  next
    case full: False
    then have ne: "cont q \<noteq> {#}" using assms(3) by auto
    note pc = pop_cont [OF assms(1) ne]
    have top: "top q \<in># cont q" using pc by (metis union_single_eq_member)
    have topC: "top q \<in> C" using top cont_C [OF assms(1)] by auto
    have memC: "x \<in> C" if "x \<in># cont q \<or> x \<in># rest" for x using that assms(5) all by auto
    show ?thesis
    proof (cases "lt v (top q)")
      case better: True
      have q1: "q' = push v (pop q)" using q' full better by simp
      have cq: "cont q' = add_mset v (cont (pop q))" unfolding q1 using push_cont [OF pop_ok] assms(1,2) by simp
      have old: "x \<in># cont q" if "x \<in># cont (pop q)" for x using that pc by (metis insert_iff set_mset_add_mset_insert)
      have tv: "\<not> lt (top q) v" using asym [OF assms(2) topC better] .
      have "\<not> lt y x" if "x \<in># cont q'" "y \<in># add_mset (top q) rest" for x y
      proof (cases "y \<in># rest")
        case True
        then show ?thesis
          using that cq old dom top neg_trans [of y "top q" v] tv memC topC assms(2) by (auto simp: dominates_def)
      next
        case False
        then show ?thesis using that cq old top_max [OF assms(1)] tv by auto
      qed
      then have "dominates lt (cont q') (add_mset (top q) rest)" by (auto simp: dominates_def)
      moreover have "cont q' + add_mset (top q) rest = add_mset v all" using cq all unfolding pc [symmetric] by (auto simp: ac_simps)
      moreover have "size (cont q') = min K (size (add_mset v all))"
      proof -
        have "size (cont q') = size (cont q)" using cq pc by (metis size_add_mset)
        then show ?thesis using sz full by simp
      qed
      ultimately show ?thesis unfolding best_of_def q1 using push_ok [OF pop_ok [OF assms(1)] assms(2)] by blast
    next
      case False
      then have q1: "q' = q" using q' full by simp
      have "\<not> lt v x" if "x \<in># cont q" for x
        using neg_trans [of v "top q" x] False top_max [OF assms(1) that] memC that topC assms(2) by auto
      then have "dominates lt (cont q) (add_mset v rest)" using dom by (auto simp: dominates_def)
      moreover have "cont q + add_mset v rest = add_mset v all" using all by simp
      moreover have "size (cont q) = min K (size (add_mset v all))" using sz full by simp
      ultimately show ?thesis using q1 assms(1) by (auto simp: best_of_def)
    qed
  qed
qed

end

sublocale weak_order \<subseteq> pq: prio_queue lt C "\<lambda>q. is_heap lt q \<and> set q \<subseteq> C" mset hd "pq_push lt" "pq_pop lt"
proof
  show "\<not> lt (hd q) x" if "is_heap lt q \<and> set q \<subseteq> C" "x \<in># mset q" for q x
    using heap_top [of q] that by (auto simp: in_set_conv_nth)
  show "is_heap lt (pq_push lt v q) \<and> set (pq_push lt v q) \<subseteq> C" if "is_heap lt q \<and> set q \<subseteq> C" "v \<in> C" for q v
    using pq_push_heap that mset_eq_setD [of "pq_push lt v q" "v # q"] by (auto simp: mset_pq_push)
  show "is_heap lt (pq_pop lt q) \<and> set (pq_pop lt q) \<subseteq> C" if "is_heap lt q \<and> set q \<subseteq> C" for q
  proof (cases "q = []")
    case False
    then have "set (hd q # pq_pop lt q) = set q" using mset_pq_pop [of q lt] by (intro mset_eq_setD) simp
    then show ?thesis using pq_pop_heap that by auto
  qed (use that in \<open>auto simp: pq_pop_def is_heap_def\<close>)
qed (auto simp: mset_pq_push mset_pq_pop)

end
