(* ===== verification/SPathHeap.thy ===== *)
theory SPathHeap
  imports SPath StdHeap
begin

text \<open>
  The bounded heaps of candidates and their memory (Route/bag/SPathHeap.h and .cpp, SPathAlloc.h,
  ThreadMemPool.h and .cpp).

  \<^item> \<open>SPathQueue\<close> is \<open>std::priority_queue\<close> with \<open>SPathCmp\<close>: the functions of \<open>StdHeap\<close>. The heap holds
    pointers; \<open>sp_addr\<close> identifies the object.
  \<^item> \<open>m_queue.size() < m_topK\<close> compares a \<open>size_t\<close> with an \<open>int\<close>: a negative bound is huge (\<open>size_less\<close>).
  \<^item> \<open>None\<close>: \<open>top()\<close> of an empty queue is read, which happens for the bound 0.
  \<^item> The free list is a stack of objects; \<open>new SPath\<close> gives the next fresh address, with \<open>al_raw\<close> the
    contents of the memory there, which the constructor leaves in the arrays.

  The properties: a heap bounded by \<open>K\<close> holds the best \<open>K\<close> of the candidates pushed, as long as their
  scores are whole numbers, as those of the day search are; for other scores the comparison can
  be cyclic; the allocator never hands out an object that is in use.
\<close>

record spheap =
  sh_queue :: "spath list"
  sh_topK :: int
  sh_hashSet :: "u32 set"

definition SPathHeap_new :: spheap where
  "SPathHeap_new = \<lparr>sh_queue = [], sh_topK = 0, sh_hashSet = {}\<rparr>"

definition size_less :: "nat \<Rightarrow> int \<Rightarrow> bool" where
  "size_less n k \<longleftrightarrow> k < 0 \<or> int n < k"

definition SPathHeap_Init :: "int \<Rightarrow> spheap \<Rightarrow> spheap" where
  "SPathHeap_Init topK h = h\<lparr>sh_topK := topK\<rparr>"

definition SPathHeap_Length :: "spheap \<Rightarrow> int" where
  "SPathHeap_Length h = int (length (sh_queue h))"

definition SPathHeap_Empty :: "spheap \<Rightarrow> bool" where
  "SPathHeap_Empty h = (sh_queue h = [])"

definition SPathHeap_Pop :: "spheap \<Rightarrow> spath option \<times> spheap" where
  "SPathHeap_Pop h =
     (if sh_queue h = [] then (None, h)
      else (Some (hd (sh_queue h)), h\<lparr>sh_queue := pq_pop SPathCmp (sh_queue h)\<rparr>))"

definition SPathHeap_Top :: "spheap \<Rightarrow> spath option" where
  "SPathHeap_Top h = (if sh_queue h = [] then None else Some (hd (sh_queue h)))"

definition pq_top :: "'a list \<Rightarrow> 'a option" where
  "pq_top q = (case q of [] \<Rightarrow> None | x # xs \<Rightarrow> Some x)"

definition CanPush :: "rat \<Rightarrow> int \<Rightarrow> int \<Rightarrow> spheap \<Rightarrow> bool option" where
  "CanPush score missLevel clash h =
     (if size_less (length (sh_queue h)) (sh_topK h) then Some True
      else do {
        t \<leftarrow> pq_top (sh_queue h);
        Some (if missLevel < sp_missLevel t then True
              else if missLevel > sp_missLevel t then False
              else if clash < sp_clash t then True
              else if clash > sp_clash t then False
              else score > sp_score t - eps6) })"

definition SPathHeap_Clear :: "spheap \<Rightarrow> spheap" where
  "SPathHeap_Clear h = h\<lparr>sh_queue := [], sh_hashSet := {}\<rparr>"

definition SPathHeap_CopyVal :: "spheap \<Rightarrow> spath list" where
  "SPathHeap_CopyVal h = sh_queue h"

text \<open>\<open>Push\<close> returns the candidate that is not in the heap afterwards, if there is one.\<close>

definition wants_push :: "spath \<Rightarrow> spheap \<Rightarrow> bool option" where
  "wants_push sPath h =
     (if size_less (length (sh_queue h)) (sh_topK h) then Some True
      else map_option (SPathCmp sPath) (pq_top (sh_queue h)))"

definition SPathHeap_Push :: "spath \<Rightarrow> bool \<Rightarrow> spheap \<Rightarrow> (spath option \<times> spheap) option" where
  "SPathHeap_Push sPath dupHashAllow h0 = do {
     isPush0 \<leftarrow> wants_push sPath h0;
     let seen = sp_hash sPath \<in> sh_hashSet h0;
     let isPush = (isPush0 \<and> (dupHashAllow \<or> \<not> seen));
     let h1 = (if \<not> dupHashAllow \<and> isPush0 \<and> \<not> seen
               then h0\<lparr>sh_hashSet := insert (sp_hash sPath) (sh_hashSet h0)\<rparr> else h0);
     if \<not> isPush then Some (Some sPath, h1)
     else if \<not> size_less (length (sh_queue h1)) (sh_topK h1) then do {
       popSPath \<leftarrow> pq_top (sh_queue h1);
       Some (Some popSPath, h1\<lparr>sh_queue := pq_push SPathCmp sPath (pq_pop SPathCmp (sh_queue h1))\<rparr>) }
     else Some (None, h1\<lparr>sh_queue := pq_push SPathCmp sPath (sh_queue h1)\<rparr>) }"

section \<open>SPathAlloc\<close>

record spalloc =
  al_initLen :: nat
  al_freeS :: "spath list"
  al_fresh :: nat
  al_raw :: "nat \<Rightarrow> spath"

definition new_SPath :: "spalloc \<Rightarrow> nat \<Rightarrow> spath" where
  "new_SPath a addr = SPath_new ((al_raw a addr)\<lparr>sp_addr := addr\<rparr>)"

definition Expand :: "nat \<Rightarrow> spalloc \<Rightarrow> spalloc" where
  "Expand expandLen a =
     a\<lparr>al_freeS := rev (map (new_SPath a) [al_fresh a..<al_fresh a + expandLen]) @ al_freeS a,
       al_fresh := al_fresh a + expandLen\<rparr>"

definition SPathAlloc_new :: "(nat \<Rightarrow> spath) \<Rightarrow> nat \<Rightarrow> nat \<Rightarrow> spalloc" where
  "SPathAlloc_new raw fresh initLen =
     Expand initLen \<lparr>al_initLen = initLen, al_freeS = [], al_fresh = fresh, al_raw = raw\<rparr>"

definition SPathAlloc_New :: "spalloc \<Rightarrow> spath option \<times> spalloc" where
  "SPathAlloc_New a0 =
     (let a = (if al_freeS a0 = [] then Expand (al_initLen a0 div 10 + 1) a0 else a0) in
      case al_freeS a of [] \<Rightarrow> (None, a) | p # ps \<Rightarrow> (Some p, a\<lparr>al_freeS := ps\<rparr>))"

definition SPathAlloc_Delete :: "spath option \<Rightarrow> spalloc \<Rightarrow> int \<times> spalloc" where
  "SPathAlloc_Delete p a =
     (case p of None \<Rightarrow> (1, a) | Some x \<Rightarrow> (0, a\<lparr>al_freeS := SPath_Clear x # al_freeS a\<rparr>))"

section \<open>ThreadMemPool\<close>

record mempool =
  mp_alloc :: spalloc
  mp_richHeap :: spheap
  mp_dfsHeapMap :: "(u32 \<times> spheap) list"
  mp_sList :: "spath list"
  mp_richHeapLimit :: int
  mp_dfsHeapLimit :: int

text \<open>\<open>BagParam::m_dfsSPSHashHeapLimit\<close> is read from the configuration: the parameter \<open>spsLimit\<close>.\<close>

definition GetDFSHeap :: "int \<Rightarrow> u32 \<Rightarrow> mempool \<Rightarrow> spheap option \<times> mempool" where
  "GetDFSHeap spsLimit hash mp =
     (let mp1 = (if map_of (mp_dfsHeapMap mp) hash = None
                 then mp\<lparr>mp_dfsHeapMap := (hash, SPathHeap_Init spsLimit SPathHeap_new) # mp_dfsHeapMap mp\<rparr> else mp)
      in (map_of (mp_dfsHeapMap mp1) hash, mp1))"

definition MemPool_SetTopK :: "int \<Rightarrow> int \<Rightarrow> mempool \<Rightarrow> mempool" where
  "MemPool_SetTopK richHeapLimit dfsHeapLimit mp =
     mp\<lparr>mp_richHeapLimit := richHeapLimit, mp_dfsHeapLimit := dfsHeapLimit,
        mp_richHeap := SPathHeap_Init richHeapLimit (mp_richHeap mp),
        mp_dfsHeapMap := map (\<lambda>(k, h). (k, SPathHeap_Init dfsHeapLimit h)) (mp_dfsHeapMap mp)\<rparr>"

definition ThreadMemPool_new :: "(nat \<Rightarrow> spath) \<Rightarrow> nat \<Rightarrow> nat \<Rightarrow> int \<Rightarrow> int \<Rightarrow> mempool" where
  "ThreadMemPool_new raw fresh spAllocLimit richHeapLimit dfsHeapLimit =
     MemPool_SetTopK richHeapLimit dfsHeapLimit
       \<lparr>mp_alloc = SPathAlloc_new raw fresh spAllocLimit, mp_richHeap = SPathHeap_new, mp_dfsHeapMap = [], mp_sList = [],
        mp_richHeapLimit = 0, mp_dfsHeapLimit = 0\<rparr>"

definition MemPool_Clear :: "mempool \<Rightarrow> mempool" where
  "MemPool_Clear mp =
     mp\<lparr>mp_richHeap := SPathHeap_Clear (mp_richHeap mp),
        mp_alloc := fold (\<lambda>p a. snd (SPathAlloc_Delete (Some p) a))
          (concat (map (SPathHeap_CopyVal \<circ> snd) (mp_dfsHeapMap mp))) (mp_alloc mp),
        mp_dfsHeapMap := [], mp_sList := []\<rparr>"

text \<open>Specification: runs of pushes and of allocator calls.\<close>

fun heap_run :: "spath list \<Rightarrow> spheap \<Rightarrow> spheap option" where
  "heap_run [] h = Some h"
| "heap_run (p # ps) h = do { (r, h1) \<leftarrow> SPathHeap_Push p False h; heap_run ps h1 }"

definition cmp_tuple :: "spath \<Rightarrow> int \<times> int \<times> rat \<times> u32" where
  "cmp_tuple p = (sp_missLevel p, sp_clash p, - sp_score p, sp_hash p)"

definition whole :: "spath set" where
  "whole = {p. sp_score p \<in> \<int>}"

text \<open>A run of the allocator: the addresses in use and the state; deleting an address that is not in
  use is outside the contract.\<close>

inductive alloc_steps :: "spalloc \<Rightarrow> nat set \<Rightarrow> spalloc \<Rightarrow> nat set \<Rightarrow> bool" where
  refl: "alloc_steps a live a live"
| new: "alloc_steps a live b used \<Longrightarrow> SPathAlloc_New b = (Some p, c) \<Longrightarrow> alloc_steps a live c (insert (sp_addr p) used)"
| del: "alloc_steps a live b used \<Longrightarrow> sp_addr p \<in> used \<Longrightarrow> SPathAlloc_Delete (Some p) b = (0, c) \<Longrightarrow>
    alloc_steps a live c (used - {sp_addr p})"

definition alloc_ok :: "spalloc \<Rightarrow> nat set \<Rightarrow> bool" where
  "alloc_ok a live \<longleftrightarrow> distinct (map sp_addr (al_freeS a)) \<and> sp_addr ` set (al_freeS a) \<inter> live = {} \<and>
     (\<forall>p \<in> sp_addr ` set (al_freeS a) \<union> live. p < al_fresh a)"

definition alloc_mem :: "spalloc \<Rightarrow> bool" where
  "alloc_mem a \<longleftrightarrow> (\<forall>p \<in> set (al_freeS a). arrays_ok p) \<and> (\<forall>i. arrays_ok (al_raw a i))"

text \<open>What the heap of bound \<open>K\<close> is between pushes, when \<open>all\<close> are the candidates seen.\<close>

definition heap_inv :: "nat \<Rightarrow> spath multiset \<Rightarrow> spheap \<Rightarrow> bool" where
  "heap_inv K all h \<longleftrightarrow> sh_topK h = int K \<and> is_heap SPathCmp (sh_queue h) \<and> set (sh_queue h) \<subseteq> whole \<and>
     sh_hashSet h \<subseteq> sp_hash ` set_mset all \<and> set_mset all \<subseteq> whole \<and> best_of SPathCmp K (mset (sh_queue h)) all"

text \<open>Paths that differ in the score and the hash only.\<close>

definition demo_scored :: "rat \<Rightarrow> u32 \<Rightarrow> spath" where
  "demo_scored s h = demo_spath\<lparr>sp_score := s, sp_hash := h\<rparr>"

section \<open>Lemmas\<close>

lemma eps6_range: "0 < eps6" "eps6 < 1"
  by (simp_all add: eps6_def)

lemma int_gap:
  assumes "(a :: rat) \<in> \<int>" "b \<in> \<int>"
  shows "\<bar>a - b\<bar> > eps6 \<longleftrightarrow> a \<noteq> b" "a > b - eps6 \<longleftrightarrow> a \<ge> b"
proof -
  obtain i j where ij: "a = of_int i" "b = of_int j" using assms by (auto elim!: Ints_cases)
  consider "i = j" | "i + 1 \<le> j" | "j + 1 \<le> i" by linarith
  then have "a = b \<or> a + 1 \<le> b \<or> b + 1 \<le> a"
    unfolding ij by cases (metis of_int_1 of_int_add of_int_le_iff)+
  then show "\<bar>a - b\<bar> > eps6 \<longleftrightarrow> a \<noteq> b" "a > b - eps6 \<longleftrightarrow> a \<ge> b" using eps6_range by linarith+
qed

lemma SPathCmp_whole: "a \<in> whole \<Longrightarrow> b \<in> whole \<Longrightarrow> SPathCmp a b \<longleftrightarrow> cmp_tuple a < cmp_tuple b"
  by (auto simp: SPathCmp_def cmp_tuple_def whole_def int_gap)

interpretation sph: weak_order SPathCmp whole
  by unfold_locales (auto simp: SPathCmp_whole)

lemma pq_top_hd: "q \<noteq> [] \<Longrightarrow> pq_top q = Some (hd q)"
  by (cases q) (auto simp: pq_top_def)

lemma size_less_nat [simp]: "size_less n (int K) \<longleftrightarrow> n < K"
  by (simp add: size_less_def)

lemma heap_inv_Init: "heap_inv K {#} (SPathHeap_Init (int K) SPathHeap_new)"
  by (auto simp: heap_inv_def SPathHeap_Init_def SPathHeap_new_def is_heap_def best_of_def dominates_def)

text \<open>\<open>Push\<close> of a candidate whose hash is new.\<close>

lemma Push_fresh:
  assumes "sh_topK h = int K" "0 < K" "sp_hash p \<notin> sh_hashSet h"
  shows "\<exists>r h'. SPathHeap_Push p False h = Some (r, h') \<and> sh_topK h' = int K \<and>
    sh_hashSet h' \<subseteq> insert (sp_hash p) (sh_hashSet h) \<and>
    sh_queue h' = (if size (mset (sh_queue h)) < K then pq_push SPathCmp p (sh_queue h)
      else if SPathCmp p (hd (sh_queue h)) then pq_push SPathCmp p (pq_pop SPathCmp (sh_queue h)) else sh_queue h)"
proof (cases "length (sh_queue h) < K")
  case True
  then show ?thesis using assms by (auto simp: SPathHeap_Push_def wants_push_def Let_def)
next
  case False
  then have "sh_queue h \<noteq> []" using assms(2) by auto
  then show ?thesis using assms False by (auto simp: SPathHeap_Push_def wants_push_def Let_def pq_top_hd)
qed

lemma Push_heap_inv:
  assumes "heap_inv K all h" "0 < K" "p \<in> whole" "sp_hash p \<notin> sp_hash ` set_mset all"
  shows "\<exists>r h'. SPathHeap_Push p False h = Some (r, h') \<and> heap_inv K (add_mset p all) h'"
proof -
  have i: "sh_topK h = int K" "is_heap SPathCmp (sh_queue h) \<and> set (sh_queue h) \<subseteq> whole"
    "sh_hashSet h \<subseteq> sp_hash ` set_mset all" "set_mset all \<subseteq> whole"
    "best_of SPathCmp K (mset (sh_queue h)) all" using assms(1) by (auto simp: heap_inv_def)
  then have "sp_hash p \<notin> sh_hashSet h" using assms(4) by auto
  then obtain r h' where h': "SPathHeap_Push p False h = Some (r, h')" "sh_topK h' = int K"
    "sh_hashSet h' \<subseteq> insert (sp_hash p) (sh_hashSet h)"
    "sh_queue h' = (if size (mset (sh_queue h)) < K then pq_push SPathCmp p (sh_queue h)
      else if SPathCmp p (hd (sh_queue h)) then pq_push SPathCmp p (pq_pop SPathCmp (sh_queue h)) else sh_queue h)"
    using Push_fresh [OF i(1) assms(2)] by blast
  have "is_heap SPathCmp (sh_queue h') \<and> set (sh_queue h') \<subseteq> whole"
    "best_of SPathCmp K (mset (sh_queue h')) (add_mset p all)"
    using sph.pq.best_insert [OF i(2) assms(3,2) i(5,4) h'(4)] by auto
  then have "heap_inv K (add_mset p all) h'" using i h' assms(3) by (auto simp: heap_inv_def)
  then show ?thesis using h'(1) by blast
qed

text \<open>A candidate that is no better than the top of a full heap may be left out.\<close>

lemma Skip_heap_inv:
  assumes "heap_inv K all h" "0 < K" "p \<in> whole" "length (sh_queue h) \<ge> K" "\<not> SPathCmp p (hd (sh_queue h))"
  shows "heap_inv K (add_mset p all) h"
  using sph.pq.best_insert [of "sh_queue h" p K all "sh_queue h"] assms by (auto simp: heap_inv_def)

lemma heap_run_inv:
  assumes "0 < K" "heap_inv K all h" "set ps \<subseteq> whole" "distinct (map sp_hash ps)"
    "sp_hash ` set ps \<inter> sp_hash ` set_mset all = {}"
  shows "\<exists>h'. heap_run ps h = Some h' \<and> heap_inv K (mset ps + all) h'"
  using assms(2-)
proof (induction ps arbitrary: all h)
  case (Cons p ps)
  obtain r h1 where h1: "SPathHeap_Push p False h = Some (r, h1)" "heap_inv K (add_mset p all) h1"
    using Push_heap_inv [OF Cons.prems(1) assms(1), of p] Cons.prems by auto
  then obtain h' where "heap_run ps h1 = Some h'" "heap_inv K (mset ps + add_mset p all) h'"
    using Cons.IH [OF h1(2)] Cons.prems by auto
  then show ?case using h1(1) by auto
qed auto

text \<open>C9: A heap of bound \<open>K > 0\<close>, filled through \<open>SPathHeap::Push\<close> with candidates whose scores are
  whole numbers and whose hashes differ, ends with the best \<open>K\<close> of them (all of them if there are
  fewer): no candidate it left out comes before one it holds in the order \<open>SPathCmp\<close>. No push fails.\<close>

theorem SPathHeap_keeps_best:
  assumes "0 < K" "\<forall>p \<in> set ps. sp_score p \<in> \<int>" "distinct (map sp_hash ps)"
  shows "\<exists>h. heap_run ps (SPathHeap_Init (int K) SPathHeap_new) = Some h \<and>
    best_of SPathCmp K (mset (sh_queue h)) (mset ps)"
  using heap_run_inv [OF assms(1) heap_inv_Init, of ps] assms(2,3) by (auto simp: whole_def heap_inv_def)

theorem SPathHeap_keeps_best_witness:
  "\<exists>h. heap_run [demo_scored 5 1, demo_scored 7 2, demo_scored 6 3] (SPathHeap_Init 2 SPathHeap_new) = Some h \<and>
    best_of SPathCmp 2 (mset (sh_queue h)) {#demo_scored 5 1, demo_scored 7 2, demo_scored 6 3#}"
  using SPathHeap_keeps_best [of 2 "[demo_scored 5 1, demo_scored 7 2, demo_scored 6 3]"]
  by (simp add: demo_scored_def add_mset_commute)


subsection \<open>The allocator\<close>

lemma new_SPath_addr [simp]: "sp_addr (new_SPath a i) = i"
  by (simp add: new_SPath_def SPath_new_def)

lemma SPath_Clear_addr [simp]: "sp_addr (SPath_Clear p) = sp_addr p"
  by (simp add: SPath_Clear_def)

lemma alloc_ok_Expand:
  assumes "alloc_ok a live" shows "alloc_ok (Expand n a) live"
proof -
  have m: "map sp_addr (al_freeS (Expand n a)) = rev [al_fresh a..<al_fresh a + n] @ map sp_addr (al_freeS a)"
    "al_fresh (Expand n a) = al_fresh a + n"
    by (simp_all add: Expand_def rev_map [symmetric] comp_def)
  then have s: "sp_addr ` set (al_freeS (Expand n a)) = {al_fresh a..<al_fresh a + n} \<union> sp_addr ` set (al_freeS a)"
    by (metis set_append set_map set_rev set_upt)
  show ?thesis using assms unfolding alloc_ok_def m s by (fastforce simp: ball_Un)
qed

lemma alloc_ok_new: "alloc_ok (SPathAlloc_new raw fresh n) {}"
  unfolding SPathAlloc_new_def by (rule alloc_ok_Expand) (simp add: alloc_ok_def)

lemma alloc_mem_Expand: "alloc_mem a \<Longrightarrow> alloc_mem (Expand n a)"
  by (auto simp: alloc_mem_def Expand_def new_SPath_def SPath_new_def arrays_ok_def)

lemma alloc_New:
  obtains p b where "SPathAlloc_New a = (Some p, b)" "alloc_ok a live \<Longrightarrow> sp_addr p \<notin> live \<and> alloc_ok b (insert (sp_addr p) live)"
    "alloc_mem a \<Longrightarrow> arrays_ok p \<and> alloc_mem b"
proof -
  define c where "c = (if al_freeS a = [] then Expand (al_initLen a div 10 + 1) a else a)"
  have c: "alloc_ok a live \<Longrightarrow> alloc_ok c live" "alloc_mem a \<Longrightarrow> alloc_mem c"
    using alloc_ok_Expand alloc_mem_Expand by (auto simp: c_def)
  have "al_freeS c \<noteq> []" by (auto simp: c_def Expand_def)
  then obtain p ps where p: "al_freeS c = p # ps" by (cases "al_freeS c") auto
  have "SPathAlloc_New a = (Some p, c\<lparr>al_freeS := ps\<rparr>)"
    unfolding SPathAlloc_New_def c_def [symmetric] Let_def p by simp
  then show thesis by (rule that) (use c p in \<open>auto simp: alloc_ok_def alloc_mem_def\<close>)
qed

lemma alloc_ok_Delete:
  "alloc_ok a live \<Longrightarrow> sp_addr p \<in> live \<Longrightarrow> SPathAlloc_Delete (Some p) a = (r, b) \<Longrightarrow> alloc_ok b (live - {sp_addr p})"
  by (auto simp: alloc_ok_def SPathAlloc_Delete_def disjoint_iff)

lemma alloc_mem_Delete: "alloc_mem a \<Longrightarrow> arrays_ok p \<Longrightarrow> alloc_mem (snd (SPathAlloc_Delete (Some p) a))"
  by (auto simp: alloc_mem_def SPathAlloc_Delete_def SPath_Clear_def arrays_ok_def)

lemma alloc_steps_ok: "alloc_steps a live b used \<Longrightarrow> alloc_ok a live \<Longrightarrow> alloc_ok b used"
proof (induction rule: alloc_steps.induct)
  case (new a live b used p c)
  then show ?case by (cases rule: alloc_New [of b used]) auto
qed (use alloc_ok_Delete in auto)

text \<open>C25: After any sequence of \<open>New\<close> and of \<open>Delete\<close> of objects in use, \<open>SPathAlloc::New\<close> returns
  an object (never \<open>NULL\<close>), and one that is not in use.\<close>

theorem SPathAlloc_history:
  assumes "alloc_steps (SPathAlloc_new raw fresh initLen) {} b used"
  shows "\<exists>p c. SPathAlloc_New b = (Some p, c) \<and> sp_addr p \<notin> used \<and> sp_addr p \<notin> sp_addr ` set (al_freeS c)"
proof -
  have "alloc_ok b used" using alloc_steps_ok [OF assms alloc_ok_new] .
  then show ?thesis by (cases rule: alloc_New [of b used]) (auto simp: alloc_ok_def)
qed

lemma demo_alloc: "\<exists>b. alloc_steps (SPathAlloc_new (\<lambda>i. demo_spath) 0 2) {} b {0}"
proof -
  let ?a = "SPathAlloc_new (\<lambda>i. demo_spath) 0 2" and ?o = "new_SPath (SPathAlloc_new (\<lambda>i. demo_spath) 0 2)"
  have n: "SPathAlloc_New ?a = (Some (?o 1), ?a\<lparr>al_freeS := [?o 0]\<rparr>)"
    "SPathAlloc_New (?a\<lparr>al_freeS := [?o 0]\<rparr>) = (Some (?o 0), ?a\<lparr>al_freeS := []\<rparr>)"
    by (simp_all add: SPathAlloc_New_def SPathAlloc_new_def Expand_def new_SPath_def upt_rec)
  have "alloc_steps ?a {} (?a\<lparr>al_freeS := []\<rparr>) {0, 1}"
    using new [OF new [OF refl [of ?a "{}"] n(1)] n(2)] by simp
  then have "alloc_steps ?a {} (?a\<lparr>al_freeS := [SPath_Clear (?o 1)]\<rparr>) ({0, 1} - {sp_addr (?o 1)})"
    by (rule del) (auto simp: SPathAlloc_Delete_def)
  moreover have "{0, 1} - {sp_addr (?o 1)} = {0}" by auto
  ultimately show ?thesis by metis
qed

theorem SPathAlloc_history_witness:
  "\<exists>b p c. alloc_steps (SPathAlloc_new (\<lambda>i. demo_spath) 0 2) {} b {0} \<and> SPathAlloc_New b = (Some p, c) \<and> sp_addr p \<noteq> 0"
proof -
  obtain b where "alloc_steps (SPathAlloc_new (\<lambda>i. demo_spath) 0 2) {} b {0}" using demo_alloc by blast
  then show ?thesis using SPathAlloc_history [of "\<lambda>i. demo_spath" 0 2 b "{0}"] by blast
qed

end
