(* ===== verification/DFS.thy ===== *)
theory DFS
  imports SPathHeap
begin

text \<open>
  The search for the order of one day (Route/bag/DFS.h and DFS.cpp).

  \<^item> \<open>dfs\<close> is the object: node 0 is the key node the day starts at, node \<open>nodeNum - 1\<close> the one it ends
    at, the others the day's visits; \<open>m_path\<close>, \<open>m_visited\<close>, the distances and \<open>m_leftRestNeed\<close> are
    written before a node is entered and reset after it is left.
  \<^item> \<open>None\<close>: an index out of range or a null pointer is used.
  \<^item> \<open>IsDFSTimeOut\<close> reads the wall clock: \<open>clock\<close> gives its answer at each reading, \<open>df_reads\<close> counts
    them. \<open>BagParam::m_dfsDayHeapLimit\<close>, read from a configuration file, is the parameter \<open>limit\<close>.
    The tracing switch \<open>dfsDbg\<close> has its value 0.
  \<^item> \<open>Search\<close> calls itself through \<open>SearchView\<close> and \<open>SearchRest\<close>, which take the recursive call as
    their argument; its fuel is the number of nodes still to be placed, \<open>nodeNum - len\<close>. Distances
    and scores are unbounded integers.

  The property: the search, with its pruning, returns the best orders among all that respect the
  traffic table and the meals.
\<close>

definition m_nonWalkPenalty :: int where "m_nonWalkPenalty = 2000"
definition m_maxWalkDay :: int where "m_maxWalkDay = 3000"
definition m_firstLPenalty :: int where "m_firstLPenalty = 3000"
definition m_dayNodeLimit :: nat where "m_dayNodeLimit = 20"

record dfs =
  df_nodeNum :: nat
  df_len :: nat
  df_totDist :: int
  df_nonWalkCnt :: int
  df_walkDist :: int
  df_visited :: "bool list"
  df_traf :: "traffic option list"
  df_vPosList :: "u8 list"
  df_leftRestNeed :: u8
  df_blockRestNeed :: u8
  df_path :: "nat list"
  df_vType :: "u8 list"
  df_heap :: spheap
  df_sCnt :: u32
  df_tCnt :: u32
  df_bPos :: u8
  df_zipDurList :: "int list"
  df_openCloseList :: "openclose option list list"
  df_start :: int
  df_stop :: int
  df_reads :: nat

section \<open>Init\<close>

definition day_pos :: "spath \<Rightarrow> u8 \<Rightarrow> u8 list option" where
  "day_pos rich bPos0 =
     map_option concat (those (map (\<lambda>i. do {
       vPos \<leftarrow> GetVPos (int i) rich;
       bPos \<leftarrow> GetBPos vPos rich;
       Some (if bPos = bPos0 then [vPos] else []) }) [0..<nat (sp_len rich)]))"

text \<open>The first restaurant, and the last one if there are two or more.\<close>

fun rest_idx :: "nat \<Rightarrow> u8 list \<Rightarrow> nat option \<times> nat option \<Rightarrow> nat option \<times> nat option" where
  "rest_idx i [] r = r"
| "rest_idx i (t # ts) r =
     rest_idx (Suc i) ts
       (if has_flag t NODE_FUNC_PLACE_RESTAURANT
        then (if fst r = None then (Some i, snd r) else (fst r, Some i)) else r)"

definition fix_meals :: "nat option \<times> nat option \<Rightarrow> u8 list \<Rightarrow> u8 list" where
  "fix_meals r ts =
     (case r of
        (Some a, Some b) \<Rightarrow>
          if ts ! a = NODE_FUNC_PLACE_REST_LUNCH then ts[b := NODE_FUNC_PLACE_REST_SUPPER]
          else if ts ! a = NODE_FUNC_PLACE_REST_SUPPER then ts[b := NODE_FUNC_PLACE_REST_LUNCH]
          else if ts ! b = NODE_FUNC_PLACE_REST_LUNCH then ts[a := NODE_FUNC_PLACE_REST_SUPPER]
          else if ts ! b = NODE_FUNC_PLACE_REST_SUPPER then ts[a := NODE_FUNC_PLACE_REST_LUNCH]
          else ts
      | _ \<Rightarrow> ts)"

definition rest_need :: "nat option \<times> nat option \<Rightarrow> u8 list \<Rightarrow> u8" where
  "rest_need r ts =
     (NODE_FUNC_NULL OR (case fst r of Some a \<Rightarrow> ts ! a | None \<Rightarrow> 0)) OR (case snd r of Some b \<Rightarrow> ts ! b | None \<Rightarrow> 0)"

definition dfs_place_types :: u32 where
  "dfs_place_types = LY_PLACE_TYPE_VIEW OR LY_PLACE_TYPE_RESTAURANT OR LY_PLACE_TYPE_SHOP OR LY_PLACE_TYPE_TOURALL
     OR LY_PLACE_TYPE_VIEWTICKET"

text \<open>The loop of \<open>Init4Clash\<close>; \<open>Inl\<close>: it returns 1.\<close>

fun clash_tables :: "bagplan \<Rightarrow> timeblock \<Rightarrow> u8 list \<Rightarrow> (int + (int \<times> openclose option list) list) option" where
  "clash_tables bg block [] = Some (Inr [])"
| "clash_tables bg block (vPos # vs) =
     (case GetPosPlace bg vPos of
        None \<Rightarrow> Some (Inl 1)
      | Some place \<Rightarrow> do {
          zipDur \<leftarrow> (if has_flag (lp_t place) dfs_place_types then GetZipDur (bg_base bg) place else Some (-1));
          r \<leftarrow> clash_tables bg block vs;
          Some (case r of Inl e \<Rightarrow> Inl e
                | Inr rs \<Rightarrow> Inr ((zipDur, case TimeBlock_GetPlaceInfo (lp_ID place) block of
                                     None \<Rightarrow> [] | Some pin \<Rightarrow> pin_availOpenCloseList pin) # rs)) })"

definition Init4Clash :: "bagplan \<Rightarrow> int \<Rightarrow> dfs \<Rightarrow> (int \<times> dfs) option" where
  "Init4Clash bg blockIdx d =
     (case (GetBlock (bg_base bg) blockIdx, GetKey (bg_base bg) blockIdx, GetKey (bg_base bg) (blockIdx + 1)) of
        (Some block, Some fromKey, Some toKey) \<Rightarrow> do {
          r \<leftarrow> clash_tables bg block (take (df_nodeNum d) (df_vPosList d));
          case r of Inl e \<Rightarrow> Some (e, d)
          | Inr rs \<Rightarrow> Some (0, d\<lparr>df_zipDurList := map fst rs, df_openCloseList := map snd rs,
                               df_start := kn_close fromKey, df_stop := kn_close toKey - ds_zip (kn_durS toKey)\<rparr>) }
      | _ \<Rightarrow> Some (1, d))"

text \<open>The object is fresh: its heap is empty. The arrays are kept at the length \<open>nodeNum\<close> that is
  used, the path at its capacity.\<close>

definition DFS_Init :: "int \<Rightarrow> bagplan \<Rightarrow> spath \<Rightarrow> int \<Rightarrow> dfs \<Rightarrow> (int \<times> dfs) option" where
  "DFS_Init limit bg rich blockIdx d0 = do {
     let bPos = (word_of_int blockIdx :: u8);
     let d1 = d0\<lparr>df_nodeNum := 0, df_len := 0, df_bPos := bPos, df_totDist := 0, df_nonWalkCnt := 0,
                 df_walkDist := 0, df_sCnt := 0, df_tCnt := 0, df_heap := SPathHeap_Init limit (df_heap d0)\<rparr>;
     vPosList \<leftarrow> day_pos rich bPos;
     if length vPosList + 2 > m_dayNodeLimit then Some (1, d1)
     else
       (let vs = bPos # sort vPosList @ [bPos + 1];
            ts0 = map (GetVType bg bPos) vs;
            r = rest_idx 0 ts0 (None, None);
            ts = fix_meals r ts0
        in Init4Clash bg blockIdx
             (d1\<lparr>df_nodeNum := length vs, df_vPosList := vs, df_vType := ts,
                 df_blockRestNeed := rest_need r ts, df_leftRestNeed := rest_need r ts,
                 df_traf := concat (map (\<lambda>vA. map (GetPosTraf bg bPos vA) vs) vs),
                 df_visited := replicate (length vs) False\<rparr>)) }"

section \<open>Judging an order\<close>

definition GetScore :: "int \<Rightarrow> dfs \<Rightarrow> int" where
  "GetScore firstL d =
     -1 * (df_totDist d + max (df_nonWalkCnt d - 1) 0 * m_nonWalkPenalty + max (df_walkDist d - m_maxWalkDay) 0
           + firstL * m_firstLPenalty)"

datatype slot_res = Lost | Unplanned | Planned int nat bool

text \<open>The opening slots of node \<open>idx\<close>, from slot \<open>j\<close> on: \<open>Planned dept j firstL\<close> when slot \<open>j\<close> is taken.\<close>

fun slot_scan :: "dfs \<Rightarrow> nat \<Rightarrow> nat \<Rightarrow> int \<Rightarrow> u8 \<Rightarrow> nat \<Rightarrow> openclose option list \<Rightarrow> slot_res option" where
  "slot_scan d i idx arv left j [] = Some Unplanned"
| "slot_scan d i idx arv left j (oc # ocs) = do {
     vType \<leftarrow> arr_get (df_vType d) (int idx);
     let rest = has_flag vType NODE_FUNC_PLACE_RESTAURANT;
     if rest \<and> (oc = None \<or> j = 0 \<and> \<not> has_flag left NODE_FUNC_PLACE_REST_LUNCH
                 \<or> j = 1 \<and> \<not> has_flag left NODE_FUNC_PLACE_REST_SUPPER)
     then slot_scan d i idx arv left (Suc j) ocs
     else do {
       w \<leftarrow> oc;
       let newArv = (if arv < oc_open w then oc_open w else arv);
       zip \<leftarrow> arr_get (df_zipDurList d) (int idx);
       if zip = -1 then Some Lost
       else
         (let newDept = newArv + zip in
          if newDept > oc_close w then slot_scan d i idx arv left (Suc j) ocs
          else if newDept > df_stop d then Some Unplanned
          else Some (Planned newDept j (i = 1 \<and> rest \<and> newArv - arv > 3600))) } }"

text \<open>The path from its \<open>i\<close>-th node on, \<open>last\<close> the node before: the returned code, the clash and
  whether the day starts with a long wait for a meal.\<close>

fun clash_loop ::
  "bagplan \<Rightarrow> dfs \<Rightarrow> nat \<Rightarrow> int \<Rightarrow> u8 \<Rightarrow> int \<Rightarrow> nat \<Rightarrow> nat list \<Rightarrow> (int \<times> int \<times> int) option" where
  "clash_loop bg d i offset left firstL idxLast [] = Some (0, 0, firstL)"
| "clash_loop bg d i offset left firstL idxLast (idx # rest) = do {
     vPos \<leftarrow> arr_get (df_vPosList d) (int idx);
     vPosLast \<leftarrow> arr_get (df_vPosList d) (int idxLast);
     case GetPosTraf bg (df_bPos d) vPosLast vPos of
       None \<Rightarrow> Some (1, 0, firstL)
     | Some trafItem \<Rightarrow>
         (let arv = offset + tr_time trafItem in
          if rest = [] then Some (0, of_bool (arv > df_stop d), firstL)
          else do {
            ocs \<leftarrow> arr_get (df_openCloseList d) (int idx);
            vType \<leftarrow> arr_get (df_vType d) (int idx);
            r \<leftarrow> slot_scan d i idx arv left 0 ocs;
            case r of
              Lost \<Rightarrow> Some (1, 0, firstL)
            | Unplanned \<Rightarrow> Some (0, 1, firstL)
            | Planned newDept j fl \<Rightarrow>
                clash_loop bg d (Suc i) newDept
                  (if has_flag vType NODE_FUNC_PLACE_RESTAURANT
                   then (if j = 0 then left AND NOT NODE_FUNC_PLACE_REST_LUNCH
                         else if j = 1 then left AND NOT NODE_FUNC_PLACE_REST_SUPPER else left)
                   else left)
                  (if fl then 1 else firstL) idx rest }) }"

definition CalClash :: "bagplan \<Rightarrow> dfs \<Rightarrow> (int \<times> int \<times> int) option" where
  "CalClash bg d =
     (case take (df_len d) (df_path d) of
        [] \<Rightarrow> Some (0, 0, 0)
      | idx0 # rest \<Rightarrow> clash_loop bg d 1 (df_start d) (df_blockRestNeed d) 0 idx0 rest)"

section \<open>The search\<close>

fun push_nodes :: "dfs \<Rightarrow> nat list \<Rightarrow> spath \<Rightarrow> spath option" where
  "push_nodes d [] p = Some p"
| "push_nodes d (idx # rest) p = do {
     vPos \<leftarrow> arr_get (df_vPosList d) (int idx);
     (r, p1) \<leftarrow> PushV (df_bPos d) vPos 0 0 0 NODE_FUNC_NULL p;
     push_nodes d rest p1 }"

definition day_path :: "bagplan \<Rightarrow> dfs \<Rightarrow> int \<Rightarrow> int \<Rightarrow> spath \<Rightarrow> spath option" where
  "day_path bg d clash firstL obj = do {
     p0 \<leftarrow> SPath_Init bg obj;
     p1 \<leftarrow> push_nodes d (butlast (tl (take (df_len d) (df_path d)))) p0;
     Some (CalHashPointOrder (SetScore (of_int (GetScore firstL d)) (SetFirstL firstL (SetClash clash
       (SetDist (df_totDist d) p1))))) }"

definition PushPath :: "bagplan \<Rightarrow> dfs \<times> spalloc \<Rightarrow> (int \<times> dfs \<times> spalloc) option" where
  "PushPath bg = (\<lambda>(d, al). do {
     can \<leftarrow> CanPush (of_int (GetScore 0 d)) 0 0 (df_heap d);
     if \<not> can then Some (0, d, al)
     else do {
       (ret, clash, firstL) \<leftarrow> CalClash bg d;
       if ret \<noteq> 0 then Some (1, d, al)
       else do {
         let (obj, al1) = SPathAlloc_New al;
         o1 \<leftarrow> obj;
         sPath \<leftarrow> day_path bg d clash firstL o1;
         (dPath, h) \<leftarrow> SPathHeap_Push sPath False (df_heap d);
         Some (0, d\<lparr>df_heap := h\<rparr>, if dPath \<noteq> None then snd (SPathAlloc_Delete dPath al1) else al1) } } })"

definition walking :: "traffic \<Rightarrow> bool" where
  "walking t \<longleftrightarrow> tr_mode t = traf_mode_int TRAF_MODE_WALKING"

definition enter :: "nat \<Rightarrow> traffic \<Rightarrow> dfs \<Rightarrow> dfs option" where
  "enter idx t d = do {
     path \<leftarrow> arr_set (df_path d) (int (df_len d)) idx;
     visited \<leftarrow> arr_set (df_visited d) (int idx) True;
     Some (d\<lparr>df_path := path, df_len := df_len d + 1, df_visited := visited, df_totDist := df_totDist d + tr_dist t,
             df_nonWalkCnt := df_nonWalkCnt d + (if walking t then 0 else 1),
             df_walkDist := df_walkDist d + (if walking t then tr_dist t else 0)\<rparr>) }"

definition leave :: "nat \<Rightarrow> traffic \<Rightarrow> dfs \<Rightarrow> dfs option" where
  "leave idx t d = do {
     visited \<leftarrow> arr_set (df_visited d) (int idx) False;
     Some (d\<lparr>df_totDist := df_totDist d - tr_dist t, df_nonWalkCnt := df_nonWalkCnt d - (if walking t then 0 else 1),
             df_walkDist := df_walkDist d - (if walking t then tr_dist t else 0), df_visited := visited,
             df_len := df_len d - 1\<rparr>) }"

definition leg_to :: "nat \<Rightarrow> dfs \<Rightarrow> traffic option option" where
  "leg_to idx d = do {
     lastIdx \<leftarrow> arr_get (df_path d) (int (df_len d) - 1);
     arr_get (df_traf d) (int (lastIdx * df_nodeNum d + idx)) }"

type_synonym dstate = "dfs \<times> spalloc"

text \<open>Entering \<open>idx\<close> over \<open>t\<close>, what is done there, and leaving it: the common part of the three places.\<close>

definition visit :: "(dstate \<Rightarrow> (int \<times> dstate) option) \<Rightarrow> nat \<Rightarrow> traffic \<Rightarrow> dstate \<Rightarrow> (int \<times> dstate) option" where
  "visit act idx t = (\<lambda>(d, al). do {
     d1 \<leftarrow> enter idx t d;
     (r, d2, al2) \<leftarrow> act (d1, al);
     d3 \<leftarrow> leave idx t d2;
     Some (0, d3, al2) })"

definition SearchView :: "(dstate \<Rightarrow> (int \<times> dstate) option) \<Rightarrow> nat \<Rightarrow> dstate \<Rightarrow> (int \<times> dstate) option" where
  "SearchView srch idx st = do {
     trafItem \<leftarrow> leg_to idx (fst st);
     case trafItem of None \<Rightarrow> Some (0, st) | Some t \<Rightarrow> visit srch idx t st }"

text \<open>The meals still to be placed after a restaurant of type \<open>vType\<close>; \<open>None\<close> when it is refused.\<close>

definition rest_step :: "u8 \<Rightarrow> u8 \<Rightarrow> u8 option" where
  "rest_step left vType =
     (if \<not> has_flag vType NODE_FUNC_PLACE_RESTAURANT then None
      else if has_flag left NODE_FUNC_PLACE_REST_LUNCH \<and> \<not> has_flag vType NODE_FUNC_PLACE_REST_LUNCH
              \<or> left = NODE_FUNC_PLACE_REST_SUPPER \<and> \<not> has_flag vType NODE_FUNC_PLACE_REST_SUPPER then None
      else if has_flag left NODE_FUNC_PLACE_REST_LUNCH then Some (left AND NOT NODE_FUNC_PLACE_REST_LUNCH)
      else if has_flag left NODE_FUNC_PLACE_REST_SUPPER then Some (left AND NOT NODE_FUNC_PLACE_REST_SUPPER)
      else None)"

definition SearchRest :: "(dstate \<Rightarrow> (int \<times> dstate) option) \<Rightarrow> nat \<Rightarrow> dstate \<Rightarrow> (int \<times> dstate) option" where
  "SearchRest srch idx st = do {
     trafItem \<leftarrow> leg_to idx (fst st);
     case trafItem of None \<Rightarrow> Some (0, st)
     | Some t \<Rightarrow> do {
         vType \<leftarrow> arr_get (df_vType (fst st)) (int idx);
         let oriRNeed = df_leftRestNeed (fst st);
         case rest_step oriRNeed vType of None \<Rightarrow> Some (0, st)
         | Some left \<Rightarrow> do {
             (r, d1, al1) \<leftarrow> visit srch idx t ((fst st)\<lparr>df_leftRestNeed := left\<rparr>, snd st);
             Some (0, d1\<lparr>df_leftRestNeed := oriRNeed\<rparr>, al1) } } }"

definition tick :: "(nat \<Rightarrow> bool) \<Rightarrow> dfs \<Rightarrow> bool \<times> dfs" where
  "tick clock d =
     (let c = df_sCnt d + 1 in
      if c > 20000 then
        (if clock (df_reads d) then (True, d\<lparr>df_sCnt := c, df_reads := df_reads d + 1\<rparr>)
         else (False, d\<lparr>df_tCnt := df_tCnt d + 20000, df_sCnt := 0, df_reads := df_reads d + 1\<rparr>))
      else (False, d\<lparr>df_sCnt := c\<rparr>))"

definition leaf :: "bagplan \<Rightarrow> dstate \<Rightarrow> (int \<times> dstate) option" where
  "leaf bg st =
     (let tailIdx = df_nodeNum (fst st) - 1 in do {
        trafItem \<leftarrow> leg_to tailIdx (fst st);
        case trafItem of None \<Rightarrow> Some (0, st) | Some t \<Rightarrow> visit (PushPath bg) tailIdx t st })"

fun node_loop :: "(dstate \<Rightarrow> (int \<times> dstate) option) \<Rightarrow> nat list \<Rightarrow> dstate \<Rightarrow> (int \<times> dstate) option" where
  "node_loop srch [] st = Some (0, st)"
| "node_loop srch (idx # is) st = do {
     seen \<leftarrow> arr_get (df_visited (fst st)) (int idx);
     if seen then node_loop srch is st
     else do {
       vType \<leftarrow> arr_get (df_vType (fst st)) (int idx);
       (r, st1) \<leftarrow> (if has_flag vType NODE_FUNC_PLACE_RESTAURANT then SearchRest srch idx st else SearchView srch idx st);
       node_loop srch is st1 } }"

fun Search :: "(nat \<Rightarrow> bool) \<Rightarrow> bagplan \<Rightarrow> nat \<Rightarrow> dstate \<Rightarrow> (int \<times> dstate) option" where
  "Search clock bg 0 st = None"
| "Search clock bg (Suc fuel) st =
     (let (late, d) = tick clock (fst st); al = snd st in
      if late then Some (1, d, al)
      else if df_len d + 1 \<ge> df_nodeNum d then leaf bg (d, al)
      else do {
        can \<leftarrow> CanPush (of_int (GetScore 0 d)) 0 0 (df_heap d);
        if \<not> can then Some (1, d, al)
        else node_loop (Search clock bg fuel) [1..<df_nodeNum d - 1] (d, al) })"

definition DoSearch ::
  "(nat \<Rightarrow> bool) \<Rightarrow> int \<Rightarrow> bagplan \<Rightarrow> spath \<Rightarrow> int \<Rightarrow> dfs \<Rightarrow> spalloc \<Rightarrow> (int \<times> spath list \<times> dstate) option" where
  "DoSearch clock limit bg rich blockIdx d0 al = do {
     (ret, d) \<leftarrow> DFS_Init limit bg rich blockIdx d0;
     if ret \<noteq> 0 then Some (ret, [], d, al)
     else do {
       path \<leftarrow> arr_set (df_path d) (int (df_len d)) 0;
       visited \<leftarrow> arr_set (df_visited d) 0 True;
       (r, d1, al1) \<leftarrow> Search clock bg (df_nodeNum d)
         (d\<lparr>df_path := path, df_len := df_len d + 1, df_visited := visited\<rparr>, al);
       Some (0, SPathHeap_CopyVal (df_heap d1), d1, al1) } }"

text \<open>Specification. The static data of the search; legs, sums and meals of a sequence of nodes; what the
  judgement says of a complete one; the candidate it gives.\<close>

definition same_day :: "dfs \<Rightarrow> dfs \<Rightarrow> bool" where
  "same_day d0 d \<longleftrightarrow> df_nodeNum d = df_nodeNum d0 \<and> df_traf d = df_traf d0 \<and> df_vPosList d = df_vPosList d0 \<and>
     df_blockRestNeed d = df_blockRestNeed d0 \<and> df_vType d = df_vType d0 \<and> df_bPos d = df_bPos d0 \<and>
     df_zipDurList d = df_zipDurList d0 \<and> df_openCloseList d = df_openCloseList d0 \<and>
     df_start d = df_start d0 \<and> df_stop d = df_stop d0"

definition leg_of :: "dfs \<Rightarrow> nat \<Rightarrow> nat \<Rightarrow> traffic option" where
  "leg_of d a b = df_traf d ! (a * df_nodeNum d + b)"

definition pairs :: "'a list \<Rightarrow> ('a \<times> 'a) list" where
  "pairs ns = zip ns (tl ns)"

definition leg_sum :: "(traffic \<Rightarrow> int) \<Rightarrow> dfs \<Rightarrow> nat list \<Rightarrow> int" where
  "leg_sum f d ns = (\<Sum>(a, b) \<leftarrow> pairs ns. f (the (leg_of d a b)))"

definition ride :: "traffic \<Rightarrow> int" where "ride t = (if walking t then 0 else 1)"
definition walk :: "traffic \<Rightarrow> int" where "walk t = (if walking t then tr_dist t else 0)"

definition order_score :: "dfs \<Rightarrow> int \<Rightarrow> nat list \<Rightarrow> int" where
  "order_score d firstL ns =
     - (leg_sum tr_dist d ns + max (leg_sum ride d ns - 1) 0 * 2000 + max (leg_sum walk d ns - 3000) 0 + firstL * 3000)"

fun meals :: "dfs \<Rightarrow> u8 \<Rightarrow> nat list \<Rightarrow> u8 option" where
  "meals d left [] = Some left"
| "meals d left (n # ns) =
     (if has_flag (df_vType d ! n) NODE_FUNC_PLACE_RESTAURANT
      then (case rest_step left (df_vType d ! n) of None \<Rightarrow> None | Some l \<Rightarrow> meals d l ns) else meals d left ns)"

definition judge :: "bagplan \<Rightarrow> dfs \<Rightarrow> nat list \<Rightarrow> (int \<times> int \<times> int) option" where
  "judge bg d ns = clash_loop bg d 1 (df_start d) (df_blockRestNeed d) 0 (hd ns) (tl ns)"

definition day_orders :: "bagplan \<Rightarrow> dfs \<Rightarrow> nat list set" where
  "day_orders bg d =
     {ns. \<exists>xs. ns = 0 # xs @ [df_nodeNum d - 1] \<and> distinct xs \<and> set xs = {1..<df_nodeNum d - 1} \<and>
        successively (\<lambda>a b. leg_of d a b \<noteq> None) ns \<and> meals d (df_blockRestNeed d) xs \<noteq> None \<and>
        (\<exists>clash firstL. judge bg d ns = Some (0, clash, firstL))}"

definition clash_of :: "bagplan \<Rightarrow> dfs \<Rightarrow> nat list \<Rightarrow> int" where
  "clash_of bg d ns = fst (snd (the (judge bg d ns)))"

definition firstL_of :: "bagplan \<Rightarrow> dfs \<Rightarrow> nat list \<Rightarrow> int" where
  "firstL_of bg d ns = snd (snd (the (judge bg d ns)))"

definition visits_of :: "dfs \<Rightarrow> nat list \<Rightarrow> u8 list" where
  "visits_of d ns = map (\<lambda>n. df_vPosList d ! n) (butlast (tl ns))"

definition hash_of :: "bagplan \<Rightarrow> dfs \<Rightarrow> nat list \<Rightarrow> u32" where
  "hash_of bg d ns =
     Hash_vec (concat (map (\<lambda>b. map ucast (if b = unat (df_bPos d) then visits_of d ns else []) @ [0])
       [0..<length (bp_BlockList (bg_base bg))]))"

definition order_key :: "bagplan \<Rightarrow> dfs \<Rightarrow> nat list \<Rightarrow> int \<times> int \<times> u32" where
  "order_key bg d ns = (clash_of bg d ns, - order_score d (firstL_of bg d ns) ns, hash_of bg d ns)"

definition path_of :: "bagplan \<Rightarrow> dfs \<Rightarrow> nat list \<Rightarrow> spath \<Rightarrow> bool" where
  "path_of bg d ns p \<longleftrightarrow> sp_missLevel p = 0 \<and> sp_clash p = clash_of bg d ns \<and> sp_firstL p = firstL_of bg d ns \<and>
     sp_dist p = leg_sum tr_dist d ns \<and> sp_score p = of_int (order_score d (firstL_of bg d ns) ns) \<and>
     sp_hash p = hash_of bg d ns \<and> sp_used p = visits_of d ns \<and> spath_ok p \<and> sp_nodeNum p = bg_nodeNum bg \<and>
     sp_blockNum p = int (length (bp_BlockList (bg_base bg))) \<and> (\<forall>v \<in> set (sp_used p). sp_bPos p ! unat v = df_bPos d)"

definition order_cand :: "bagplan \<Rightarrow> dfs \<Rightarrow> nat list \<Rightarrow> spath \<Rightarrow> spath" where
  "order_cand bg d ns p = CalHashPointOrder (SetScore (of_int (order_score d (firstL_of bg d ns) ns)) (SetFirstL (firstL_of bg d ns)
     (SetClash (clash_of bg d ns) (SetDist (leg_sum tr_dist d ns) p))))"

text \<open>The complete sequences the search reaches from the nodes \<open>ns\<close>, \<open>k\<close> visits being left.\<close>

fun reached :: "bagplan \<Rightarrow> dfs \<Rightarrow> nat \<Rightarrow> u8 \<Rightarrow> nat list \<Rightarrow> nat list list" where
  "reached bg d 0 left ns =
     (if leg_of d (last ns) (df_nodeNum d - 1) \<noteq> None \<and> fst (the (judge bg d (ns @ [df_nodeNum d - 1]))) = 0
      then [ns @ [df_nodeNum d - 1]] else [])"
| "reached bg d (Suc k) left ns =
     concat (map (\<lambda>n. if n \<in> set ns \<or> leg_of d (last ns) n = None then []
                      else (case meals d left [n] of None \<Rightarrow> [] | Some l \<Rightarrow> reached bg d k l (ns @ [n])))
                 [1..<df_nodeNum d - 1])"

text \<open>The state of the search at the nodes \<open>ns\<close>; and what is assumed of the day.\<close>

definition search_at :: "dfs \<Rightarrow> nat list \<Rightarrow> u8 \<Rightarrow> dfs \<Rightarrow> bool" where
  "search_at d0 ns left d \<longleftrightarrow> same_day d0 d \<and> ns \<noteq> [] \<and> df_len d = length ns \<and> take (length ns) (df_path d) = ns \<and>
     length (df_path d) = m_dayNodeLimit \<and> df_visited d = map (\<lambda>i. i \<in> set ns) [0..<df_nodeNum d0] \<and>
     df_totDist d = leg_sum tr_dist d0 ns \<and> df_nonWalkCnt d = leg_sum ride d0 ns \<and> df_walkDist d = leg_sum walk d0 ns \<and>
     df_leftRestNeed d = left"

definition day_ok :: "bagplan \<Rightarrow> dfs \<Rightarrow> bool" where
  "day_ok bg d \<longleftrightarrow> 2 \<le> df_nodeNum d \<and> df_nodeNum d \<le> m_dayNodeLimit \<and> length (df_vPosList d) = df_nodeNum d \<and>
     length (df_vType d) = df_nodeNum d \<and> length (df_zipDurList d) = df_nodeNum d \<and>
     length (df_openCloseList d) = df_nodeNum d \<and> length (df_traf d) = df_nodeNum d * df_nodeNum d \<and>
     (\<forall>i < df_nodeNum d. \<not> has_flag (df_vType d ! i) NODE_FUNC_PLACE_RESTAURANT \<longrightarrow> None \<notin> set (df_openCloseList d ! i)) \<and>
     (\<forall>t. Some t \<in> set (df_traf d) \<longrightarrow> 0 \<le> tr_dist t) \<and>
     distinct (tl (butlast (df_vPosList d))) \<and> (\<forall>v \<in> set (tl (butlast (df_vPosList d))). uint v < bg_nodeNum bg) \<and>
     0 \<le> bg_nodeNum bg \<and> bg_nodeNum bg \<le> int kPathLimit \<and> unat (df_bPos d) < length (bp_BlockList (bg_base bg)) \<and>
     length (bp_BlockList (bg_base bg)) \<le> kBlockLimit"

text \<open>The candidates seen so far are those of the sequences \<open>os\<close>; an action at \<open>ns\<close> adds those of \<open>new\<close>.\<close>

definition holds :: "nat \<Rightarrow> bagplan \<Rightarrow> dfs \<Rightarrow> nat list list \<Rightarrow> dstate \<Rightarrow> bool" where
  "holds K bg d0 os st \<longleftrightarrow> alloc_mem (snd st) \<and> (\<forall>p \<in> set (sh_queue (df_heap (fst st))). arrays_ok p) \<and>
     (\<exists>ps. list_all2 (path_of bg d0) os ps \<and> heap_inv K (mset ps) (df_heap (fst st)))"

definition adds ::
  "nat \<Rightarrow> bagplan \<Rightarrow> dfs \<Rightarrow> nat list \<Rightarrow> u8 \<Rightarrow> (dstate \<Rightarrow> (int \<times> dstate) option) \<Rightarrow> nat list list \<Rightarrow> bool" where
  "adds K bg d0 ns left act new \<longleftrightarrow>
     (\<forall>os st. search_at d0 ns left (fst st) \<longrightarrow> holds K bg d0 os st \<longrightarrow> distinct (map (hash_of bg d0) (os @ new)) \<longrightarrow>
        (\<exists>r st'. act st = Some (r, st') \<and> search_at d0 ns left (fst st') \<and> holds K bg d0 (os @ new) st'))"

definition node_op :: "u8 \<Rightarrow> u8 \<Rightarrow> pushop" where
  "node_op b v = \<lparr>pu_bPos = b, pu_vPos = v, pu_hot = 0, pu_dur = 0, pu_bid = 0, pu_vType = NODE_FUNC_NULL\<rparr>"

definition completes :: "bagplan \<Rightarrow> dfs \<Rightarrow> u8 \<Rightarrow> nat list \<Rightarrow> nat list \<Rightarrow> bool" where
  "completes bg d left xs ys \<longleftrightarrow> distinct (xs @ ys) \<and> set (xs @ ys) = {1..<df_nodeNum d - 1} \<and>
     successively (\<lambda>a b. leg_of d a b \<noteq> None) (last (0 # xs) # ys @ [df_nodeNum d - 1]) \<and> meals d left ys \<noteq> None \<and>
     (\<exists>c f. judge bg d (0 # xs @ ys @ [df_nodeNum d - 1]) = Some (0, c, f))"

text \<open>A day with two visits, positions 2 and 3, between the key nodes 0 and 1.\<close>

definition demo_view :: lyplace where
  "demo_view = place0\<lparr>lp_ID := ''v1'', lp_t := LY_PLACE_TYPE_VIEW, lp_isVar := True\<rparr>"

definition demo_pinfo :: placeinfo where
  "demo_pinfo = \<lparr>pi_vPlace = demo_view, pin_arvID = ''v1'', pin_deptID = ''v1'', pin_openCloseList = [Some (OpenClose_new 0 900 800 0)],
     pin_availOpenCloseList = [Some (OpenClose_new 0 900 800 0)], pin_dur = 50, pin_cost = 0, pin_type = 0, pin_timeZone = 8\<rparr>"

definition demo_day_bag :: bagplan where
  "demo_day_bag = (BagPlan_new (BasePlan_new\<lparr>
       bp_BlockList := [(TimeBlock_new 0 1000 ''20160711'' 900 0 8)\<lparr>tb_pInfoMap := [''v1'' \<mapsto> demo_pinfo]\<rparr>],
       bp_KeyNode := [demo_key, demo_key\<lparr>kn_close := 1000\<rparr>], bp_durSMap := [''v1'' \<mapsto> DurS_new 50 50 50 50 50]\<rparr>))
     \<lparr>bg_nodeNum := 4, bg_kNum := 2, bg_blockNum := 1, bg_posPList := replicate 4 demo_view, bg_vTypeList := replicate 4 NODE_FUNC_PLACE_VIEW_SHOP\<rparr>"

definition demo_rich :: spath where
  "demo_rich = demo_spath\<lparr>sp_nodeNum := 4, sp_blockNum := 1, sp_len := 2, sp_vPos := 2 # 3 # replicate (kPathLimit - 2) 0\<rparr>"

definition demo_dfs :: dfs where
  "demo_dfs = \<lparr>df_nodeNum = 0, df_len = 0, df_totDist = 0, df_nonWalkCnt = 0, df_walkDist = 0, df_visited = [], df_traf = [],
     df_vPosList = [], df_leftRestNeed = 0, df_blockRestNeed = 0, df_path = replicate m_dayNodeLimit 0, df_vType = [],
     df_heap = SPathHeap_new, df_sCnt = 0, df_tCnt = 0, df_bPos = 0, df_zipDurList = [], df_openCloseList = [],
     df_start = 0, df_stop = 0, df_reads = 0\<rparr>"

definition demo_day :: dfs where
  "demo_day = snd (the (DFS_Init 1 demo_day_bag demo_rich 0 demo_dfs))"

section \<open>Lemmas\<close>

subsection \<open>Sequences of nodes\<close>

lemma pairs_snoc: "ns \<noteq> [] \<Longrightarrow> pairs (ns @ [n]) = pairs ns @ [(last ns, n)]"
  unfolding pairs_def by (induction ns rule: induct_list012) auto

lemma leg_sum_snoc: "ns \<noteq> [] \<Longrightarrow> leg_sum f d (ns @ [n]) = leg_sum f d ns + f (the (leg_of d (last ns) n))"
  by (simp add: leg_sum_def pairs_snoc)

lemma meals_append: "meals d left (xs @ ys) = (case meals d left xs of None \<Rightarrow> None | Some l \<Rightarrow> meals d l ys)"
  by (induction d left xs rule: meals.induct) (auto split: option.splits)

lemma mat_idx: "a < n \<Longrightarrow> b < n \<Longrightarrow> a * n + b < n * (n :: nat)"
  using mult_le_mono1 [of "Suc a" n n] by (simp add: algebra_simps)

lemma leg_of_nonneg:
  assumes "day_ok bg d" "a < df_nodeNum d" "b < df_nodeNum d" "leg_of d a b = Some t"
  shows "0 \<le> tr_dist t"
proof -
  have "Some t \<in> set (df_traf d)"
    using assms mat_idx [OF assms(2,3)] unfolding leg_of_def day_ok_def by (metis nth_mem)
  then show ?thesis using assms(1) by (auto simp: day_ok_def)
qed

text \<open>A further node never improves the score.\<close>

lemma order_score_snoc:
  assumes "day_ok bg d" "set ns \<subseteq> {..<df_nodeNum d}" "ns \<noteq> []" "n < df_nodeNum d" "leg_of d (last ns) n = Some t"
  shows "order_score d f (ns @ [n]) \<le> order_score d f ns"
proof -
  have "last ns < df_nodeNum d" using assms(2,3) by (metis last_in_set lessThan_iff subsetD)
  then have "0 \<le> tr_dist t" using leg_of_nonneg assms(1,4,5) by blast
  then show ?thesis using assms(3,5) by (simp add: order_score_def leg_sum_snoc ride_def walk_def max_def)
qed

lemma order_score_firstL: "0 \<le> f \<Longrightarrow> order_score d f ns \<le> order_score d 0 ns"
  by (simp add: order_score_def)

lemma reached_score:
  assumes "day_ok bg d" "ns \<noteq> []" "set ns \<subseteq> {..<df_nodeNum d}" "o1 \<in> set (reached bg d k left ns)"
  shows "order_score d 0 o1 \<le> order_score d 0 ns"
  using assms(2-)
proof (induction k arbitrary: left ns)
  case 0
  then show ?case using order_score_snoc [OF assms(1) 0(2,1), of "df_nodeNum d - 1"] assms(1)
    by (auto simp: day_ok_def split: if_splits)
next
  case (Suc k)
  then obtain n l t where n: "n \<in> {1..<df_nodeNum d - 1}" "leg_of d (last ns) n = Some t" "o1 \<in> set (reached bg d k l (ns @ [n]))"
    by (auto split: if_splits option.splits)
  have "order_score d 0 o1 \<le> order_score d 0 (ns @ [n])" using Suc.IH [OF _ _ n(3)] Suc.prems n(1) by auto
  also have "\<dots> \<le> order_score d 0 ns" using order_score_snoc [OF assms(1) Suc.prems(2,1) _ n(2)] n(1) by auto
  finally show ?case .
qed

subsection \<open>The judgement\<close>

lemma slot_scan_total:
  assumes "day_ok bg d" "idx < df_nodeNum d"
    "has_flag (df_vType d ! idx) NODE_FUNC_PLACE_RESTAURANT \<or> None \<notin> set ocs"
  shows "\<exists>r. slot_scan d i idx arv left j ocs = Some r"
  using assms(3)
proof (induction ocs arbitrary: j)
  case (Cons oc ocs)
  then show ?case using Cons.IH [of "Suc j"] assms(1,2)
    by (cases oc) (auto simp: day_ok_def Let_def)
qed simp

lemma clash_loop_total:
  assumes "day_ok bg d" "set (l # ns) \<subseteq> {..<df_nodeNum d}"
  shows "\<exists>r c f'. clash_loop bg d i off left f l ns = Some (r, c, f') \<and> (c = 0 \<or> c = 1) \<and> (f' = f \<or> f' = 1)"
  using assms(2)
proof (induction ns arbitrary: i off left f l)
  case (Cons n ns)
  have n: "n < df_nodeNum d" "l < df_nodeNum d" using Cons.prems by auto
  have len: "length (df_vPosList d) = df_nodeNum d" "length (df_vType d) = df_nodeNum d" "length (df_openCloseList d) = df_nodeNum d"
    using assms(1) by (auto simp: day_ok_def)
  have "has_flag (df_vType d ! n) NODE_FUNC_PLACE_RESTAURANT \<or> None \<notin> set (df_openCloseList d ! n)"
    using assms(1) n by (auto simp: day_ok_def)
  then have sl: "\<exists>r. slot_scan d i n arv left 0 (df_openCloseList d ! n) = Some r" for arv
    by (rule slot_scan_total [OF assms(1) n(1)])
  have IH: "\<exists>r c f'. clash_loop bg d (Suc i) off' left' f2 n ns = Some (r, c, f') \<and> (c = 0 \<or> c = 1) \<and> (f' = f2 \<or> f' = 1)"
    for off' left' f2 using Cons.IH [of n] Cons.prems by auto
  show ?case
  proof (cases "GetPosTraf bg (df_bPos d) (df_vPosList d ! l) (df_vPosList d ! n)")
    case (Some t)
    obtain r where r: "slot_scan d i n (off + tr_time t) left 0 (df_openCloseList d ! n) = Some r" using sl by blast
    show ?thesis
    proof (cases r)
      case (Planned dept j fl)
      have "\<exists>r c f'. clash_loop bg d (Suc i) dept left' (if fl then 1 else f) n ns = Some (r, c, f') \<and> (c = 0 \<or> c = 1) \<and>
          (f' = f \<or> f' = 1)" for left'
        using IH [of dept left' "if fl then 1 else f"] by (cases fl) auto
      then show ?thesis using Some r n len Planned by (auto simp: Let_def)
    qed (use Some r n len in \<open>auto simp: Let_def\<close>)
  qed (use n len in auto)
qed simp

lemma judge_total:
  assumes "day_ok bg d" "set ns \<subseteq> {..<df_nodeNum d}" "ns \<noteq> []"
  shows "\<exists>r. judge bg d ns = Some (r, clash_of bg d ns, firstL_of bg d ns)" "0 \<le> clash_of bg d ns" "0 \<le> firstL_of bg d ns"
proof -
  have "set (hd ns # tl ns) \<subseteq> {..<df_nodeNum d}" using assms(2,3) by simp
  then obtain r c f where "judge bg d ns = Some (r, c, f)" "c = 0 \<or> c = 1" "f = 0 \<or> f = 1"
    unfolding judge_def using clash_loop_total [OF assms(1)] by blast
  then show "\<exists>r. judge bg d ns = Some (r, clash_of bg d ns, firstL_of bg d ns)" "0 \<le> clash_of bg d ns" "0 \<le> firstL_of bg d ns"
    by (auto simp: clash_of_def firstL_of_def)
qed

lemma same_dayD:
  assumes "same_day d0 d"
  shows "df_nodeNum d = df_nodeNum d0" "df_traf d = df_traf d0" "df_vPosList d = df_vPosList d0"
    "df_blockRestNeed d = df_blockRestNeed d0" "df_vType d = df_vType d0" "df_bPos d = df_bPos d0"
    "df_zipDurList d = df_zipDurList d0" "df_openCloseList d = df_openCloseList d0"
    "df_start d = df_start d0" "df_stop d = df_stop d0"
  using assms by (auto simp: same_day_def)

lemma same_day_slot:
  assumes "same_day d0 d"
  shows "slot_scan d i idx arv left j ocs = slot_scan d0 i idx arv left j ocs"
  by (induction ocs arbitrary: j) (simp_all only: slot_scan.simps same_dayD [OF assms])

lemma same_day_clash:
  assumes "same_day d0 d"
  shows "clash_loop bg d i off left f l ns = clash_loop bg d0 i off left f l ns"
  by (induction ns arbitrary: i off left f l)
    (simp_all only: clash_loop.simps same_dayD [OF assms] same_day_slot [OF assms])

lemma CalClash_judge:
  assumes "search_at d0 ns left d"
  shows "CalClash bg d = judge bg d0 ns"
proof -
  have p: "take (df_len d) (df_path d) = ns" "ns \<noteq> []" "df_start d = df_start d0" "df_blockRestNeed d = df_blockRestNeed d0"
    "same_day d0 d" using assms by (auto simp: search_at_def same_day_def)
  then show ?thesis unfolding CalClash_def judge_def p(1) by (cases ns) (simp_all add: same_day_clash)
qed

lemma GetScore_at: "search_at d0 ns left d \<Longrightarrow> GetScore f d = order_score d0 f ns"
  by (simp add: search_at_def GetScore_def order_score_def m_nonWalkPenalty_def m_maxWalkDay_def m_firstLPenalty_def)

subsection \<open>Moving\<close>

lemma search_atD:
  assumes "search_at d0 ns left d"
  shows "same_day d0 d" "ns \<noteq> []" "df_len d = length ns" "take (length ns) (df_path d) = ns"
    "length (df_path d) = m_dayNodeLimit" "df_visited d = map (\<lambda>i. i \<in> set ns) [0..<df_nodeNum d0]"
    "df_totDist d = leg_sum tr_dist d0 ns" "df_nonWalkCnt d = leg_sum ride d0 ns" "df_walkDist d = leg_sum walk d0 ns"
    "df_leftRestNeed d = left"
  using assms by (auto simp: search_at_def)

lemma leg_to_at:
  assumes "search_at d0 ns left d" "day_ok bg d0" "set ns \<subseteq> {..<df_nodeNum d0}" "n < df_nodeNum d0"
  shows "leg_to n d = Some (leg_of d0 (last ns) n)"
proof -
  note a = search_atD [OF assms(1)]
  have len: "length ns \<le> length (df_path d)" using a(4) by (metis length_take min.cobounded1)
  have pos: "0 < length ns" using a(2) by simp
  then have "last ns = df_path d ! (length ns - 1)"
    using a(2,4) len by (metis diff_less last_conv_nth nth_take zero_less_one)
  then have "arr_get (df_path d) (int (df_len d) - 1) = Some (last ns)"
    using pos len a(3) arr_get_int [of "length ns - 1" "df_path d"]
    by (metis Suc_leI less_le_trans of_nat_1 of_nat_diff One_nat_def diff_less zero_less_one)
  moreover have "last ns < df_nodeNum d0" using a(2) assms(3) by (metis last_in_set lessThan_iff subsetD)
  then have "last ns * df_nodeNum d0 + n < length (df_traf d0)" using mat_idx assms(2,4) by (simp add: day_ok_def)
  ultimately show ?thesis unfolding leg_to_def leg_of_def by (simp add: same_dayD [OF a(1)] del: of_nat_add of_nat_mult)
qed

lemma enter_at:
  assumes "search_at d0 ns left d" "n < df_nodeNum d0" "length ns < m_dayNodeLimit" "leg_of d0 (last ns) n = Some t"
  shows "\<exists>d1. enter n t d = Some d1 \<and> search_at d0 (ns @ [n]) left d1 \<and> df_heap d1 = df_heap d"
proof -
  note a = search_atD [OF assms(1)]
  have v: "(map (\<lambda>i. i \<in> set ns) [0..<df_nodeNum d0])[n := True] = map (\<lambda>i. i \<in> set (ns @ [n])) [0..<df_nodeNum d0]"
    by (rule nth_equalityI) (use assms(2) in \<open>auto simp: nth_list_update\<close>)
  have p: "take (Suc (length ns)) ((df_path d)[length ns := n]) = ns @ [n]"
    using take_list_update_snoc [of "length ns" "df_path d" n] a(4,5) assms(3) by simp
  define d1 where "d1 = d\<lparr>df_path := (df_path d)[length ns := n], df_len := df_len d + 1, df_visited := (df_visited d)[n := True],
      df_totDist := df_totDist d + tr_dist t, df_nonWalkCnt := df_nonWalkCnt d + ride t, df_walkDist := df_walkDist d + walk t\<rparr>"
  have "enter n t d = Some d1"
    using assms(2,3) by (simp add: enter_def arr_set_def a(3,5,6) d1_def ride_def walk_def)
  moreover have "search_at d0 (ns @ [n]) left d1" "df_heap d1 = df_heap d"
    unfolding search_at_def same_day_def d1_def by (simp_all add: a v p assms(4) same_dayD [OF a(1)] leg_sum_snoc)
  ultimately show ?thesis by blast
qed

lemma leave_at:
  assumes "search_at d0 (ns @ [n]) left d" "n < df_nodeNum d0" "n \<notin> set ns" "ns \<noteq> []" "leg_of d0 (last ns) n = Some t"
  shows "\<exists>d1. leave n t d = Some d1 \<and> search_at d0 ns left d1 \<and> df_heap d1 = df_heap d"
proof -
  note a = search_atD [OF assms(1)]
  have v: "(map (\<lambda>i. i \<in> set (ns @ [n])) [0..<df_nodeNum d0])[n := False] = map (\<lambda>i. i \<in> set ns) [0..<df_nodeNum d0]"
    by (rule nth_equalityI) (use assms(2,3) in \<open>auto simp: nth_list_update\<close>)
  have p: "take (length ns) (df_path d) = ns" 
  proof -
    have "take (length ns) (take (length (ns @ [n])) (df_path d)) = ns" unfolding a(4) by simp
    then show ?thesis by (simp add: min_def)
  qed
  define d1 where "d1 = d\<lparr>df_totDist := df_totDist d - tr_dist t, df_nonWalkCnt := df_nonWalkCnt d - ride t,
      df_walkDist := df_walkDist d - walk t, df_visited := (df_visited d)[n := False], df_len := df_len d - 1\<rparr>"
  have "leave n t d = Some d1"
    using assms(2) by (simp add: leave_def arr_set_def a(6) d1_def ride_def walk_def)
  moreover have "search_at d0 ns left d1" "df_heap d1 = df_heap d"
    unfolding search_at_def same_day_def d1_def by (simp_all add: a v [simplified] p assms(4,5) same_dayD [OF a(1)] leg_sum_snoc)
  ultimately show ?thesis by blast
qed

lemma holds_heap: "holds K bg d0 os (d, al) \<Longrightarrow> df_heap d' = df_heap d \<Longrightarrow> holds K bg d0 os (d', al)"
  by (simp add: holds_def)

lemma addsD:
  assumes "adds K bg d0 ns left act new" "search_at d0 ns left d" "holds K bg d0 os (d, al)"
    "distinct (map (hash_of bg d0) (os @ new))"
  obtains r d' al' where "act (d, al) = Some (r, d', al')" "search_at d0 ns left d'" "holds K bg d0 (os @ new) (d', al')"
proof -
  have "\<exists>r st'. act (d, al) = Some (r, st') \<and> search_at d0 ns left (fst st') \<and> holds K bg d0 (os @ new) st'"
    using assms(1) [unfolded adds_def, rule_format, of "(d, al)" os] assms(2-4) by simp
  then show thesis using that by (metis surjective_pairing)
qed

lemma addsI:
  assumes "\<And>os d al. search_at d0 ns left d \<Longrightarrow> holds K bg d0 os (d, al) \<Longrightarrow> distinct (map (hash_of bg d0) (os @ new)) \<Longrightarrow>
    \<exists>r d' al'. act (d, al) = Some (r, d', al') \<and> search_at d0 ns left d' \<and> holds K bg d0 (os @ new) (d', al')"
  shows "adds K bg d0 ns left act new"
  unfolding adds_def
proof (intro allI impI)
  fix os st assume "search_at d0 ns left (fst st)" "holds K bg d0 os st" "distinct (map (hash_of bg d0) (os @ new))"
  then show "\<exists>r st'. act st = Some (r, st') \<and> search_at d0 ns left (fst st') \<and> holds K bg d0 (os @ new) st'"
    using assms [of "fst st" os "snd st"] by auto
qed

lemma visit_adds:
  assumes "adds K bg d0 (ns @ [n]) left act new" "n < df_nodeNum d0" "length ns < m_dayNodeLimit" "n \<notin> set ns" "ns \<noteq> []"
    "leg_of d0 (last ns) n = Some t"
  shows "adds K bg d0 ns left (visit act n t) new"
proof (rule addsI)
  fix os d al assume s: "search_at d0 ns left d" "holds K bg d0 os (d, al)" "distinct (map (hash_of bg d0) (os @ new))"
  obtain d1 where d1: "enter n t d = Some d1" "search_at d0 (ns @ [n]) left d1" "df_heap d1 = df_heap d"
    using enter_at [OF s(1) assms(2,3,6)] by blast
  obtain r d2 al2 where d2: "act (d1, al) = Some (r, d2, al2)" "search_at d0 (ns @ [n]) left d2" "holds K bg d0 (os @ new) (d2, al2)"
    using addsD [OF assms(1) d1(2) holds_heap [OF s(2) d1(3)] s(3)] .
  obtain d3 where "leave n t d2 = Some d3" "search_at d0 ns left d3" "df_heap d3 = df_heap d2"
    using leave_at [OF d2(2) assms(2,4,5,6)] by blast
  then show "\<exists>r d' al'. visit act n t (d, al) = Some (r, d', al') \<and> search_at d0 ns left d' \<and> holds K bg d0 (os @ new) (d', al')"
    using d1(1) d2 holds_heap [OF d2(3)] by (auto simp: visit_def)
qed

subsection \<open>The candidate of a complete order\<close>

lemma push_run_same:
  "push_run xs p = Some (r, q) \<Longrightarrow> sp_missLevel q = sp_missLevel p \<and> sp_hash q = sp_hash p \<and> sp_addr q = sp_addr p"
proof (induction xs arbitrary: p)
  case (Cons x xs)
  then obtain r1 p1 where p1: "PushV (pu_bPos x) (pu_vPos x) (pu_hot x) (pu_dur x) (pu_bid x) (pu_vType x) p = Some (r1, p1)"
    by (cases "PushV (pu_bPos x) (pu_vPos x) (pu_hot x) (pu_dur x) (pu_bid x) (pu_vType x) p") auto
  then have "sp_missLevel p1 = sp_missLevel p \<and> sp_hash p1 = sp_hash p \<and> sp_addr p1 = sp_addr p"
    by (auto simp: PushV_def push_body_def Let_def split: if_splits)
  then show ?case using Cons p1 by (auto split: if_splits)
qed auto

lemma push_nodes_run:
  "\<forall>n \<in> set ns. n < length (df_vPosList d) \<Longrightarrow>
    push_run (map (\<lambda>n. node_op (df_bPos d) (df_vPosList d ! n)) ns) p = Some (0, q) \<Longrightarrow> push_nodes d ns p = Some q"
proof (induction ns arbitrary: p)
  case (Cons n ns)
  obtain r1 p1 where p1: "PushV (df_bPos d) (df_vPosList d ! n) 0 0 0 NODE_FUNC_NULL p = Some (r1, p1)"
    using Cons.prems(2) by (cases "PushV (df_bPos d) (df_vPosList d ! n) 0 0 0 NODE_FUNC_NULL p") (auto simp: node_op_def)
  then show ?case using Cons by (auto simp: node_op_def split: if_splits)
qed simp

lemma mid_eq: "n \<in> {1..<length xs - 1} \<Longrightarrow> xs ! n = tl (butlast xs) ! (n - 1) \<and> n - 1 < length (tl (butlast xs))"
  by (auto simp: nth_tl nth_butlast)

lemma mid_nth: "n \<in> {1..<length xs - 1} \<Longrightarrow> xs ! n \<in> set (tl (butlast xs))"
  using mid_eq by (metis nth_mem)

lemma mid_inj:
  assumes "distinct (tl (butlast xs))" "n \<in> {1..<length xs - 1}" "m \<in> {1..<length xs - 1}" "xs ! n = xs ! m"
  shows "n = m"
proof -
  have "n - 1 = m - 1" using mid_eq [OF assms(2)] mid_eq [OF assms(3)] assms(1,4) by (metis nth_eq_iff_index_eq)
  then show ?thesis using assms(2,3) by auto
qed

lemma pushed_hash:
  assumes "push_inv bg (map (node_op b) vs) q" "sp_hash q = 0" "length (bp_BlockList (bg_base bg)) \<le> kBlockLimit"
  shows "sp_hash (CalHashPointOrder q) = Hash_vec (concat (map (\<lambda>c. map ucast (if c = unat b then vs else []) @ [0])
    [0..<length (bp_BlockList (bg_base bg))]))"
proof -
  have I: "sp_used q = vs" "\<forall>v \<in> set vs. sp_bPos q ! unat v = b"
    "sp_blockNum q = int (length (bp_BlockList (bg_base bg)))"
    using assms(1) by (auto simp: push_inv_def node_op_def comp_def)
  have "day_list q c = (if c = unat b then vs else [])" for c
    using I(2) unfolding day_list_def I(1) by (auto simp: filter_empty_conv intro!: filter_True)
  then show ?thesis using assms(2) I(3) by (simp add: CalHashPointOrder_def)
qed

lemma order_path_ok:
  assumes ok: "day_ok bg d0" and ns: "ns = 0 # xs @ [df_nodeNum d0 - 1]" "distinct xs" "set xs \<subseteq> {1..<df_nodeNum d0 - 1}"
    and obj: "arrays_ok obj"
  obtains q p where "SPath_Init bg obj = Some q" "push_run (map (node_op (df_bPos d0)) (visits_of d0 ns)) q = Some (0, p)"
    "path_of bg d0 ns (order_cand bg d0 ns p)" "arrays_ok (order_cand bg d0 ns p)"
proof -
  define vs where "vs = visits_of d0 ns"
  have vs: "vs = map (\<lambda>n. df_vPosList d0 ! n) xs" by (simp add: vs_def visits_of_def ns(1))
  define blocks where "blocks = length (bp_BlockList (bg_base bg))"
  have len: "length (df_vPosList d0) = df_nodeNum d0" and b: "unat (df_bPos d0) < blocks" "blocks \<le> kBlockLimit" "bg_nodeNum bg \<le> int kPathLimit"
    using ok by (auto simp: day_ok_def blocks_def)
  have xs: "\<forall>n \<in> set xs. n \<in> {1..<length (df_vPosList d0) - 1}" using ns(3) len by auto
  have mid: "distinct (tl (butlast (df_vPosList d0)))" using ok by (simp add: day_ok_def)
  have vlt: "\<forall>v \<in> set vs. uint v < bg_nodeNum bg"
    using ok xs mid_nth [of _ "df_vPosList d0"] by (auto simp: vs day_ok_def)
  have vd: "distinct vs" unfolding vs distinct_map using ns(2) xs mid_inj [OF mid] by (auto intro!: inj_onI)
  have nn: "0 \<le> bg_nodeNum bg" using ok by (simp add: day_ok_def)
  obtain q where q: "SPath_Init bg obj = Some q" "push_inv bg [] q"
    using SPath_Init_ok [OF obj _ nn b(3)] b(2) by (auto simp: blocks_def)
  have q0: "sp_missLevel q = 0" "sp_hash q = 0" using q(1) by (auto simp: SPath_Init_def Let_def split: if_splits)
  obtain N where N: "bg_nodeNum bg = int N" using nn nonneg_int_cases by blast
  have "length vs \<le> N" using distinct_bytes [OF vd, of N] vlt N by (simp add: uint_less)
  then have "\<exists>p. push_run (map (node_op (df_bPos d0)) vs) q = Some (0, p) \<and> push_inv bg ([] @ map (node_op (df_bPos d0)) vs) p"
    using push_run_ok [OF q(2), of "map (node_op (df_bPos d0)) vs"] vd vlt b(1) N
    by (auto simp: push_fits_def node_op_def comp_def blocks_def)
  then obtain p where p: "push_run (map (node_op (df_bPos d0)) vs) q = Some (0, p)" "push_inv bg (map (node_op (df_bPos d0)) vs) p" by auto
  have p0: "sp_missLevel p = 0" "sp_hash p = 0" using push_run_same [OF p(1)] q0 by auto
  define p1 where "p1 = SetScore (of_int (order_score d0 (firstL_of bg d0 ns) ns)) (SetFirstL (firstL_of bg d0 ns)
    (SetClash (clash_of bg d0 ns) (SetDist (leg_sum tr_dist d0 ns) p)))"
  have p1: "order_cand bg d0 ns p = CalHashPointOrder p1" by (simp add: order_cand_def p1_def)
  have i1: "push_inv bg (map (node_op (df_bPos d0)) vs) p1" "sp_hash p1 = 0"
    using p(2) p0 by (auto simp: p1_def SetScore_def SetFirstL_def SetClash_def SetDist_def push_inv_def spath_ok_def sp_used_def)
  have h: "sp_hash (CalHashPointOrder p1) = hash_of bg d0 ns"
    unfolding hash_of_def vs_def [symmetric] using pushed_hash [OF i1] b(2) by (simp add: blocks_def)
  have u: "sp_used p1 = vs" "arrays_ok p1" "spath_ok p1" "sp_nodeNum p1 = bg_nodeNum bg" "sp_blockNum p1 = int (length (bp_BlockList (bg_base bg)))"
    "\<forall>v \<in> set vs. sp_bPos p1 ! unat v = df_bPos d0"
    using i1(1) by (auto simp: push_inv_def spath_ok_def arrays_ok_def node_op_def comp_def)
  have "path_of bg d0 ns (order_cand bg d0 ns p)"
    unfolding p1 path_of_def h using u p0
    by (auto simp: CalHashPointOrder_def sp_used_def spath_ok_def vs_def p1_def SetScore_def SetFirstL_def SetClash_def SetDist_def)
  moreover have "arrays_ok (order_cand bg d0 ns p)" unfolding p1 using u(2) by (simp add: CalHashPointOrder_def arrays_ok_def)
  ultimately show thesis using that q(1) p(1) by (simp add: vs_def)
qed

lemma day_path_ok:
  assumes ok: "day_ok bg d0" and at: "search_at d0 ns left d" and ns: "ns = 0 # xs @ [df_nodeNum d0 - 1]" "distinct xs"
    "set xs \<subseteq> {1..<df_nodeNum d0 - 1}" and obj: "arrays_ok obj" and j: "judge bg d0 ns = Some (0, c, f)"
  shows "\<exists>p. day_path bg d c f obj = Some p \<and> path_of bg d0 ns p \<and> arrays_ok p"
proof -
  note a = search_atD [OF at] and e = same_dayD [OF search_atD(1) [OF at]]
  obtain q p where q: "SPath_Init bg obj = Some q" "push_run (map (node_op (df_bPos d0)) (visits_of d0 ns)) q = Some (0, p)"
    "path_of bg d0 ns (order_cand bg d0 ns p)" "arrays_ok (order_cand bg d0 ns p)" by (rule order_path_ok [OF ok ns obj])
  have "length (df_vPosList d0) = df_nodeNum d0" using ok by (simp add: day_ok_def)
  then have "\<forall>n \<in> set xs. n < length (df_vPosList d)" using ns(3) by (fastforce simp: e)
  then have pn: "push_nodes d xs q = Some p"
    using push_nodes_run [of xs d q p] q(2) by (simp add: e visits_of_def ns(1) comp_def)
  have inner: "butlast (tl (take (df_len d) (df_path d))) = xs" using a(3,4) ns(1) by simp
  have cf: "clash_of bg d0 ns = c" "firstL_of bg d0 ns = f" using j by (simp_all add: clash_of_def firstL_of_def)
  have "day_path bg d c f obj = Some (order_cand bg d0 ns p)"
    unfolding day_path_def inner q(1) order_cand_def cf using pn a(7) GetScore_at [OF at, of f] by simp
  then show ?thesis using q(3,4) by blast
qed

subsection \<open>The heap during the search\<close>

lemma holdsD:
  assumes "holds K bg d0 os (d, al)"
  obtains ps where "list_all2 (path_of bg d0) os ps" "heap_inv K (mset ps) (df_heap d)" "alloc_mem al"
    "\<And>p. p \<in> set (sh_queue (df_heap d)) \<Longrightarrow> arrays_ok p \<and> p \<in> set ps \<and> sp_missLevel p = 0"
proof -
  obtain ps where ps: "list_all2 (path_of bg d0) os ps" "heap_inv K (mset ps) (df_heap d)" using assms by (auto simp: holds_def)
  obtain rest where "mset (sh_queue (df_heap d)) + rest = mset ps" using ps(2) by (auto simp: heap_inv_def best_of_def)
  then have sub: "set (sh_queue (df_heap d)) \<subseteq> set ps" by (metis set_mset_mset set_mset_union Un_upper1)
  have "sp_missLevel p = 0" if "p \<in> set ps" for p using that ps(1) by (auto simp: list_all2_conv_all_nth in_set_conv_nth path_of_def)
  then show thesis using that [OF ps] assms sub by (auto simp: holds_def)
qed

lemma path_of_whole: "path_of bg d ns p \<Longrightarrow> p \<in> whole"
  by (simp add: path_of_def whole_def)

lemma path_of_exists:
  assumes "day_ok bg d" "ns = 0 # xs @ [df_nodeNum d - 1]" "distinct xs" "set xs \<subseteq> {1..<df_nodeNum d - 1}"
  shows "\<exists>p. path_of bg d ns p"
  using order_path_ok [OF assms demo_spath_arrays] by metis

lemma CanPush_total:
  assumes "heap_inv K all h" "0 < K"
  shows "\<exists>b. CanPush s m c h = Some b"
proof -
  have "sh_topK h = int K" using assms(1) by (simp add: heap_inv_def)
  then show ?thesis using assms(2) by (cases "sh_queue h") (auto simp: CanPush_def pq_top_def)
qed

text \<open>What \<open>CanPush\<close> refuses could not have entered the heap.\<close>

lemma CanPush_refused:
  assumes "heap_inv K all h" "0 < K" "CanPush s 0 0 h = Some False" "\<forall>t \<in> set (sh_queue h). sp_missLevel t = 0"
    "p \<in> whole" "sp_missLevel p = 0" "0 \<le> sp_clash p" "sp_score p \<le> s"
  shows "K \<le> length (sh_queue h) \<and> \<not> SPathCmp p (hd (sh_queue h))"
proof -
  have h: "sh_topK h = int K" "set (sh_queue h) \<subseteq> whole" using assms(1) by (auto simp: heap_inv_def)
  have full: "K \<le> length (sh_queue h)" using assms(3) h(1) by (auto simp: CanPush_def split: if_splits)
  then have ne: "sh_queue h \<noteq> []" using assms(2) by auto
  let ?t = "hd (sh_queue h)"
  have t: "?t \<in> set (sh_queue h)" using ne by simp
  then have tt: "sp_missLevel ?t = 0" "?t \<in> whole" using assms(4) h(2) by auto
  have c: "sp_clash ?t < 0 \<or> sp_clash ?t = 0 \<and> \<not> s > sp_score ?t - eps6"
    using assms(3) h(1) full tt(1) by (auto simp: CanPush_def pq_top_hd [OF ne] split: if_splits)
  have "sp_score p \<in> \<int>" "sp_score ?t \<in> \<int>" using assms(5) tt(2) by (auto simp: whole_def)
  note gap = int_gap [OF this]
  have "\<not> SPathCmp p ?t"
    using c assms(6-8) tt(1) gap eps6_range by (auto simp: SPathCmp_def)
  then show ?thesis using full by simp
qed

lemma Skip_holds:
  assumes "holds K bg d0 os (d, al)" "0 < K" "CanPush s 0 0 (df_heap d) = Some False"
    "\<forall>o1 \<in> set new. 0 \<le> clash_of bg d0 o1 \<and> of_int (order_score d0 (firstL_of bg d0 o1) o1) \<le> s \<and> (\<exists>p. path_of bg d0 o1 p)"
  shows "holds K bg d0 (os @ new) (d, al)"
  using assms(4,1)
proof (induction new arbitrary: os)
  case (Cons o1 new)
  obtain ps where ps: "list_all2 (path_of bg d0) os ps" "heap_inv K (mset ps) (df_heap d)" "alloc_mem al"
    "\<And>p. p \<in> set (sh_queue (df_heap d)) \<Longrightarrow> arrays_ok p \<and> p \<in> set ps \<and> sp_missLevel p = 0"
    using holdsD [OF Cons.prems(2)] by blast
  obtain p where p: "path_of bg d0 o1 p" using Cons.prems(1) by auto
  have "K \<le> length (sh_queue (df_heap d)) \<and> \<not> SPathCmp p (hd (sh_queue (df_heap d)))"
    using CanPush_refused [OF ps(2) assms(2,3) _ path_of_whole [OF p]] p ps(4) Cons.prems(1) by (auto simp: path_of_def)
  then have "heap_inv K (mset (ps @ [p])) (df_heap d)"
    using Skip_heap_inv [OF ps(2) assms(2) path_of_whole [OF p]] by simp
  moreover have "list_all2 (path_of bg d0) (os @ [o1]) (ps @ [p])" using ps(1) p by (simp add: list_all2_appendI)
  ultimately have "holds K bg d0 (os @ [o1]) (d, al)" using ps(3,4) unfolding holds_def by auto
  then show ?case using Cons.IH [of "os @ [o1]"] Cons.prems(1) by simp
qed simp

lemma set_pq_push: "set (pq_push lt v q) = insert v (set q)"
  by (metis mset_pq_push set_mset_add_mset_insert set_mset_mset)

lemma set_pq_pop: "set (pq_pop lt q) \<subseteq> set q"
proof (cases "q = []")
  case False
  then show ?thesis by (metis mset_pq_pop set_mset_add_mset_insert set_mset_mset subset_insertI)
qed (simp add: pq_pop_def)

lemma Push_members:
  assumes "SPathHeap_Push p b h = Some (r, h')"
  shows "set (sh_queue h') \<subseteq> insert p (set (sh_queue h))" "r = Some x \<Longrightarrow> x \<in> insert p (set (sh_queue h))"
  using assms set_pq_pop [of SPathCmp "sh_queue h"]
  by (auto simp: SPathHeap_Push_def wants_push_def Let_def set_pq_push pq_top_def Option.bind_eq_Some_conv
      split: if_splits list.splits)

lemma PushPath_adds:
  assumes ok: "day_ok bg d0" and K: "0 < K" and ns: "ns = 0 # xs @ [df_nodeNum d0 - 1]" "distinct xs"
    "set xs \<subseteq> {1..<df_nodeNum d0 - 1}"
  shows "adds K bg d0 ns left (PushPath bg) (if fst (the (judge bg d0 ns)) = 0 then [ns] else [])"
    (is "adds _ _ _ _ _ _ ?new")
proof (rule addsI)
  fix os d al assume at: "search_at d0 ns left d" and h: "holds K bg d0 os (d, al)" and di: "distinct (map (hash_of bg d0) (os @ ?new))"
  obtain ps where ps: "list_all2 (path_of bg d0) os ps" "heap_inv K (mset ps) (df_heap d)" "alloc_mem al"
    "\<And>p. p \<in> set (sh_queue (df_heap d)) \<Longrightarrow> arrays_ok p \<and> p \<in> set ps \<and> sp_missLevel p = 0"
    using holdsD [OF h] by blast
  have "2 \<le> df_nodeNum d0" using ok by (simp add: day_ok_def)
  then have "set ns \<subseteq> {..<df_nodeNum d0}" "ns \<noteq> []" using ns by fastforce+
  note J = judge_total [OF ok this]
  obtain r c f where j: "judge bg d0 ns = Some (r, c, f)" using J(1) by auto
  obtain can where can: "CanPush (of_int (GetScore 0 d)) 0 0 (df_heap d) = Some can" using CanPush_total [OF ps(2) K] by blast
  show "\<exists>r d' al'. PushPath bg (d, al) = Some (r, d', al') \<and> search_at d0 ns left d' \<and> holds K bg d0 (os @ ?new) (d', al')"
  proof (cases can)
    case False
    then have can': "CanPush (of_int (GetScore 0 d)) 0 0 (df_heap d) = Some False" using can by simp
    have "holds K bg d0 (os @ ?new) (d, al)"
      using Skip_holds [OF h K can'] J(2) order_score_firstL [OF J(3)] GetScore_at [OF at] path_of_exists [OF ok ns] by simp
    then show ?thesis using at can False by (auto simp: PushPath_def)
  next
    case True
    show ?thesis
    proof (cases "r = 0")
      case False
      then show ?thesis using at h can True j CalClash_judge [OF at] by (auto simp: PushPath_def)
    next
      case r: True
      obtain obj al1 where al1: "SPathAlloc_New al = (Some obj, al1)" "arrays_ok obj" "alloc_mem al1"
        by (rule alloc_New [of al]) (use ps(3) in auto)
      obtain p where p: "day_path bg d c f obj = Some p" "path_of bg d0 ns p" "arrays_ok p"
        using day_path_ok [OF ok at ns al1(2)] j r by blast
      have "sp_hash p \<notin> sp_hash ` set ps"
      proof
        assume "sp_hash p \<in> sp_hash ` set ps"
        then obtain i where "i < length ps" "sp_hash p = sp_hash (ps ! i)" by (auto simp: in_set_conv_nth)
        then have "hash_of bg d0 ns = hash_of bg d0 (os ! i)" "i < length os"
          using ps(1) p(2) by (auto simp: list_all2_conv_all_nth path_of_def)
        then show False using di j r by auto
      qed
      then obtain dp h' where h': "SPathHeap_Push p False (df_heap d) = Some (dp, h')" "heap_inv K (add_mset p (mset ps)) h'"
        using Push_heap_inv [OF ps(2) K path_of_whole [OF p(2)]] by auto
      define al2 where "al2 = (if dp \<noteq> None then snd (SPathAlloc_Delete dp al1) else al1)"
      have "alloc_mem al2"
        using al1(3) alloc_mem_Delete [OF al1(3)] Push_members(2) [OF h'(1)] p(3) ps(4) by (auto simp: al2_def)
      moreover have "list_all2 (path_of bg d0) (os @ [ns]) (ps @ [p])" using ps(1) p(2) by (simp add: list_all2_appendI)
      moreover have "\<forall>q \<in> set (sh_queue h'). arrays_ok q" using Push_members(1) [OF h'(1)] p(3) ps(4) by auto
      ultimately have "holds K bg d0 (os @ [ns]) (d\<lparr>df_heap := h'\<rparr>, al2)"
        using h'(2) unfolding holds_def by (auto intro!: exI [of _ "ps @ [p]"])
      moreover have "search_at d0 ns left (d\<lparr>df_heap := h'\<rparr>)" using at by (simp add: search_at_def same_day_def)
      moreover have "PushPath bg (d, al) = Some (0, d\<lparr>df_heap := h'\<rparr>, al2)"
        using can True CalClash_judge [OF at] j r al1(1) p(1) h'(1) by (simp add: PushPath_def al2_def)
      ultimately show ?thesis using j r by auto
    qed
  qed
qed

subsection \<open>The search\<close>

lemma set_left: "search_at d0 ns left d \<Longrightarrow> search_at d0 ns l (d\<lparr>df_leftRestNeed := l\<rparr>)"
  by (simp add: search_at_def same_day_def)

lemma adds_nothing: "adds K bg d0 ns left (\<lambda>st. Some (0, st)) []"
  by (simp add: adds_def)

lemma adds_cong:
  assumes "adds K bg d0 ns left act new" "\<And>d al. search_at d0 ns left d \<Longrightarrow> act' (d, al) = act (d, al)"
  shows "adds K bg d0 ns left act' new"
  using assms unfolding adds_def by (auto 4 4)

lemma SearchView_adds:
  assumes "day_ok bg d0" "set ns \<subseteq> {..<df_nodeNum d0}" "length ns < m_dayNodeLimit" "ns \<noteq> []" "n < df_nodeNum d0" "n \<notin> set ns"
    "leg_of d0 (last ns) n \<noteq> None \<Longrightarrow> adds K bg d0 (ns @ [n]) left srch new"
  shows "adds K bg d0 ns left (SearchView srch n) (if leg_of d0 (last ns) n = None then [] else new)"
proof (cases "leg_of d0 (last ns) n")
  case None
  show ?thesis
    by (rule adds_cong [of K bg d0 ns left "\<lambda>st. Some (0, st)"])
      (use None adds_nothing in \<open>auto simp: SearchView_def leg_to_at [OF _ assms(1,2,5)]\<close>)
next
  case (Some t)
  show ?thesis
    by (rule adds_cong [of K bg d0 ns left "visit srch n t"])
      (use Some assms visit_adds [OF _ assms(5,3,6,4) Some] in \<open>auto simp: SearchView_def leg_to_at [OF _ assms(1,2,5)]\<close>)
qed

lemma SearchRest_adds:
  assumes "day_ok bg d0" "set ns \<subseteq> {..<df_nodeNum d0}" "length ns < m_dayNodeLimit" "ns \<noteq> []" "n < df_nodeNum d0" "n \<notin> set ns"
    "\<And>l. leg_of d0 (last ns) n \<noteq> None \<Longrightarrow> rest_step left (df_vType d0 ! n) = Some l \<Longrightarrow> adds K bg d0 (ns @ [n]) l srch (new l)"
  shows "adds K bg d0 ns left (SearchRest srch n)
    (if leg_of d0 (last ns) n = None then [] else case rest_step left (df_vType d0 ! n) of None \<Rightarrow> [] | Some l \<Rightarrow> new l)"
    (is "adds _ _ _ _ _ _ ?new")
proof (rule addsI)
  fix os d al assume at: "search_at d0 ns left d" and h: "holds K bg d0 os (d, al)" and di: "distinct (map (hash_of bg d0) (os @ ?new))"
  have vt: "arr_get (df_vType d) (int n) = Some (df_vType d0 ! n)"
    using assms(1,5) same_dayD(5) [OF search_atD(1) [OF at]] by (simp add: day_ok_def)
  note l = leg_to_at [OF at assms(1,2,5)] and left = search_atD(10) [OF at]
  show "\<exists>r d' al'. SearchRest srch n (d, al) = Some (r, d', al') \<and> search_at d0 ns left d' \<and> holds K bg d0 (os @ ?new) (d', al')"
  proof (cases "leg_of d0 (last ns) n = None \<or> rest_step left (df_vType d0 ! n) = None")
    case True
    then show ?thesis using at h l vt left by (auto simp: SearchRest_def split: option.splits)
  next
    case False
    then obtain t lf where t: "leg_of d0 (last ns) n = Some t" "rest_step left (df_vType d0 ! n) = Some lf" by auto
    have "adds K bg d0 ns lf (visit srch n t) (new lf)"
      using visit_adds [OF assms(7) assms(5,3,6,4)] t by simp
    then obtain r d1 al1 where d1: "visit srch n t (d\<lparr>df_leftRestNeed := lf\<rparr>, al) = Some (r, d1, al1)" "search_at d0 ns lf d1"
        "holds K bg d0 (os @ new lf) (d1, al1)"
      using addsD [OF _ set_left [OF at] holds_heap [OF h], of lf "visit srch n t" "new lf" thesis] di t by simp
    have "holds K bg d0 (os @ new lf) (d1\<lparr>df_leftRestNeed := left\<rparr>, al1)" using holds_heap [OF d1(3)] by simp
    then show ?thesis using set_left [OF d1(2)] d1(1) l vt left t by (auto simp: SearchRest_def)
  qed
qed

lemma node_loop_adds:
  assumes "day_ok bg d0" "set ns \<subseteq> {..<df_nodeNum d0}" "length ns < m_dayNodeLimit" "ns \<noteq> []"
    "\<And>n l. n \<in> set is \<Longrightarrow> n \<notin> set ns \<Longrightarrow> leg_of d0 (last ns) n \<noteq> None \<Longrightarrow> adds K bg d0 (ns @ [n]) l srch (new l n)"
    "set is \<subseteq> {..<df_nodeNum d0}"
  shows "adds K bg d0 ns left (node_loop srch is)
    (concat (map (\<lambda>n. if n \<in> set ns \<or> leg_of d0 (last ns) n = None then []
                      else (case meals d0 left [n] of None \<Rightarrow> [] | Some l \<Rightarrow> new l n)) is))"
  using assms(5,6)
proof (induction "is")
  case Nil
  then show ?case using adds_nothing by (simp add: adds_def)
next
  case (Cons n "is")
  define f where "f = (\<lambda>n. if n \<in> set ns \<or> leg_of d0 (last ns) n = None then []
                      else (case meals d0 left [n] of None \<Rightarrow> [] | Some l \<Rightarrow> new l n))"
  have n: "n < df_nodeNum d0" using Cons.prems(2) by simp
  have IH: "adds K bg d0 ns left (node_loop srch is) (concat (map f is))" unfolding f_def using Cons by simp
  let ?act = "\<lambda>st. if has_flag (df_vType d0 ! n) NODE_FUNC_PLACE_RESTAURANT then SearchRest srch n st else SearchView srch n st"
  have step: "adds K bg d0 ns left ?act (f n)" if "n \<notin> set ns"
  proof (cases "has_flag (df_vType d0 ! n) NODE_FUNC_PLACE_RESTAURANT")
    case True
    then show ?thesis
      using SearchRest_adds [OF assms(1-4) n that, where new = "\<lambda>l. new l n" and left = left and srch = srch] Cons.prems(1) that
      by (auto simp: f_def split: option.splits)
  next
    case False
    then show ?thesis
      using SearchView_adds [OF assms(1-4) n that, where new = "new left n" and left = left and srch = srch] Cons.prems(1) that by (auto simp: f_def)
  qed
  show ?case
    unfolding f_def [symmetric]
  proof (rule addsI)
    fix os d al assume at: "search_at d0 ns left d" and h: "holds K bg d0 os (d, al)"
      and di: "distinct (map (hash_of bg d0) (os @ concat (map f (n # is))))"
    have v: "arr_get (df_visited d) (int n) = Some (n \<in> set ns)" using search_atD(6) [OF at] n by simp
    have vt: "arr_get (df_vType d) (int n) = Some (df_vType d0 ! n)"
      using assms(1) n same_dayD(5) [OF search_atD(1) [OF at]] by (simp add: day_ok_def)
    show "\<exists>r d' al'. node_loop srch (n # is) (d, al) = Some (r, d', al') \<and> search_at d0 ns left d' \<and>
        holds K bg d0 (os @ concat (map f (n # is))) (d', al')"
    proof (cases "n \<in> set ns")
      case True
      obtain r d1 al1 where "node_loop srch is (d, al) = Some (r, d1, al1)" "search_at d0 ns left d1"
          "holds K bg d0 (os @ concat (map f is)) (d1, al1)"
        using addsD [OF IH at h] di True by (auto simp: f_def)
      then show ?thesis using v True by (auto simp: f_def)
    next
      case False
      have di1: "distinct (map (hash_of bg d0) (os @ f n))"
        and di2: "distinct (map (hash_of bg d0) ((os @ f n) @ concat (map f is)))" using di by auto
      obtain r d1 al1 where d1: "?act (d, al) = Some (r, d1, al1)" "search_at d0 ns left d1" "holds K bg d0 (os @ f n) (d1, al1)"
        using addsD [OF step [OF False] at h di1] by blast
      obtain r2 d2 al2 where d2: "node_loop srch is (d1, al1) = Some (r2, d2, al2)" "search_at d0 ns left d2"
          "holds K bg d0 ((os @ f n) @ concat (map f is)) (d2, al2)"
        using addsD [OF IH d1(2,3) di2] by blast
      have "node_loop srch (n # is) (d, al) = Some (r2, d2, al2)"
        using v vt False d1(1) d2(1) by simp
      then show ?thesis using d2 by auto
    qed
  qed
qed

lemma leaf_adds:
  assumes ok: "day_ok bg d0" and K: "0 < K" and ns: "ns = 0 # xs" "distinct xs" "set xs \<subseteq> {1..<df_nodeNum d0 - 1}"
    "length ns < m_dayNodeLimit"
  shows "adds K bg d0 ns left (leaf bg) (reached bg d0 0 left ns)"
proof -
  have N: "2 \<le> df_nodeNum d0" using ok by (simp add: day_ok_def)
  let ?n = "df_nodeNum d0 - 1"
  have n: "?n < df_nodeNum d0" "?n \<notin> set ns" "set ns \<subseteq> {..<df_nodeNum d0}" "ns \<noteq> []" using N ns(1,3) by fastforce+
  have eq: "leaf bg (d, al) = SearchView (PushPath bg) ?n (d, al)" if "search_at d0 ns left d" for d al
    using same_dayD(1) [OF search_atD(1) [OF that]] by (simp add: leaf_def SearchView_def Let_def)
  have "adds K bg d0 (ns @ [?n]) left (PushPath bg) (if fst (the (judge bg d0 (ns @ [?n]))) = 0 then [ns @ [?n]] else [])"
    by (rule PushPath_adds [OF ok K _ ns(2,3)]) (simp add: ns(1))
  note sv = SearchView_adds [OF ok n(3) ns(4) n(4,1,2) this]
  have "reached bg d0 0 left ns = (if leg_of d0 (last ns) ?n = None then []
      else if fst (the (judge bg d0 (ns @ [?n]))) = 0 then [ns @ [?n]] else [])" by auto
  then show ?thesis using adds_cong [OF sv, of "leaf bg"] eq by simp
qed

lemma tick_at: "\<forall>k. \<not> clock k \<Longrightarrow> \<exists>d1. tick clock d = (False, d1) \<and> (search_at d0 ns left d \<longrightarrow> search_at d0 ns left d1) \<and> df_heap d1 = df_heap d"
  by (auto simp: tick_def Let_def search_at_def same_day_def)

lemma reached_form:
  assumes "ns = 0 # xs" "distinct xs" "set xs \<subseteq> {1..<df_nodeNum d - 1}" "o1 \<in> set (reached bg d k left ns)"
  shows "\<exists>ys. o1 = 0 # ys @ [df_nodeNum d - 1] \<and> distinct ys \<and> set ys \<subseteq> {1..<df_nodeNum d - 1}"
  using assms
proof (induction k arbitrary: left ns xs)
  case 0
  then show ?case by (auto split: if_splits)
next
  case (Suc k)
  then obtain n l where "n \<in> {1..<df_nodeNum d - 1}" "n \<notin> set ns" "o1 \<in> set (reached bg d k l (ns @ [n]))"
    by (auto split: if_splits option.splits)
  then show ?case using Suc.IH [of "ns @ [n]" "xs @ [n]" l] Suc.prems by auto
qed

lemma Search_adds:
  assumes ok: "day_ok bg d0" and K: "0 < K" and c: "\<forall>k. \<not> clock k"
    and "ns = 0 # xs" "distinct xs" "set xs \<subseteq> {1..<df_nodeNum d0 - 1}" "length ns + k + 1 = df_nodeNum d0" "k < fuel"
  shows "adds K bg d0 ns left (Search clock bg fuel) (reached bg d0 k left ns)"
  using assms(4-)
proof (induction k arbitrary: ns xs left fuel)
  case 0
  obtain f where f: "fuel = Suc f" using 0 by (cases fuel) auto
  have lim: "length ns < m_dayNodeLimit" using 0 ok by (auto simp: day_ok_def)
  note lf = leaf_adds [OF ok K 0(1-3) lim, of left]
  show ?case
  proof (rule addsI)
    fix os d al assume s: "search_at d0 ns left d" "holds K bg d0 os (d, al)" "distinct (map (hash_of bg d0) (os @ reached bg d0 0 left ns))"
    obtain d1 where d1: "tick clock d = (False, d1)" "search_at d0 ns left d1" "df_heap d1 = df_heap d" using tick_at [OF c] s(1) by blast
    have "Search clock bg fuel (d, al) = leaf bg (d1, al)"
      using d1(1) 0(4) search_atD(3) [OF d1(2)] same_dayD(1) [OF search_atD(1) [OF d1(2)]] by (simp add: f)
    then show "\<exists>r d' al'. Search clock bg fuel (d, al) = Some (r, d', al') \<and> search_at d0 ns left d' \<and>
        holds K bg d0 (os @ reached bg d0 0 left ns) (d', al')"
      using addsD [OF lf d1(2) holds_heap [OF s(2) d1(3)] s(3)] by metis
  qed
next
  case (Suc k)
  obtain f where f: "fuel = Suc f" using Suc.prems by (cases fuel) auto
  have N: "2 \<le> df_nodeNum d0" "length ns < m_dayNodeLimit" using Suc.prems ok by (auto simp: day_ok_def)
  have ns: "set ns \<subseteq> {..<df_nodeNum d0}" "ns \<noteq> []" using N(1) Suc.prems(1,3) by fastforce+
  have "adds K bg d0 (ns @ [n]) l (Search clock bg f) (reached bg d0 k l (ns @ [n]))"
    if "n \<in> set [1..<df_nodeNum d0 - 1]" "n \<notin> set ns" for n l
    by (rule Suc.IH [of _ "xs @ [n]"]) (use that Suc.prems f in auto)
  then have nl: "adds K bg d0 ns left (node_loop (Search clock bg f) [1..<df_nodeNum d0 - 1]) (reached bg d0 (Suc k) left ns)"
    unfolding reached.simps by (intro node_loop_adds [OF ok ns(1) N(2) ns(2)]) auto
  show ?case
  proof (rule addsI)
    fix os d al assume s: "search_at d0 ns left d" "holds K bg d0 os (d, al)"
      "distinct (map (hash_of bg d0) (os @ reached bg d0 (Suc k) left ns))"
    obtain d1 where d1: "tick clock d = (False, d1)" "search_at d0 ns left d1" "df_heap d1 = df_heap d" using tick_at [OF c] s(1) by blast
    note h = holds_heap [OF s(2) d1(3)]
    obtain ps where "heap_inv K (mset ps) (df_heap d1)" using holdsD [OF h] by metis
    then obtain can where can: "CanPush (of_int (GetScore 0 d1)) 0 0 (df_heap d1) = Some can" using CanPush_total [OF _ K] by blast
    have len: "\<not> df_len d1 + 1 \<ge> df_nodeNum d1" "df_nodeNum d1 = df_nodeNum d0"
      using Suc.prems(4) search_atD(3) [OF d1(2)] same_dayD(1) [OF search_atD(1) [OF d1(2)]] by auto
    show "\<exists>r d' al'. Search clock bg fuel (d, al) = Some (r, d', al') \<and> search_at d0 ns left d' \<and>
        holds K bg d0 (os @ reached bg d0 (Suc k) left ns) (d', al')"
    proof (cases can)
      case True
      then have "Search clock bg fuel (d, al) = node_loop (Search clock bg f) [1..<df_nodeNum d0 - 1] (d1, al)"
        using d1(1) len can by (simp add: f)
      then show ?thesis using addsD [OF nl d1(2) h s(3)] by metis
    next
      case False
      then have can': "CanPush (of_int (GetScore 0 d1)) 0 0 (df_heap d1) = Some False" using can by simp
      have "0 \<le> clash_of bg d0 o1 \<and> of_int (order_score d0 (firstL_of bg d0 o1) o1) \<le> (of_int (GetScore 0 d1) :: rat) \<and> (\<exists>p. path_of bg d0 o1 p)"
        if o1: "o1 \<in> set (reached bg d0 (Suc k) left ns)" for o1
      proof -
        obtain ys where ys: "o1 = 0 # ys @ [df_nodeNum d0 - 1]" "distinct ys" "set ys \<subseteq> {1..<df_nodeNum d0 - 1}"
          using reached_form [OF Suc.prems(1-3) o1] by blast
        then have "set o1 \<subseteq> {..<df_nodeNum d0}" "o1 \<noteq> []" using N(1) by fastforce+
        note J = judge_total [OF ok this]
        show ?thesis
          using J(2) order_score_firstL [OF J(3), of d0 o1] reached_score [OF ok ns(2,1) o1] GetScore_at [OF d1(2)]
            path_of_exists [OF ok ys] by simp
      qed
      then have "holds K bg d0 (os @ reached bg d0 (Suc k) left ns) (d1, al)" using Skip_holds [OF h K can'] by blast
      then show ?thesis using d1 can' len by (auto simp: f)
    qed
  qed
qed

subsection \<open>The orders reached\<close>

lemma reached_prefix: "o1 \<in> set (reached bg d k left ns) \<Longrightarrow> \<exists>ys. o1 = ns @ ys"
proof (induction k arbitrary: left ns)
  case (Suc k)
  then obtain n l where "o1 \<in> set (reached bg d k l (ns @ [n]))" by (auto split: if_splits option.splits)
  then show ?case using Suc.IH [of l "ns @ [n]"] by auto
qed (auto split: if_splits)

lemma distinct_concat_map:
  "distinct is \<Longrightarrow> (\<And>n. n \<in> set is \<Longrightarrow> distinct (f n)) \<Longrightarrow>
    (\<And>n m. n \<in> set is \<Longrightarrow> m \<in> set is \<Longrightarrow> n \<noteq> m \<Longrightarrow> set (f n) \<inter> set (f m) = {}) \<Longrightarrow> distinct (concat (map f is))"
  by (induction "is") fastforce+

lemma reached_distinct: "distinct (reached bg d k left ns)"
proof (induction k arbitrary: left ns)
  case (Suc k)
  define f where "f = (\<lambda>n. if n \<in> set ns \<or> leg_of d (last ns) n = None then []
                      else (case meals d left [n] of None \<Rightarrow> [] | Some l \<Rightarrow> reached bg d k l (ns @ [n])))"
  have pre: "\<exists>ys. o1 = ns @ n # ys" if "o1 \<in> set (f n)" for o1 n
    using that reached_prefix [of o1 bg d k _ "ns @ [n]"] by (fastforce simp: f_def split: if_splits option.splits)
  have "set (f n) \<inter> set (f m) = {}" if "n \<noteq> m" for n m
  proof (rule equals0I)
    fix o1 assume "o1 \<in> set (f n) \<inter> set (f m)"
    then obtain ys zs where "o1 = ns @ n # ys" "o1 = ns @ m # zs" using pre by blast
    then show False using that by simp
  qed
  moreover have "distinct (f n)" for n using Suc by (simp add: f_def split: option.splits)
  ultimately have "distinct (concat (map f [1..<df_nodeNum d - 1]))" by (intro distinct_concat_map) auto
  then show ?case by (simp add: f_def)
qed simp

lemma completes_step:
  "completes bg d left xs (n # ys) \<longleftrightarrow> n \<in> {1..<df_nodeNum d - 1} \<and> n \<notin> set xs \<and> leg_of d (last (0 # xs)) n \<noteq> None \<and>
     (\<exists>l. meals d left [n] = Some l \<and> completes bg d l (xs @ [n]) ys)"
  unfolding completes_def by (auto split: option.splits)

lemma reached_Suc:
  "o1 \<in> set (reached bg d (Suc k) left ns) \<longleftrightarrow> (\<exists>n \<in> {1..<df_nodeNum d - 1}. n \<notin> set ns \<and> leg_of d (last ns) n \<noteq> None \<and>
     (\<exists>l. meals d left [n] = Some l \<and> o1 \<in> set (reached bg d k l (ns @ [n]))))"
proof -
  have e: "o1 \<in> set (if A then [] else case m of None \<Rightarrow> [] | Some l \<Rightarrow> g l) \<longleftrightarrow> \<not> A \<and> (\<exists>l. m = Some l \<and> o1 \<in> set (g l))"
    for A m and g :: "u8 \<Rightarrow> nat list list" by (cases m) auto
  show ?thesis
    by (simp only: reached.simps set_concat set_map image_image UN_iff set_upt e de_Morgan_disj conj_assoc)
qed

lemma reached_iff:
  assumes ok: "day_ok bg d" and "distinct xs" "set xs \<subseteq> {1..<df_nodeNum d - 1}" "length xs + 2 + k = df_nodeNum d"
  shows "o1 \<in> set (reached bg d k left (0 # xs)) \<longleftrightarrow>
    (\<exists>ys. o1 = 0 # xs @ ys @ [df_nodeNum d - 1] \<and> completes bg d left xs ys)"
  using assms(2-)
proof (induction k arbitrary: xs left)
  case 0
  have "card (set xs) = card {1..<df_nodeNum d - 1}" using 0(1,3) by (simp add: distinct_card)
  then have full: "set xs = {1..<df_nodeNum d - 1}" using 0(2) by (metis card_subset_eq finite_atLeastLessThan)
  then have ys: "completes bg d left xs ys \<Longrightarrow> ys = []" for ys
    by (cases ys) (auto simp: completes_def)
  have "set (0 # xs @ [df_nodeNum d - 1]) \<subseteq> {..<df_nodeNum d}" using full ok by (auto simp: day_ok_def)
  then obtain r c f where j: "judge bg d (0 # xs @ [df_nodeNum d - 1]) = Some (r, c, f)" using judge_total(1) [OF ok] by blast
  have "completes bg d left xs [] \<longleftrightarrow> leg_of d (last (0 # xs)) (df_nodeNum d - 1) \<noteq> None \<and> r = 0"
    using 0(1) full j by (auto simp: completes_def)
  then show ?case using ys j by (auto split: if_splits)
next
  case (Suc k)
  have ne: "completes bg d left xs ys \<Longrightarrow> ys \<noteq> []" for ys
  proof
    assume "completes bg d left xs ys" "ys = []"
    then have "card (set xs) = df_nodeNum d - 2" by (simp add: completes_def)
    then show False using Suc.prems(1,3) by (simp add: distinct_card)
  qed
  have "o1 \<in> set (reached bg d (Suc k) left (0 # xs)) \<longleftrightarrow>
      (\<exists>n l. n \<in> {1..<df_nodeNum d - 1} \<and> n \<notin> set xs \<and> leg_of d (last (0 # xs)) n \<noteq> None \<and> meals d left [n] = Some l \<and>
        o1 \<in> set (reached bg d k l (0 # xs @ [n])))"
    unfolding reached_Suc by auto
  also have "\<dots> \<longleftrightarrow> (\<exists>n l ys. n \<in> {1..<df_nodeNum d - 1} \<and> n \<notin> set xs \<and> leg_of d (last (0 # xs)) n \<noteq> None \<and> meals d left [n] = Some l \<and>
        o1 = 0 # xs @ n # ys @ [df_nodeNum d - 1] \<and> completes bg d l (xs @ [n]) ys)"
    using Suc.IH [of "xs @ [_]"] Suc.prems by auto
  also have "\<dots> \<longleftrightarrow> (\<exists>n ys. o1 = 0 # xs @ (n # ys) @ [df_nodeNum d - 1] \<and> completes bg d left xs (n # ys))"
    unfolding completes_step by auto
  also have "\<dots> \<longleftrightarrow> (\<exists>ys. o1 = 0 # xs @ ys @ [df_nodeNum d - 1] \<and> completes bg d left xs ys)"
    using ne by (metis list.exhaust)
  finally show ?case .
qed

lemma reached_all:
  assumes "day_ok bg d"
  shows "set (reached bg d (df_nodeNum d - 2) (df_blockRestNeed d) [0]) = day_orders bg d"
proof -
  have "2 \<le> df_nodeNum d" using assms by (simp add: day_ok_def)
  then show ?thesis using reached_iff [OF assms, of "[]" "df_nodeNum d - 2"]
    by (auto simp: day_orders_def completes_def)
qed

subsection \<open>Initialisation\<close>

lemma those_map_fun: "(\<And>x. x \<in> set xs \<Longrightarrow> f x = Some (g x)) \<Longrightarrow> those (map f xs) = Some (map g xs)"
  by (induction xs) auto

lemma concat_filter: "concat (map (\<lambda>x. if P x then [x] else []) xs) = filter P xs"
  by (induction xs) auto

lemma day_pos_ok:
  assumes "spath_ok rich"
  shows "day_pos rich b = Some (filter (\<lambda>v. sp_bPos rich ! unat v = b) (sp_used rich))"
proof -
  have len: "nat (sp_len rich) \<le> length (sp_vPos rich)" using assms by (auto simp: spath_ok_def)
  have g: "GetVPos (int i) rich = Some (sp_vPos rich ! i)" "GetBPos (sp_vPos rich ! i) rich = Some (sp_bPos rich ! unat (sp_vPos rich ! i))"
    if "i < nat (sp_len rich)" for i
  proof -
    have "sp_vPos rich ! i \<in> set (sp_used rich)" using that len by (auto simp: sp_used_def in_set_conv_nth)
    then have u: "uint (sp_vPos rich ! i) < sp_nodeNum rich" using assms by (auto simp: spath_ok_def)
    then have "unat (sp_vPos rich ! i) < length (sp_bPos rich)"
      using assms uint_less [of "sp_vPos rich ! i" kPathLimit] by (auto simp: spath_ok_def)
    then have "arr_get (sp_bPos rich) (uint (sp_vPos rich ! i)) = Some (sp_bPos rich ! unat (sp_vPos rich ! i))"
      using arr_get_int by (metis uint_nat)
    then show "GetVPos (int i) rich = Some (sp_vPos rich ! i)" "GetBPos (sp_vPos rich ! i) rich = Some (sp_bPos rich ! unat (sp_vPos rich ! i))"
      using that len u by (auto simp: GetVPos_def GetBPos_def)
  qed
  have "map ((!) (sp_vPos rich)) [0..<nat (sp_len rich)] = sp_used rich"
    by (rule nth_equalityI) (use len in \<open>auto simp: sp_used_def\<close>)
  then have "concat (map (\<lambda>i. if sp_bPos rich ! unat (sp_vPos rich ! i) = b then [sp_vPos rich ! i] else []) [0..<nat (sp_len rich)])
      = filter (\<lambda>v. sp_bPos rich ! unat v = b) (sp_used rich)"
    unfolding concat_filter [symmetric] by (metis (no_types, lifting) comp_apply map_eq_conv map_map)
  then show ?thesis unfolding day_pos_def by (subst those_map_fun) (use g in auto)
qed

lemma clash_tables_length: "clash_tables bg block vs = Some (Inr rs) \<Longrightarrow> length rs = length vs"
proof (induction vs arbitrary: rs)
  case (Cons v vs)
  obtain place where p: "GetPosPlace bg v = Some place" using Cons.prems by (cases "GetPosPlace bg v") auto
  obtain z r where "clash_tables bg block vs = Some r" "(case r of Inl e \<Rightarrow> Inl e | Inr rs \<Rightarrow> Inr (z # rs)) = Inr rs"
    using Cons.prems p by (auto simp: Option.bind_eq_Some_conv)
  then show ?case using Cons.IH by (cases r) auto
qed simp

lemma clash_tables_error: "clash_tables bg block vs \<noteq> Some (Inl 0)"
proof (induction vs)
  case (Cons v vs)
  show ?case
  proof
    assume a: "clash_tables bg block (v # vs) = Some (Inl 0)"
    then obtain place where "GetPosPlace bg v = Some place" by (cases "GetPosPlace bg v") auto
    then obtain z r where "clash_tables bg block vs = Some r" "(case r of Inl e \<Rightarrow> Inl e | Inr rs \<Rightarrow> Inr (z # rs)) = Inl 0"
      using a by (auto simp: Option.bind_eq_Some_conv)
    then show False using Cons by (cases r) auto
  qed
qed simp

lemma Init4Clash_ok:
  assumes "Init4Clash bg blockIdx d = Some (0, d')" "length (df_vPosList d) = df_nodeNum d"
  shows "\<exists>zs ws st sp. d' = d\<lparr>df_zipDurList := zs, df_openCloseList := ws, df_start := st, df_stop := sp\<rparr> \<and>
    length zs = df_nodeNum d \<and> length ws = df_nodeNum d"
proof -
  obtain block k1 k2 where b: "GetBlock (bg_base bg) blockIdx = Some block" "GetKey (bg_base bg) blockIdx = Some k1"
    "GetKey (bg_base bg) (blockIdx + 1) = Some k2"
    using assms(1) by (auto simp: Init4Clash_def split: option.splits)
  then obtain r where r: "clash_tables bg block (take (df_nodeNum d) (df_vPosList d)) = Some r"
    using assms(1) by (cases "clash_tables bg block (take (df_nodeNum d) (df_vPosList d))") (auto simp: Init4Clash_def)
  show ?thesis
  proof (cases r)
    case (Inl e)
    then have "e = 0" using assms(1) b r by (simp add: Init4Clash_def)
    then show ?thesis using clash_tables_error r Inl by blast
  next
    case (Inr rs)
    then have "length rs = df_nodeNum d" "d' = d\<lparr>df_zipDurList := map fst rs, df_openCloseList := map snd rs,
        df_start := kn_close k1, df_stop := kn_close k2 - ds_zip (kn_durS k2)\<rparr>"
      using assms b r clash_tables_length [of bg block _ rs] by (auto simp: Init4Clash_def)
    then show ?thesis by (metis length_map)
  qed
qed

lemma length_fix_meals: "length (fix_meals r ts) = length ts"
  by (auto simp: fix_meals_def split: prod.splits option.splits)

lemma DFS_Init_ok:
  assumes "DFS_Init limit bg rich blockIdx d0 = Some (0, d)" "spath_ok rich"
  shows "\<exists>vs. df_vPosList d = df_bPos d # sort vs @ [df_bPos d + 1] \<and> vs = filter (\<lambda>v. sp_bPos rich ! unat v = df_bPos d) (sp_used rich) \<and>
    length vs + 2 \<le> m_dayNodeLimit \<and> df_nodeNum d = length vs + 2 \<and> df_bPos d = word_of_int blockIdx"
    "df_len d = 0" "df_totDist d = 0" "df_nonWalkCnt d = 0" "df_walkDist d = 0" "df_path d = df_path d0"
    "df_heap d = SPathHeap_Init limit (df_heap d0)" "df_leftRestNeed d = df_blockRestNeed d"
    "df_visited d = replicate (df_nodeNum d) False" "length (df_vType d) = df_nodeNum d"
    "length (df_zipDurList d) = df_nodeNum d" "length (df_openCloseList d) = df_nodeNum d"
    "df_traf d = concat (map (\<lambda>vA. map (GetPosTraf bg (df_bPos d) vA) (df_vPosList d)) (df_vPosList d))"
proof -
  define b where "b = (word_of_int blockIdx :: u8)"
  define vs where "vs = filter (\<lambda>v. sp_bPos rich ! unat v = b) (sp_used rich)"
  define ps where "ps = b # sort vs @ [b + 1]"
  define d1 where "d1 = d0\<lparr>df_nodeNum := 0, df_len := 0, df_bPos := b, df_totDist := 0, df_nonWalkCnt := 0,
                 df_walkDist := 0, df_sCnt := 0, df_tCnt := 0, df_heap := SPathHeap_Init limit (df_heap d0)\<rparr>"
  define ts where "ts = fix_meals (rest_idx 0 (map (GetVType bg b) ps) (None, None)) (map (GetVType bg b) ps)"
  define need where "need = rest_need (rest_idx 0 (map (GetVType bg b) ps) (None, None)) ts"
  define d2 where "d2 = d1\<lparr>df_nodeNum := length ps, df_vPosList := ps, df_vType := ts, df_blockRestNeed := need, df_leftRestNeed := need,
                 df_traf := concat (map (\<lambda>vA. map (GetPosTraf bg b vA) ps) ps), df_visited := replicate (length ps) False\<rparr>"
  have lim: "length vs + 2 \<le> m_dayNodeLimit" and i4: "Init4Clash bg blockIdx d2 = Some (0, d)"
    using assms(1) day_pos_ok [OF assms(2), of b]
    by (auto simp: DFS_Init_def Let_def b_def [symmetric] vs_def [symmetric] ps_def [symmetric] d1_def [symmetric] ts_def [symmetric]
        need_def [symmetric] d2_def [symmetric] split: if_splits)
  obtain zs ws st sp where d: "d = d2\<lparr>df_zipDurList := zs, df_openCloseList := ws, df_start := st, df_stop := sp\<rparr>"
    "length zs = length ps" "length ws = length ps" using Init4Clash_ok [OF i4] by (auto simp: d2_def)
  have lp: "length ps = length vs + 2" "length ts = length ps" by (simp_all add: ps_def ts_def length_fix_meals)
  show "\<exists>vs. df_vPosList d = df_bPos d # sort vs @ [df_bPos d + 1] \<and> vs = filter (\<lambda>v. sp_bPos rich ! unat v = df_bPos d) (sp_used rich) \<and>
    length vs + 2 \<le> m_dayNodeLimit \<and> df_nodeNum d = length vs + 2 \<and> df_bPos d = word_of_int blockIdx"
    using lim lp by (intro exI [of _ vs]) (simp add: d(1) d2_def d1_def ps_def [symmetric] vs_def [symmetric] b_def [symmetric])
  show "df_len d = 0" "df_totDist d = 0" "df_nonWalkCnt d = 0" "df_walkDist d = 0" "df_path d = df_path d0"
    "df_heap d = SPathHeap_Init limit (df_heap d0)" "df_leftRestNeed d = df_blockRestNeed d"
    "df_visited d = replicate (df_nodeNum d) False" "length (df_vType d) = df_nodeNum d"
    "length (df_zipDurList d) = df_nodeNum d" "length (df_openCloseList d) = df_nodeNum d"
    "df_traf d = concat (map (\<lambda>vA. map (GetPosTraf bg (df_bPos d) vA) (df_vPosList d)) (df_vPosList d))"
    using d(2,3) lp by (simp_all add: d(1) d2_def d1_def)
qed

lemma day_okI:
  assumes init: "DFS_Init limit bg rich blockIdx d0 = Some (0, d)" "spath_ok rich" "distinct (sp_used rich)" "sp_nodeNum rich = bg_nodeNum bg"
    and blk: "0 \<le> blockIdx" "blockIdx < GetBlockNum (bg_base bg)" "length (bp_BlockList (bg_base bg)) \<le> kBlockLimit"
    and dist: "\<forall>a b t. GetPosTraf bg (df_bPos d) a b = Some t \<longrightarrow> 0 \<le> tr_dist t"
    and win: "\<forall>i < df_nodeNum d. \<not> has_flag (df_vType d ! i) NODE_FUNC_PLACE_RESTAURANT \<longrightarrow> None \<notin> set (df_openCloseList d ! i)"
  shows "day_ok bg d"
proof -
  note I = DFS_Init_ok [OF init(1,2)]
  obtain vs where vs: "df_vPosList d = df_bPos d # sort vs @ [df_bPos d + 1]" "vs = filter (\<lambda>v. sp_bPos rich ! unat v = df_bPos d) (sp_used rich)"
    "length vs + 2 \<le> m_dayNodeLimit" "df_nodeNum d = length vs + 2" "df_bPos d = word_of_int blockIdx" using I(1) by blast
  have mid: "tl (butlast (df_vPosList d)) = sort vs" using vs(1) by simp
  have mem: "\<forall>v \<in> set vs. uint v < bg_nodeNum bg" using init(2,4) vs(2) by (auto simp: spath_ok_def)
  have len: "length (df_vPosList d) = df_nodeNum d" using vs(1,4) by simp
  have "nat blockIdx < 256" "nat blockIdx < length (bp_BlockList (bg_base bg))" using blk by (auto simp: GetBlockNum_def kBlockLimit_def)
  moreover from this have "unat (df_bPos d) = nat blockIdx" unfolding vs(5) using blk(1) by (simp add: unat_eq_nat_uint unsigned_of_int take_bit_int_eq_self)
  ultimately have b: "unat (df_bPos d) < length (bp_BlockList (bg_base bg))" by simp
  have lt: "length (df_traf d) = df_nodeNum d * df_nodeNum d"
    unfolding I(13) length_concat by (simp add: comp_def len sum_list_triv)
  have "0 \<le> tr_dist t" if "Some t \<in> set (df_traf d)" for t using that dist unfolding I(13) by auto
  moreover have "0 \<le> bg_nodeNum bg" "bg_nodeNum bg \<le> int kPathLimit" using init(2,4) by (auto simp: spath_ok_def)
  moreover have "distinct vs" using init(3) vs(2) by simp
  ultimately show ?thesis
    unfolding day_ok_def mid using vs(3,4) len I(10-12) lt win mem b blk(3) by auto
qed

text \<open>What a heap holds, as orders.\<close>

lemma kept_orders:
  assumes h: "heap_inv K (mset ps) h" and ps: "list_all2 (path_of bg d) os ps" and hash: "distinct (map (hash_of bg d) os)"
  shows "\<exists>ks. list_all2 (path_of bg d) ks (sh_queue h) \<and> distinct ks \<and> set ks \<subseteq> set os \<and> length ks = min K (length os) \<and>
    (\<forall>x \<in> set ks. \<forall>y \<in> set os - set ks. order_key bg d x \<le> order_key bg d y)"
proof -
  define g where "g = (\<lambda>x. the (map_of (zip os ps) x))"
  have len: "length ps = length os" using ps by (simp add: list_all2_lengthD)
  have dos: "distinct os" using hash by (simp add: distinct_map)
  have gi: "g (os ! i) = ps ! i" if "i < length os" for i
    using that dos len by (simp add: g_def map_of_zip_nth)
  have psg: "ps = map g os" by (rule nth_equalityI) (use len gi in auto)
  have pg: "path_of bg d x (g x)" if "x \<in> set os" for x
    using that ps gi by (auto simp: in_set_conv_nth list_all2_conv_all_nth)
  have inj: "inj_on g (set os)"
  proof (rule inj_onI)
    fix x y assume xy: "x \<in> set os" "y \<in> set os" "g x = g y"
    then have "hash_of bg d x = hash_of bg d y" using pg by (metis path_of_def)
    then show "x = y" using hash xy(1,2) by (auto simp: distinct_map dest: inj_onD)
  qed
  obtain rest where rest: "mset (sh_queue h) + rest = mset ps" "dominates SPathCmp (mset (sh_queue h)) rest"
    and sz: "length (sh_queue h) = min K (length ps)" using h by (auto simp: heap_inv_def best_of_def)
  define q where "q = sh_queue h"
  have "distinct ps" using dos inj by (simp add: psg distinct_map)
  have sub: "set q \<subseteq> g ` set os" using rest(1) unfolding q_def psg by (metis Un_upper1 set_map set_mset_mset set_mset_union)
  obtain ys where "mset ys = rest" using ex_mset by blast
  then have "mset (q @ ys) = mset ps" using rest(1) by (simp add: q_def)
  then have dq: "distinct q" using \<open>distinct ps\<close> by (metis distinct_append mset_eq_imp_distinct_iff)
  define k where "k = inv_into (set os) g"
  have kg: "g (k p) = p" "k p \<in> set os" if "p \<in> set q" for p
    using that sub f_inv_into_f [of p g "set os"] inv_into_into [of p g "set os"] by (auto simp: k_def)
  have gk: "k (g x) = x" if "x \<in> set os" for x using that inj by (simp add: k_def)
  have "list_all2 (path_of bg d) (map k q) q"
    using pg kg by (auto simp: list_all2_conv_all_nth) (metis nth_mem)
  moreover have "distinct (map k q)" using dq kg by (auto simp: distinct_map intro!: inj_onI) (metis kg(1))
  moreover have "order_key bg d x \<le> order_key bg d y" if "x \<in> set (map k q)" "y \<in> set os - set (map k q)" for x y
  proof -
    have x: "g x \<in> set q" "x \<in> set os" using that(1) kg by auto
    have "g y \<notin> set q" using that(2) gk by (metis DiffD1 DiffD2 image_eqI set_map)
    then have "g y \<in># rest" using that(2) rest(1) unfolding q_def psg by (metis DiffD1 UnE image_eqI set_map set_mset_mset set_mset_union)
    then have "\<not> SPathCmp (g y) (g x)" using rest(2) x(1) by (auto simp: dominates_def q_def)
    then have "cmp_tuple (g x) \<le> cmp_tuple (g y)" using SPathCmp_whole path_of_whole pg x(2) that(2) by (metis DiffD1 leI)
    then show ?thesis using pg [OF x(2)] pg [of y] that(2) by (auto simp: cmp_tuple_def order_key_def path_of_def)
  qed
  ultimately show ?thesis using kg(2) sz len unfolding q_def by (intro exI [of _ "map k (sh_queue h)"]) auto
qed

lemma DoSearch_orders:
  assumes "0 < K" "\<forall>k. \<not> clock k" "df_heap d0 = SPathHeap_new" "length (df_path d0) = m_dayNodeLimit" "alloc_mem al"
    and "DFS_Init (int K) bg rich blockIdx d0 = Some (0, d)" "spath_ok rich" "distinct (sp_used rich)" "sp_nodeNum rich = bg_nodeNum bg"
    and "0 \<le> blockIdx" "blockIdx < GetBlockNum (bg_base bg)" "length (bp_BlockList (bg_base bg)) \<le> kBlockLimit"
    and "\<forall>a b t. GetPosTraf bg (df_bPos d) a b = Some t \<longrightarrow> 0 \<le> tr_dist t"
    and "\<forall>i < df_nodeNum d. \<not> has_flag (df_vType d ! i) NODE_FUNC_PLACE_RESTAURANT \<longrightarrow> None \<notin> set (df_openCloseList d ! i)"
    and "inj_on (hash_of bg d) (day_orders bg d)"
  shows "\<exists>sPathList st ks. DoSearch clock (int K) bg rich blockIdx d0 al = Some (0, sPathList, st) \<and>
    list_all2 (path_of bg d) ks sPathList \<and> distinct ks \<and> set ks \<subseteq> day_orders bg d \<and> length ks = min K (card (day_orders bg d)) \<and>
    (\<forall>x \<in> set ks. \<forall>y \<in> day_orders bg d - set ks. order_key bg d x \<le> order_key bg d y) \<and> alloc_mem (snd st)"
proof -
  note I = DFS_Init_ok [OF assms(6,7)]
  have ok: "day_ok bg d" by (rule day_okI [OF assms(6-14)])
  have N: "2 \<le> df_nodeNum d" using ok by (simp add: day_ok_def)
  define d1 where "d1 = d\<lparr>df_path := (df_path d)[0 := 0], df_len := 1, df_visited := (df_visited d)[0 := True]\<rparr>"
  define all where "all = reached bg d (df_nodeNum d - 2) (df_blockRestNeed d) [0]"
  have all: "set all = day_orders bg d" "distinct all" using reached_all [OF ok] reached_distinct by (auto simp: all_def)
  have v: "(replicate (df_nodeNum d) False)[0 := True] = map (\<lambda>i. i \<in> set [0]) [0..<df_nodeNum d]"
    by (rule nth_equalityI) (auto simp: nth_list_update)
  have p: "take 1 ((df_path d0)[0 := 0]) = [0]" using assms(4) by (cases "df_path d0") (auto simp: m_dayNodeLimit_def)
  have at: "search_at d [0] (df_blockRestNeed d) d1"
    using p assms(4) v by (simp add: search_at_def same_day_def d1_def I leg_sum_def pairs_def)
  have h: "holds K bg d [] (d1, al)"
    using assms(3,5) heap_inv_Init [of K] by (simp add: holds_def d1_def I SPathHeap_Init_def SPathHeap_new_def)
  have dh: "distinct (map (hash_of bg d) all)" using all assms(15) by (simp add: distinct_map)
  have ad: "adds K bg d [0] (df_blockRestNeed d) (Search clock bg (df_nodeNum d)) all"
    unfolding all_def by (rule Search_adds [OF ok assms(1,2)]) (use N in auto)
  have "distinct (map (hash_of bg d) ([] @ all))" using dh by simp
  then obtain r d2 al2 where d2: "Search clock bg (df_nodeNum d) (d1, al) = Some (r, d2, al2)" "holds K bg d all (d2, al2)"
    using addsD [OF ad at h, of thesis] by simp
  obtain ps where ps: "list_all2 (path_of bg d) all ps" "heap_inv K (mset ps) (df_heap d2)" "alloc_mem al2" using holdsD [OF d2(2)] by metis
  have "DoSearch clock (int K) bg rich blockIdx d0 al = Some (0, sh_queue (df_heap d2), d2, al2)"
    using assms(4,6) d2(1) N by (simp add: DoSearch_def I arr_set_def d1_def m_dayNodeLimit_def SPathHeap_CopyVal_def)
  moreover have "length all = card (day_orders bg d)" using all distinct_card by metis
  ultimately show ?thesis using kept_orders [OF ps(2,1) dh] all(1) ps(3) by fastforce
qed

text \<open>C1: The search for the order of a day returns the best orders. For a block whose day is set up, with
  no time-out and a heap bound \<open>K > 0\<close>, \<open>DFS::DoSearch\<close> returns \<open>min K n\<close> candidates for the \<open>n\<close> orders
  of the day's visits in which every leg is in the traffic table, the restaurants are taken in the
  order the meals allow and the judgement does not fail; each is the candidate of one such order, and no
  order left out has a smaller key (clash, then score, then hash). So the pruning by \<open>CanPush\<close>
  loses nothing. Distances are not negative, the opening slots of visits are not null, and
  the hashes of the orders differ.\<close>

theorem DoSearch_best:
  assumes "0 < K" "\<forall>k. \<not> clock k" "df_heap d0 = SPathHeap_new" "length (df_path d0) = m_dayNodeLimit" "alloc_mem al"
    and "DFS_Init (int K) bg rich blockIdx d0 = Some (0, d)" "spath_ok rich" "distinct (sp_used rich)" "sp_nodeNum rich = bg_nodeNum bg"
    and "0 \<le> blockIdx" "blockIdx < GetBlockNum (bg_base bg)" "length (bp_BlockList (bg_base bg)) \<le> kBlockLimit"
    and "\<forall>a b t. GetPosTraf bg (df_bPos d) a b = Some t \<longrightarrow> 0 \<le> tr_dist t"
    and "\<forall>i < df_nodeNum d. \<not> has_flag (df_vType d ! i) NODE_FUNC_PLACE_RESTAURANT \<longrightarrow> None \<notin> set (df_openCloseList d ! i)"
    and "inj_on (hash_of bg d) (day_orders bg d)"
  shows "\<exists>sPathList st ks. DoSearch clock (int K) bg rich blockIdx d0 al = Some (0, sPathList, st) \<and>
    list_all2 (path_of bg d) ks sPathList \<and> distinct ks \<and> set ks \<subseteq> day_orders bg d \<and> length ks = min K (card (day_orders bg d)) \<and>
    (\<forall>x \<in> set ks. \<forall>y \<in> day_orders bg d - set ks. order_key bg d x \<le> order_key bg d y)"
  using DoSearch_orders [OF assms] by blast

lemma demo_rich_ok: "spath_ok demo_rich" "sp_used demo_rich = [2, 3]" "sp_nodeNum demo_rich = bg_nodeNum demo_day_bag"
proof -
  show u: "sp_used demo_rich = [2, 3]" by (simp add: sp_used_def demo_rich_def)
  show "spath_ok demo_rich" unfolding spath_ok_def u
    by (simp add: demo_rich_def demo_spath_def kPathLimit_def kBlockLimit_def)
qed (simp add: demo_rich_def demo_day_bag_def)

lemma demo_pos: "day_pos demo_rich 0 = Some [2, 3]"
  unfolding day_pos_ok [OF demo_rich_ok(1)] demo_rich_ok(2)
  by (simp add: demo_rich_def demo_spath_def kPathLimit_def)

lemma demo_tables:
  "clash_tables demo_day_bag block [0, 2, 3, 1] = Some (Inr (replicate 4 (50, case TimeBlock_GetPlaceInfo ''v1'' block of
     None \<Rightarrow> [] | Some pin \<Rightarrow> pin_availOpenCloseList pin)))"
proof -
  have p: "GetPosPlace demo_day_bag v = Some demo_view" if "v \<in> set [0, 1, 2, 3]" for v
    using that by (auto simp: GetPosPlace_def demo_day_bag_def)
  have "has_flag (lp_t demo_view) dfs_place_types" "GetZipDur (bg_base demo_day_bag) demo_view = Some 50" "lp_ID demo_view = ''v1''"
    by (simp_all add: has_flag_def demo_view_def dfs_place_types_def flag_simps place0_def GetZipDur_def demo_day_bag_def BagPlan_new_def DurS_new_def)
  then show ?thesis by (simp add: p numeral_eq_Suc)
qed

lemma demo_init: "DFS_Init 1 demo_day_bag demo_rich 0 demo_dfs = Some (0, demo_day)"
  "\<forall>ws \<in> set (df_openCloseList demo_day). None \<notin> set ws"
proof -
  obtain block k1 k2 where b: "GetBlock (bg_base demo_day_bag) 0 = Some block" "GetKey (bg_base demo_day_bag) 0 = Some k1"
    "GetKey (bg_base demo_day_bag) 1 = Some k2" "tb_pInfoMap block = [''v1'' \<mapsto> demo_pinfo]"
    by (simp add: GetBlock_def GetKey_def demo_day_bag_def BagPlan_new_def arr_get_def)
  have s: "sort [2, 3 :: u8] = [2, 3]" by simp
  have "\<exists>d. DFS_Init 1 demo_day_bag demo_rich 0 demo_dfs = Some (0, d) \<and> df_openCloseList d = replicate 4 [Some (OpenClose_new 0 900 800 0)]"
    using b by (simp add: DFS_Init_def demo_pos s Let_def m_dayNodeLimit_def Init4Clash_def demo_tables TimeBlock_GetPlaceInfo_def demo_pinfo_def
        del: clash_tables.simps rest_idx.simps)
  then show "DFS_Init 1 demo_day_bag demo_rich 0 demo_dfs = Some (0, demo_day)" "\<forall>ws \<in> set (df_openCloseList demo_day). None \<notin> set ws"
    by (auto simp: demo_day_def)
qed

lemma demo_day_vals: "df_nodeNum demo_day = 4" "df_vPosList demo_day = [0, 2, 3, 1]" "df_bPos demo_day = 0" "length (df_openCloseList demo_day) = 4"
proof -
  note I = DFS_Init_ok [OF demo_init(1) demo_rich_ok(1)]
  have f: "filter (\<lambda>v. sp_bPos demo_rich ! unat v = 0) (sp_used demo_rich) = [2, 3]"
    using demo_pos unfolding day_pos_ok [OF demo_rich_ok(1)] by simp
  show "df_nodeNum demo_day = 4" "df_vPosList demo_day = [0, 2, 3, 1]" "df_bPos demo_day = 0"
    using I(1) f by auto
  then show "length (df_openCloseList demo_day) = 4" using I(12) by simp
qed

lemma demo_traf: "GetPosTraf demo_day_bag 0 a b = Some t \<Longrightarrow> 0 \<le> tr_dist t"
proof -
  have p: "bg_posPList demo_day_bag ! unat a = demo_view" if "uint a < 4" for a :: u8
    using that by (simp add: demo_day_bag_def uint_less [of a 4, simplified])
  have "GetTraffic (bg_base demo_day_bag) ''v1'' ''v1'' date = Some self_traffic_item" for date
    by (simp add: GetTraffic_def GetTraffic2_def GetCutId_id demo_day_bag_def BagPlan_new_def BasePlan_new_def Let_def m_attachRest_def m_segmentPlace_def)
  moreover have "bg_nodeNum demo_day_bag = 4" "lp_ID demo_view = ''v1''" by (simp_all add: demo_day_bag_def demo_view_def)
  moreover assume "GetPosTraf demo_day_bag 0 a b = Some t"
  ultimately show ?thesis
    by (auto simp: GetPosTraf_def p Let_def self_traffic_item_def split: if_splits option.splits)
qed

lemma demo_orders: "day_orders demo_day_bag demo_day \<subseteq> {[0, 1, 2, 3], [0, 2, 1, 3]}"
proof
  fix ns assume "ns \<in> day_orders demo_day_bag demo_day"
  then obtain xs where xs: "ns = 0 # xs @ [3]" "distinct xs" "set xs = {1, 2}"
    by (auto simp: day_orders_def demo_day_vals atLeastLessThan_nat_numeral)
  then have "length xs = 2" using distinct_card [of xs] by simp
  then obtain a b where "xs = [a, b]" by (metis (no_types, opaque_lifting) length_0_conv length_Suc_conv numeral_2_eq_2)
  then show "ns \<in> {[0, 1, 2, 3], [0, 2, 1, 3]}" using xs by auto
qed

lemma demo_hash: "hash_of demo_day_bag demo_day [0, 1, 2, 3] \<noteq> hash_of demo_day_bag demo_day [0, 2, 1, 3]"
  by (simp add: hash_of_def visits_of_def demo_day_vals Hash_vec_def hash_step_def demo_day_bag_def BagPlan_new_def)

theorem DoSearch_best_witness:
  "\<exists>sPathList st. DoSearch (\<lambda>k. False) 1 demo_day_bag demo_rich 0 demo_dfs (SPathAlloc_new (\<lambda>i. demo_spath) 0 2) = Some (0, sPathList, st) \<and>
    length sPathList = min 1 (card (day_orders demo_day_bag demo_day))"
proof -
  have al: "alloc_mem (SPathAlloc_new (\<lambda>i. demo_spath) 0 2)"
    unfolding SPathAlloc_new_def by (rule alloc_mem_Expand) (simp add: alloc_mem_def demo_spath_arrays)
  have inj: "inj_on (hash_of demo_day_bag demo_day) (day_orders demo_day_bag demo_day)"
    by (rule inj_on_subset [OF _ demo_orders]) (use demo_hash in auto)
  have win: "\<forall>i < df_nodeNum demo_day. \<not> has_flag (df_vType demo_day ! i) NODE_FUNC_PLACE_RESTAURANT \<longrightarrow>
      None \<notin> set (df_openCloseList demo_day ! i)" using demo_init(2) demo_day_vals by simp
  have blk: "0 < GetBlockNum (bg_base demo_day_bag)" "length (bp_BlockList (bg_base demo_day_bag)) \<le> kBlockLimit"
    by (simp_all add: GetBlockNum_def demo_day_bag_def BagPlan_new_def kBlockLimit_def)
  have "\<exists>sPathList st ks. DoSearch (\<lambda>k. False) (int 1) demo_day_bag demo_rich 0 demo_dfs (SPathAlloc_new (\<lambda>i. demo_spath) 0 2) = Some (0, sPathList, st) \<and>
    list_all2 (path_of demo_day_bag demo_day) ks sPathList \<and> distinct ks \<and> set ks \<subseteq> day_orders demo_day_bag demo_day \<and>
    length ks = min 1 (card (day_orders demo_day_bag demo_day)) \<and>
    (\<forall>x \<in> set ks. \<forall>y \<in> day_orders demo_day_bag demo_day - set ks. order_key demo_day_bag demo_day x \<le> order_key demo_day_bag demo_day y)"
    by (rule DoSearch_best)
      (use al demo_init(1) demo_rich_ok demo_traf inj win blk demo_day_vals(3) in \<open>auto simp: demo_dfs_def\<close>)
  then show ?thesis by (auto dest: list_all2_lengthD)
qed

end
