(* ===== verification/DFSWorker.thy ===== *)
theory DFSWorker
  imports DFS "HOL-Library.AList"
begin

text \<open>
  The workers of the day search and the merge of their results (Route/bag/DFSWorker.h and .cpp, DFSearch.cpp).

  \<^item> \<open>JoinDayPath\<close> walks all combinations of one candidate per day; \<open>tmpList\<close> is its stack, \<open>days\<close> are the days not
    yet on it. Its results are always 0 and are left out; the state is the heap of the worker and the allocator.
  \<^item> \<open>DFS dfs;\<close> leaves the plain members of the object unset: the argument \<open>raw\<close>. \<open>late\<close> and \<open>clock\<close> are the answers of
    the wall clock. \<open>LYConstData::SetQueryParam\<close> sets the query of the thread and has no effect here.
  \<^item> The order in which an unordered container is walked is the argument \<open>iter\<close>; \<open>std::sort\<close> is the argument \<open>srt\<close>.
  \<^item> \<open>None\<close>: undefined behaviour, as in the theories below.
  \<^item> \<open>EvalDFS\<close> is not called; it and its \<open>CrossWorker\<close> are not modelled.

  The properties: a worker leaves in its heap the best plans over the best orders of every day, whatever was pruned on
  the way (\<open>JoinDayPath_best\<close> for given candidates of the days, \<open>day_loop_best\<close> for the days, \<open>combo_plan\<close> for what a combination
  is); merging the heaps of the threads gives the heap one thread would have had.
\<close>

section \<open>DFSWorker\<close>

fun join_nodes :: "spath \<Rightarrow> nat list \<Rightarrow> spath \<Rightarrow> spath option" where
  "join_nodes daySP [] p = Some p"
| "join_nodes daySP (j # js) p = do {
     vPos \<leftarrow> GetVPos (int j) daySP;
     bPos \<leftarrow> GetBPos vPos daySP;
     (r, p1) \<leftarrow> PushV bPos vPos 0 0 0 NODE_FUNC_NULL p;
     join_nodes daySP js p1 }"

fun join_days :: "spath list \<Rightarrow> spath \<Rightarrow> spath option" where
  "join_days [] p = Some p"
| "join_days (daySP # rest) p = do {
     p1 \<leftarrow> join_nodes daySP [0..<nat (sp_len daySP)] p;
     join_days rest p1 }"

definition join_path :: "bagplan \<Rightarrow> spath \<Rightarrow> spath list \<Rightarrow> spath \<Rightarrow> spath option" where
  "join_path bg rich tmpList obj = do {
     p0 \<leftarrow> SPath_Init bg obj;
     p1 \<leftarrow> join_days tmpList p0;
     let p2 = SetScore (sum_list (map sp_score tmpList)) (SetFirstL (sum_list (map sp_firstL tmpList))
       (SetClash (sum_list (map sp_clash tmpList)) (SetDist (sum_list (map sp_dist tmpList)) (SetHot (sp_hot rich) p1))));
     Some (CalHashPointSet bg (CalHashPointOrder (SetHashFrom (sp_hash rich) (SetMissLevel (sp_missLevel rich) p2)))) }"

type_synonym jstate = "spheap \<times> spalloc"

definition join_leaf :: "bagplan \<Rightarrow> spath \<Rightarrow> spath list \<Rightarrow> jstate \<Rightarrow> jstate option" where
  "join_leaf bg rich tmpList = (\<lambda>(h, al). do {
     can \<leftarrow> CanPush (sum_list (map sp_score tmpList)) 0 0 h;
     if \<not> can then Some (h, al)
     else do {
       let (obj, al1) = SPathAlloc_New al;
       o1 \<leftarrow> obj;
       joinPath \<leftarrow> join_path bg rich tmpList o1;
       (dPath, h1) \<leftarrow> SPathHeap_Push joinPath False h;
       Some (h1, if dPath \<noteq> None then snd (SPathAlloc_Delete dPath al1) else al1) } })"

fun each :: "('a \<Rightarrow> 's \<Rightarrow> 's option) \<Rightarrow> 'a list \<Rightarrow> 's \<Rightarrow> 's option" where
  "each f [] s = Some s"
| "each f (x # xs) s = do { s1 \<leftarrow> f x s; each f xs s1 }"

fun JoinDayPath :: "bagplan \<Rightarrow> spath \<Rightarrow> spath list list \<Rightarrow> spath list \<Rightarrow> jstate \<Rightarrow> jstate option" where
  "JoinDayPath bg rich [] tmpList st = join_leaf bg rich tmpList st"
| "JoinDayPath bg rich (sPathList # days) tmpList st =
     each (\<lambda>sPath s. JoinDayPath bg rich days (tmpList @ [sPath]) s) sPathList st"

fun day_loop :: "(nat \<Rightarrow> nat \<Rightarrow> bool) \<Rightarrow> int \<Rightarrow> bagplan \<Rightarrow> spath \<Rightarrow> (nat \<Rightarrow> dfs) \<Rightarrow> nat list \<Rightarrow> spalloc \<Rightarrow> (spath list list \<times> spalloc) option" where
  "day_loop clock limit bg rich raw [] al = Some ([], al)"
| "day_loop clock limit bg rich raw (blockIdx # rest) al = do {
     (r, sPathList, d, al1) \<leftarrow> DoSearch (clock blockIdx) limit bg rich (int blockIdx) ((raw blockIdx)\<lparr>df_heap := SPathHeap_new\<rparr>) al;
     (days, al2) \<leftarrow> day_loop clock limit bg rich raw rest al1;
     Some (sPathList # days, al2) }"

definition del_all :: "spath list \<Rightarrow> spalloc \<Rightarrow> spalloc" where
  "del_all ps al = fold (\<lambda>p a. snd (SPathAlloc_Delete (Some p) a)) ps al"

text \<open>Result and whether the worker knows its pool afterwards, then the pool.\<close>

definition DFSWorker_doWork ::
  "bool \<Rightarrow> (nat \<Rightarrow> nat \<Rightarrow> bool) \<Rightarrow> int \<Rightarrow> int \<Rightarrow> bagplan \<Rightarrow> spath \<Rightarrow> (nat \<Rightarrow> dfs) \<Rightarrow> mempool \<Rightarrow> (int \<times> bool \<times> mempool) option" where
  "DFSWorker_doWork late clock limit spsLimit bg rich raw mp =
     (if late then Some (1, False, mp)
      else do {
        let (heap, mp1) = GetDFSHeap spsLimit (sp_hashPointSet rich) mp;
        h \<leftarrow> heap;
        (days, al) \<leftarrow> day_loop clock limit bg rich raw [0..<nat (GetBlockNum (bg_base bg))] (mp_alloc mp1);
        (h1, al1) \<leftarrow> JoinDayPath bg rich days [] (h, al);
        Some (0, True, mp1\<lparr>mp_alloc := del_all (concat days) al1,
          mp_dfsHeapMap := AList.update (sp_hashPointSet rich) h1 (mp_dfsHeapMap mp1)\<rparr>) })"

definition SortWorker_doWork :: "(spath list \<Rightarrow> spath list) \<Rightarrow> spath list \<Rightarrow> int \<times> spath list" where
  "SortWorker_doWork srt sList = (0, rev (srt sList))"

definition DelWorker_doWork :: "mempool \<Rightarrow> int \<times> mempool" where
  "DelWorker_doWork mp = (0, mp\<lparr>mp_alloc := del_all (mp_sList mp) (mp_alloc mp)\<rparr>)"

section \<open>DFSearch\<close>

definition SPathDFSCmp :: "spath \<Rightarrow> spath \<Rightarrow> bool" where
  "SPathDFSCmp a b =
     (if sp_hot a \<noteq> sp_hot b then sp_hot a > sp_hot b
      else if sp_hash a \<noteq> sp_hash b then sp_hash a < sp_hash b
      else sp_score a > sp_score b)"

definition push_all :: "spath list \<Rightarrow> spheap \<Rightarrow> spheap option" where
  "push_all ps h = each (\<lambda>p h. map_option snd (SPathHeap_Push p False h)) ps h"

text \<open>The heaps of one pool into the common ones.\<close>

definition merge_one :: "int \<Rightarrow> u32 \<times> spheap \<Rightarrow> (u32 \<times> spheap) list \<Rightarrow> (u32 \<times> spheap) list option" where
  "merge_one spsLimit = (\<lambda>(hash, tHeap) m. do {
     let m1 = (if map_of m hash = None then (hash, SPathHeap_Init spsLimit SPathHeap_new) # m else m);
     dfsHeap \<leftarrow> map_of m1 hash;
     h \<leftarrow> push_all (SPathHeap_CopyVal tHeap) dfsHeap;
     Some (AList.update hash h m1) })"

definition merge_heaps :: "int \<Rightarrow> mempool list \<Rightarrow> (u32 \<times> spheap) list option" where
  "merge_heaps spsLimit pools = each (merge_one spsLimit) (concat (map mp_dfsHeapMap pools)) []"

text \<open>The pools are named by numbers; \<open>jobs\<close> gives each worker's pool. The copies are new objects at the addresses
  from \<open>fresh\<close> on.\<close>

definition pools_used :: "nat option list \<Rightarrow> nat list" where
  "pools_used jobs = remdups (List.map_filter id jobs)"

definition copy_new :: "(nat \<Rightarrow> spath) \<Rightarrow> nat \<Rightarrow> spath list \<Rightarrow> spath list option" where
  "copy_new mem fresh ps =
     those (map (\<lambda>(i, p). SPath_Copy p (SPath_new ((mem (fresh + i))\<lparr>sp_addr := fresh + i\<rparr>))) (enumerate 0 ps))"

definition MergeDFS ::
  "(nat list \<Rightarrow> nat list) \<Rightarrow> ((u32 \<times> spheap) list \<Rightarrow> (u32 \<times> spheap) list) \<Rightarrow> int \<Rightarrow> (nat \<Rightarrow> spath) \<Rightarrow> nat \<Rightarrow> nat option list
     \<Rightarrow> (nat \<Rightarrow> mempool) \<Rightarrow> spath list \<Rightarrow> (spath list \<times> (nat \<Rightarrow> mempool)) option" where
  "MergeDFS iter iterm spsLimit mem fresh jobs pools dfsList = do {
     let used = iter (pools_used jobs);
     m \<leftarrow> merge_heaps spsLimit (map pools used);
     out \<leftarrow> copy_new mem fresh (dfsList @ concat (map (SPathHeap_CopyVal \<circ> snd) (iterm m)));
     Some (out, \<lambda>i. if i \<in> set used then MemPool_Clear (pools i) else pools i) }"

definition cut_list :: "int \<Rightarrow> spath list \<Rightarrow> spath list" where
  "cut_list limit ps = (if limit < 0 \<or> int (length ps) \<le> limit then ps else take (nat limit) ps)"

text \<open>\<open>DoSearch\<close> after the workers are done.\<close>

definition DFSearch_finish ::
  "(nat list \<Rightarrow> nat list) \<Rightarrow> ((u32 \<times> spheap) list \<Rightarrow> (u32 \<times> spheap) list) \<Rightarrow> (spath list \<Rightarrow> spath list) \<Rightarrow> int \<Rightarrow> int
     \<Rightarrow> (nat \<Rightarrow> spath) \<Rightarrow> nat \<Rightarrow> nat option list \<Rightarrow> (nat \<Rightarrow> mempool) \<Rightarrow> spath list \<Rightarrow> (spath list \<times> (nat \<Rightarrow> mempool)) option" where
  "DFSearch_finish iter iterm srt spsLimit dfsHeapLimit mem fresh jobs pools dfsList = do {
     (out, pools') \<leftarrow> MergeDFS iter iterm spsLimit mem fresh jobs pools dfsList;
     Some (cut_list dfsHeapLimit (srt out), pools') }"

text \<open>Specification. A candidate of one day, the joined hash, and what a joined candidate is.\<close>

definition day_cand :: "bagplan \<Rightarrow> spath \<Rightarrow> bool" where
  "day_cand bg p \<longleftrightarrow> spath_ok p \<and> sp_nodeNum p = bg_nodeNum bg \<and> sp_blockNum p = int (length (bp_BlockList (bg_base bg))) \<and>
     sp_score p \<in> \<int> \<and> 0 \<le> sp_clash p"

definition day_ops :: "spath \<Rightarrow> pushop list" where
  "day_ops p = map (\<lambda>v. node_op (sp_bPos p ! unat v) v) (sp_used p)"

definition join_visits :: "spath list \<Rightarrow> u8 list" where
  "join_visits ds = concat (map sp_used ds)"

definition join_hash :: "bagplan \<Rightarrow> spath list \<Rightarrow> u32" where
  "join_hash bg ds =
     Hash_vec (concat (map (\<lambda>b. map (ucast \<circ> pu_vPos) (filter (\<lambda>x. unat (pu_bPos x) = b) (concat (map day_ops ds))) @ [0])
       [0..<length (bp_BlockList (bg_base bg))]))"

definition joined_of :: "bagplan \<Rightarrow> spath \<Rightarrow> spath list \<Rightarrow> spath \<Rightarrow> bool" where
  "joined_of bg rich ds p \<longleftrightarrow> sp_missLevel p = sp_missLevel rich \<and> sp_hot p = sp_hot rich \<and>
     sp_clash p = sum_list (map sp_clash ds) \<and> sp_dist p = sum_list (map sp_dist ds) \<and> sp_firstL p = sum_list (map sp_firstL ds) \<and>
     sp_score p = sum_list (map sp_score ds) \<and> sp_hash p = join_hash bg ds \<and> sp_hashFrom p = sp_hash rich \<and>
     sp_used p = join_visits ds \<and> (\<forall>d \<in> set ds. \<forall>v \<in> set (sp_used d). sp_bPos p ! unat v = sp_bPos d ! unat v)"

definition combo_ok :: "bagplan \<Rightarrow> spath list \<Rightarrow> bool" where
  "combo_ok bg ds \<longleftrightarrow> (\<forall>d \<in> set ds. day_cand bg d) \<and> distinct (join_visits ds)"

definition join_holds :: "nat \<Rightarrow> bagplan \<Rightarrow> spath \<Rightarrow> spath multiset \<Rightarrow> spath list list \<Rightarrow> jstate \<Rightarrow> bool" where
  "join_holds K bg rich all cs st \<longleftrightarrow> alloc_mem (snd st) \<and> (\<forall>p \<in> set (sh_queue (fst st)). arrays_ok p) \<and>
     (\<exists>ps. list_all2 (joined_of bg rich) cs ps \<and> heap_inv K (mset ps + all) (fst st))"

text \<open>The heaps of the threads with what each has seen: the key, the heap, the candidates.\<close>

type_synonym entry = "u32 \<times> spheap \<times> spath multiset"

definition entry_heaps :: "entry list \<Rightarrow> (u32 \<times> spheap) list" where
  "entry_heaps es = map (\<lambda>(x, h, A). (x, h)) es"

definition kept :: "u32 \<Rightarrow> entry list \<Rightarrow> spath list" where
  "kept x es = concat (map (\<lambda>(y, h, A). if y = x then sh_queue h else []) es)"

definition seen :: "u32 \<Rightarrow> entry list \<Rightarrow> spath multiset" where
  "seen x es = sum_list (map (\<lambda>(y, h, A). if y = x then A else {#}) es)"

definition entries_ok :: "nat \<Rightarrow> entry list \<Rightarrow> bool" where
  "entries_ok K es \<longleftrightarrow> (\<forall>(x, h, A) \<in> set es. heap_inv K A h \<and> (\<forall>p \<in> set (sh_queue h). spath_ok p)) \<and>
     (\<forall>x. distinct (map sp_hash (kept x es)))"

definition merged :: "nat \<Rightarrow> entry list \<Rightarrow> (u32 \<times> spheap) list \<Rightarrow> bool" where
  "merged K es m \<longleftrightarrow> distinct (map fst m) \<and> fst ` set m = fst ` set es \<and> (\<forall>(x, h) \<in> set m. heap_inv K (mset (kept x es)) h)"

definition same_cand :: "spath \<Rightarrow> spath \<Rightarrow> bool" where
  "same_cand p q \<longleftrightarrow> cmp_tuple q = cmp_tuple p \<and> sp_hot q = sp_hot p \<and> sp_used q = sp_used p \<and>
     (\<forall>v \<in> set (sp_used p). sp_bPos q ! unat v = sp_bPos p ! unat v)"

text \<open>All days of a rich path: what each day's search starts from (\<open>ds\<close>), the best orders of a day, the hash and the candidate
  of one order per day.\<close>

definition blocks_of :: "bagplan \<Rightarrow> nat" where
  "blocks_of bg = length (bp_BlockList (bg_base bg))"

definition days_ok :: "nat \<Rightarrow> bagplan \<Rightarrow> spath \<Rightarrow> (nat \<Rightarrow> dfs) \<Rightarrow> (nat \<Rightarrow> dfs) \<Rightarrow> bool" where
  "days_ok L bg rich raw ds \<longleftrightarrow> 0 < L \<and> blocks_of bg \<le> kBlockLimit \<and> spath_ok rich \<and> distinct (sp_used rich) \<and>
     sp_nodeNum rich = bg_nodeNum bg \<and> (\<forall>i < blocks_of bg. length (df_path (raw i)) = m_dayNodeLimit \<and>
       DFS_Init (int L) bg rich (int i) ((raw i)\<lparr>df_heap := SPathHeap_new\<rparr>) = Some (0, ds i) \<and>
       (\<forall>a b t. GetPosTraf bg (df_bPos (ds i)) a b = Some t \<longrightarrow> 0 \<le> tr_dist t) \<and>
       (\<forall>j < df_nodeNum (ds i). \<not> has_flag (df_vType (ds i) ! j) NODE_FUNC_PLACE_RESTAURANT \<longrightarrow> None \<notin> set (df_openCloseList (ds i) ! j)) \<and>
       inj_on (hash_of bg (ds i)) (day_orders bg (ds i)))"

definition day_best :: "nat \<Rightarrow> bagplan \<Rightarrow> dfs \<Rightarrow> nat list list \<Rightarrow> bool" where
  "day_best L bg d ks \<longleftrightarrow> distinct ks \<and> set ks \<subseteq> day_orders bg d \<and> length ks = min L (card (day_orders bg d)) \<and>
     (\<forall>x \<in> set ks. \<forall>y \<in> day_orders bg d - set ks. order_key bg d x \<le> order_key bg d y)"

definition plan_orders :: "bagplan \<Rightarrow> (nat \<Rightarrow> dfs) \<Rightarrow> nat list list set" where
  "plan_orders bg ds = {nss. length nss = blocks_of bg \<and> (\<forall>i < blocks_of bg. nss ! i \<in> day_orders bg (ds i))}"

definition plan_sum :: "bagplan \<Rightarrow> (nat \<Rightarrow> nat list \<Rightarrow> int) \<Rightarrow> nat list list \<Rightarrow> int" where
  "plan_sum bg f nss = (\<Sum>i \<leftarrow> [0..<blocks_of bg]. f i (nss ! i))"

definition plan_visits :: "bagplan \<Rightarrow> (nat \<Rightarrow> dfs) \<Rightarrow> nat list list \<Rightarrow> u8 list" where
  "plan_visits bg ds nss = concat (map (\<lambda>i. visits_of (ds i) (nss ! i)) [0..<blocks_of bg])"

definition plan_hash :: "bagplan \<Rightarrow> (nat \<Rightarrow> dfs) \<Rightarrow> nat list list \<Rightarrow> u32" where
  "plan_hash bg ds nss = Hash_vec (concat (map (\<lambda>i. map ucast (visits_of (ds i) (nss ! i)) @ [0]) [0..<blocks_of bg]))"

definition plan_of :: "bagplan \<Rightarrow> spath \<Rightarrow> (nat \<Rightarrow> dfs) \<Rightarrow> nat list list \<Rightarrow> spath \<Rightarrow> bool" where
  "plan_of bg rich ds nss p \<longleftrightarrow> sp_missLevel p = sp_missLevel rich \<and> sp_hot p = sp_hot rich \<and>
     sp_clash p = plan_sum bg (\<lambda>i. clash_of bg (ds i)) nss \<and> sp_dist p = plan_sum bg (\<lambda>i. leg_sum tr_dist (ds i)) nss \<and>
     sp_score p = of_int (plan_sum bg (\<lambda>i ns. order_score (ds i) (firstL_of bg (ds i) ns) ns) nss) \<and>
     sp_hash p = plan_hash bg ds nss \<and> sp_used p = plan_visits bg ds nss \<and>
     (\<forall>i < blocks_of bg. \<forall>v \<in> set (visits_of (ds i) (nss ! i)). unat (sp_bPos p ! unat v) = i)"

definition old_heap :: "nat \<Rightarrow> u32 \<Rightarrow> mempool \<Rightarrow> spheap" where
  "old_heap K x mp = (case map_of (mp_dfsHeapMap mp) x of None \<Rightarrow> SPathHeap_Init (int K) SPathHeap_new | Some h \<Rightarrow> h)"

definition dfs_tuple :: "spath \<Rightarrow> int \<times> u32 \<times> rat" where
  "dfs_tuple p = (- sp_hot p, sp_hash p, - sp_score p)"

definition demo_cand :: spath where
  "demo_cand = demo_spath\<lparr>sp_nodeNum := 3, sp_blockNum := 1, sp_len := 2, sp_vPos := 2 # 1 # replicate (kPathLimit - 2) 0, sp_score := -7\<rparr>"

definition demo_pool :: "spheap \<Rightarrow> mempool" where
  "demo_pool h = (ThreadMemPool_new (\<lambda>i. demo_spath) 0 2 1 1)\<lparr>mp_dfsHeapMap := [(7, h)]\<rparr>"

section \<open>Lemmas\<close>

lemma cand_lookups:
  assumes "spath_ok p" "j < nat (sp_len p)"
  shows "GetVPos (int j) p = Some (pos_at p j)" "GetBPos (pos_at p j) p = Some (blk_at p j)"
proof -
  note A = assms(1) [unfolded spath_ok_def]
  have j: "int j < sp_len p" "j < kPathLimit" using assms(2) A by auto
  then have "pos_at p j \<in> set (sp_used p)"
    using A by (auto simp: sp_used_def pos_at_def in_set_conv_nth intro!: exI [of _ j])
  then have v: "uint (pos_at p j) < sp_nodeNum p" using A by auto
  show "GetVPos (int j) p = Some (pos_at p j)" using j A by (simp add: GetVPos_def pos_at_def)
  have "unat (pos_at p j) < kPathLimit" using v A by (metis order_less_le_trans uint_less)
  then show "GetBPos (pos_at p j) p = Some (blk_at p j)" using v A by (simp add: GetBPos_def blk_at_def arr_get_def)
qed

lemma join_nodes_run:
  assumes "spath_ok p" "\<forall>j \<in> set js. j < nat (sp_len p)"
    and "push_run (map (\<lambda>j. node_op (blk_at p j) (pos_at p j)) js) q = Some (0, q')"
  shows "join_nodes p js q = Some q'"
  using assms(2,3)
proof (induction js arbitrary: q)
  case (Cons j js)
  obtain r1 p1 where p1: "PushV (blk_at p j) (pos_at p j) 0 0 0 NODE_FUNC_NULL q = Some (r1, p1)"
    using Cons.prems(2) by (cases "PushV (blk_at p j) (pos_at p j) 0 0 0 NODE_FUNC_NULL q") (auto simp: node_op_def)
  have "j < nat (sp_len p)" using Cons.prems(1) by simp
  note L = cand_lookups [OF assms(1) this]
  show ?case using Cons p1 L by (auto simp: node_op_def split: if_splits)
qed simp

lemma day_ops_at: "spath_ok p \<Longrightarrow> day_ops p = map (\<lambda>j. node_op (blk_at p j) (pos_at p j)) [0..<nat (sp_len p)]"
  by (rule nth_equalityI) (auto simp: day_ops_def sp_used_def blk_at_def pos_at_def spath_ok_def)

lemma push_run_append:
  "push_run (xs @ ys) p = (case push_run xs p of None \<Rightarrow> None | Some (r, p1) \<Rightarrow> if r \<noteq> 0 then Some (r, p1) else push_run ys p1)"
proof (induction xs arbitrary: p)
  case (Cons x xs)
  then show ?case
    by (cases "PushV (pu_bPos x) (pu_vPos x) (pu_hot x) (pu_dur x) (pu_bid x) (pu_vType x) p") auto
qed simp

lemma join_days_run:
  "\<forall>d \<in> set ds. spath_ok d \<Longrightarrow> push_run (concat (map day_ops ds)) q = Some (0, q') \<Longrightarrow> join_days ds q = Some q'"
proof (induction ds arbitrary: q)
  case (Cons d ds)
  have ok: "spath_ok d" using Cons.prems(1) by simp
  obtain q1 where q1: "push_run (day_ops d) q = Some (0, q1)" "push_run (concat (map day_ops ds)) q1 = Some (0, q')"
    using Cons.prems(2) by (auto simp: push_run_append split: option.splits if_splits)
  have "join_nodes d [0..<nat (sp_len d)] q = Some q1"
    using join_nodes_run [OF ok, of "[0..<nat (sp_len d)]"] q1(1) by (simp add: day_ops_at [OF ok])
  then show ?case using Cons q1(2) by simp
qed simp

lemma concat_day_ops: "map pu_vPos (concat (map day_ops ds)) = join_visits ds"
  by (simp add: map_concat join_visits_def day_ops_def comp_def node_op_def)

lemma ops_fit:
  assumes "combo_ok bg ds" "x \<in> set (concat (map day_ops ds))"
  shows "push_fits bg x"
proof -
  obtain d where d: "d \<in> set ds" "x \<in> set (day_ops d)" using assms(2) by auto
  then obtain v where v: "v \<in> set (sp_used d)" "x = node_op (sp_bPos d ! unat v) v" by (auto simp: day_ops_def)
  have "day_cand bg d" using assms(1) d(1) by (auto simp: combo_ok_def)
  then have "uint v < bg_nodeNum bg \<and> uint (sp_bPos d ! unat v) < int (length (bp_BlockList (bg_base bg)))"
    using v(1) by (auto simp: day_cand_def spath_ok_def)
  then show ?thesis by (simp add: v(2) push_fits_def node_op_def uint_less)
qed

lemma Hash_keep:
  "sp_missLevel (CalHashPointOrder p) = sp_missLevel p" "sp_hot (CalHashPointOrder p) = sp_hot p"
  "sp_clash (CalHashPointOrder p) = sp_clash p" "sp_dist (CalHashPointOrder p) = sp_dist p" "sp_firstL (CalHashPointOrder p) = sp_firstL p"
  "sp_score (CalHashPointOrder p) = sp_score p" "sp_hashFrom (CalHashPointOrder p) = sp_hashFrom p"
  "sp_used (CalHashPointOrder p) = sp_used p" "sp_bPos (CalHashPointOrder p) = sp_bPos p" "arrays_ok (CalHashPointOrder p) = arrays_ok p"
  "sp_missLevel (CalHashPointSet bg p) = sp_missLevel p" "sp_hot (CalHashPointSet bg p) = sp_hot p"
  "sp_clash (CalHashPointSet bg p) = sp_clash p" "sp_dist (CalHashPointSet bg p) = sp_dist p" "sp_firstL (CalHashPointSet bg p) = sp_firstL p"
  "sp_score (CalHashPointSet bg p) = sp_score p" "sp_hashFrom (CalHashPointSet bg p) = sp_hashFrom p" "sp_hash (CalHashPointSet bg p) = sp_hash p"
  "sp_used (CalHashPointSet bg p) = sp_used p" "sp_bPos (CalHashPointSet bg p) = sp_bPos p" "arrays_ok (CalHashPointSet bg p) = arrays_ok p"
  by (simp_all add: CalHashPointOrder_def CalHashPointSet_def sp_used_def arrays_ok_def)

lemma pushed_join_hash:
  assumes "push_inv bg xs q" "sp_hash q = 0"
  shows "sp_hash (CalHashPointOrder q) = Hash_vec (concat (map (\<lambda>b. map (ucast \<circ> pu_vPos) (filter (\<lambda>x. unat (pu_bPos x) = b) xs) @ [0])
    [0..<length (bp_BlockList (bg_base bg))]))"
proof -
  have I: "sp_used q = map pu_vPos xs" "\<forall>x \<in> set xs. sp_bPos q ! unat (pu_vPos x) = pu_bPos x"
    "sp_blockNum q = int (length (bp_BlockList (bg_base bg)))" using assms(1) by (auto simp: push_inv_def)
  have "day_list q b = map pu_vPos (filter (\<lambda>x. unat (pu_bPos x) = b) xs)" for b
    unfolding day_list_def I(1) using I(2) by (simp add: filter_map comp_def cong: filter_cong)
  then show ?thesis using assms(2) I(3) by (simp add: CalHashPointOrder_def)
qed

lemma join_path_ok:
  assumes ok: "combo_ok bg ds" and obj: "arrays_ok obj" and n: "length (bp_BlockList (bg_base bg)) \<le> kBlockLimit"
    "0 \<le> bg_nodeNum bg" "bg_nodeNum bg \<le> int kPathLimit"
  shows "\<exists>p. join_path bg rich ds obj = Some p \<and> joined_of bg rich ds p \<and> arrays_ok p"
proof -
  define xs where "xs = concat (map day_ops ds)"
  have vs: "map pu_vPos xs = join_visits ds" by (simp add: xs_def concat_day_ops)
  obtain q where q: "SPath_Init bg obj = Some q" "push_inv bg [] q" by (rule SPath_Init_ok [OF obj n])
  have q0: "sp_hash q = 0" using q(1) by (auto simp: SPath_Init_def Let_def split: if_splits)
  have fits: "\<forall>x \<in> set xs. push_fits bg x" using ops_fit [OF ok] by (simp add: xs_def)
  have di: "distinct (map pu_vPos xs)" using ok vs by (simp add: combo_ok_def)
  obtain N where N: "bg_nodeNum bg = int N" using n(2) nonneg_int_cases by blast
  have "length (map pu_vPos xs) \<le> N"
    by (rule distinct_bytes [OF di]) (use fits N in \<open>auto simp: push_fits_def uint_less\<close>)
  then obtain p where p: "push_run xs q = Some (0, p)" "push_inv bg xs p"
    using push_run_ok [OF q(2) fits] di N by auto
  have "\<forall>d \<in> set ds. spath_ok d" using ok by (auto simp: combo_ok_def day_cand_def)
  then have jd: "join_days ds q = Some p" using join_days_run p(1) by (simp add: xs_def)
  define p2 where "p2 = SetHashFrom (sp_hash rich) (SetMissLevel (sp_missLevel rich)
    (SetScore (sum_list (map sp_score ds)) (SetFirstL (sum_list (map sp_firstL ds))
       (SetClash (sum_list (map sp_clash ds)) (SetDist (sum_list (map sp_dist ds)) (SetHot (sp_hot rich) p))))))"
  have f: "sp_hash p2 = sp_hash p" "sp_used p2 = sp_used p" "sp_bPos p2 = sp_bPos p" "arrays_ok p2 = arrays_ok p"
    "sp_blockNum p2 = sp_blockNum p" "sp_missLevel p2 = sp_missLevel rich" "sp_hot p2 = sp_hot rich" "sp_hashFrom p2 = sp_hash rich"
    "sp_clash p2 = sum_list (map sp_clash ds)" "sp_dist p2 = sum_list (map sp_dist ds)" "sp_firstL p2 = sum_list (map sp_firstL ds)"
    "sp_score p2 = sum_list (map sp_score ds)"
    by (simp_all add: p2_def SetHashFrom_def SetMissLevel_def SetScore_def SetFirstL_def SetClash_def SetDist_def SetHot_def sp_used_def arrays_ok_def)
  have "join_path bg rich ds obj = Some (CalHashPointSet bg (CalHashPointOrder p2))"
    by (simp add: join_path_def q(1) jd p2_def Let_def)
  moreover have "sp_hash (CalHashPointOrder p2) = sp_hash (CalHashPointOrder p)"
    by (simp add: CalHashPointOrder_def f day_list_def)
  then have "sp_hash (CalHashPointOrder p2) = join_hash bg ds"
    using pushed_join_hash [OF p(2)] push_run_same [OF p(1)] q0 by (simp add: join_hash_def xs_def)
  moreover have "sp_used p = join_visits ds" "arrays_ok p" using p(2) vs by (auto simp: push_inv_def spath_ok_def arrays_ok_def)
  moreover have "sp_bPos p ! unat v = sp_bPos d ! unat v" if "d \<in> set ds" "v \<in> set (sp_used d)" for d v
  proof -
    have "node_op (sp_bPos d ! unat v) v \<in> set xs" using that by (auto simp: xs_def day_ops_def)
    then show ?thesis using p(2) by (auto simp: push_inv_def node_op_def)
  qed
  ultimately show ?thesis by (simp add: joined_of_def Hash_keep f)
qed

subsection \<open>The heap during the join\<close>

lemma joined_whole: "combo_ok bg ds \<Longrightarrow> joined_of bg rich ds p \<Longrightarrow> p \<in> whole"
proof -
  assume a: "combo_ok bg ds" "joined_of bg rich ds p"
  have "\<forall>d \<in> set ds. sp_score d \<in> \<int>" using a(1) by (auto simp: combo_ok_def day_cand_def)
  then have "sum_list (map sp_score ds) \<in> \<int>" by (induction ds) auto
  then show ?thesis using a(2) by (simp add: joined_of_def whole_def)
qed

lemma joined_clash: "combo_ok bg ds \<Longrightarrow> joined_of bg rich ds p \<Longrightarrow> 0 \<le> sp_clash p"
  by (auto simp: combo_ok_def day_cand_def joined_of_def intro!: sum_list_nonneg)

lemma joined_exists: "combo_ok bg ds \<Longrightarrow> length (bp_BlockList (bg_base bg)) \<le> kBlockLimit \<Longrightarrow> 0 \<le> bg_nodeNum bg \<Longrightarrow>
    bg_nodeNum bg \<le> int kPathLimit \<Longrightarrow> \<exists>p. joined_of bg rich ds p"
  using join_path_ok [OF _ demo_spath_arrays] by blast

lemma CanPush_refused_miss:
  assumes "heap_inv K all h" "0 < K" "CanPush s 0 0 h = Some False" "\<forall>t \<in> set (sh_queue h). sp_missLevel t = M" "0 \<le> M"
    "p \<in> whole" "sp_missLevel p = M" "0 \<le> sp_clash p" "sp_score p \<le> s"
  shows "K \<le> length (sh_queue h) \<and> \<not> SPathCmp p (hd (sh_queue h))"
proof -
  have full: "K \<le> length (sh_queue h)" using assms(1,3) by (auto simp: CanPush_def heap_inv_def split: if_splits)
  then have ne: "sh_queue h \<noteq> []" using assms(2) by auto
  have top: "sh_topK h = int K" using assms(1) by (simp add: heap_inv_def)
  have "sp_missLevel (hd (sh_queue h)) = M" using ne assms(4) by simp
  then have "M = 0" using assms(3,5) full top by (auto simp: CanPush_def pq_top_hd [OF ne] split: if_splits)
  then show ?thesis using CanPush_refused [OF assms(1-3) _ assms(6) _ assms(8,9)] assms(4,7) by simp
qed

lemma join_holdsD:
  assumes "join_holds K bg rich all cs (h, al)" "\<forall>p \<in># all. sp_missLevel p = sp_missLevel rich"
  obtains ps where "list_all2 (joined_of bg rich) cs ps" "heap_inv K (mset ps + all) h" "alloc_mem al"
    "\<And>p. p \<in> set (sh_queue h) \<Longrightarrow> arrays_ok p \<and> sp_missLevel p = sp_missLevel rich"
proof -
  obtain ps where ps: "list_all2 (joined_of bg rich) cs ps" "heap_inv K (mset ps + all) h" using assms(1) by (auto simp: join_holds_def)
  obtain rest where "mset (sh_queue h) + rest = mset ps + all" using ps(2) by (auto simp: heap_inv_def best_of_def)
  then have "set (sh_queue h) \<subseteq> set ps \<union> set_mset all" by (metis set_mset_mset set_mset_union Un_upper1)
  moreover have "sp_missLevel p = sp_missLevel rich" if "p \<in> set ps" for p
    using that ps(1) by (auto simp: list_all2_conv_all_nth in_set_conv_nth joined_of_def)
  ultimately show thesis using that [OF ps] assms by (auto simp: join_holds_def)
qed

lemma join_holds_snoc:
  assumes "list_all2 (joined_of bg rich) cs ps" "joined_of bg rich ds p" "heap_inv K (add_mset p (mset ps + all)) h"
    "alloc_mem al" "\<forall>q \<in> set (sh_queue h). arrays_ok q"
  shows "join_holds K bg rich all (cs @ [ds]) (h, al)"
proof -
  have "list_all2 (joined_of bg rich) (cs @ [ds]) (ps @ [p])" using assms(1,2) by (simp add: list_all2_appendI)
  moreover have "mset (ps @ [p]) + all = add_mset p (mset ps + all)" by simp
  ultimately show ?thesis unfolding join_holds_def using assms(3-5) by (metis fst_conv snd_conv)
qed

lemma join_leaf_adds:
  assumes K: "0 < K" and ok: "combo_ok bg ds" and n: "length (bp_BlockList (bg_base bg)) \<le> kBlockLimit"
    "0 \<le> bg_nodeNum bg" "bg_nodeNum bg \<le> int kPathLimit"
    and M: "0 \<le> sp_missLevel rich" "\<forall>p \<in># all. sp_missLevel p = sp_missLevel rich"
    and hd: "distinct (map (join_hash bg) (cs @ [ds]))" "join_hash bg ds \<notin> sp_hash ` set_mset all"
    and st: "join_holds K bg rich all cs (h, al)"
  shows "\<exists>h' al'. join_leaf bg rich ds (h, al) = Some (h', al') \<and> join_holds K bg rich all (cs @ [ds]) (h', al')"
proof -
  obtain ps where ps: "list_all2 (joined_of bg rich) cs ps" "heap_inv K (mset ps + all) h" "alloc_mem al"
    "\<And>p. p \<in> set (sh_queue h) \<Longrightarrow> arrays_ok p \<and> sp_missLevel p = sp_missLevel rich" using join_holdsD [OF st M(2)] by metis
  obtain can where can: "CanPush (sum_list (map sp_score ds)) 0 0 h = Some can" using CanPush_total [OF ps(2) K] by blast
  show ?thesis
  proof (cases can)
    case False
    obtain p where p: "joined_of bg rich ds p" using joined_exists [OF ok n] by blast
    have "K \<le> length (sh_queue h) \<and> \<not> SPathCmp p (hd (sh_queue h))"
      by (rule CanPush_refused_miss [OF ps(2) K, where s = "sum_list (map sp_score ds)" and M = "sp_missLevel rich"])
        (use can False ps(4) M(1) joined_whole [OF ok p] joined_clash [OF ok p] p in \<open>auto simp: joined_of_def\<close>)
    then have "heap_inv K (add_mset p (mset ps + all)) h" using Skip_heap_inv [OF ps(2) K joined_whole [OF ok p]] by simp
    then show ?thesis using join_holds_snoc [OF ps(1) p _ ps(3)] ps(4) can False by (auto simp: join_leaf_def)
  next
    case True
    obtain obj al1 where al1: "SPathAlloc_New al = (Some obj, al1)" "arrays_ok obj" "alloc_mem al1"
      by (rule alloc_New [of al]) (use ps(3) in auto)
    obtain p where p: "join_path bg rich ds obj = Some p" "joined_of bg rich ds p" "arrays_ok p"
      using join_path_ok [OF ok al1(2) n] by blast
    have "sp_hash p \<notin> sp_hash ` set ps"
    proof
      assume "sp_hash p \<in> sp_hash ` set ps"
      then obtain i where "i < length ps" "sp_hash p = sp_hash (ps ! i)" by (auto simp: in_set_conv_nth)
      then have "join_hash bg ds = join_hash bg (cs ! i)" "i < length cs"
        using ps(1) p(2) by (auto simp: list_all2_conv_all_nth joined_of_def)
      then show False using hd(1) by auto
    qed
    then have "sp_hash p \<notin> sp_hash ` set_mset (mset ps + all)" using hd(2) p(2) by (auto simp: joined_of_def)
    then obtain dp h' where h': "SPathHeap_Push p False h = Some (dp, h')" "heap_inv K (add_mset p (mset ps + all)) h'"
      using Push_heap_inv [OF ps(2) K joined_whole [OF ok p(2)]] by auto
    define al2 where "al2 = (if dp \<noteq> None then snd (SPathAlloc_Delete dp al1) else al1)"
    have "alloc_mem al2"
      using al1(3) alloc_mem_Delete [OF al1(3)] Push_members(2) [OF h'(1)] p(3) ps(4) by (auto simp: al2_def)
    moreover have "\<forall>q \<in> set (sh_queue h'). arrays_ok q" using Push_members(1) [OF h'(1)] p(3) ps(4) by auto
    ultimately have "join_holds K bg rich all (cs @ [ds]) (h', al2)" using join_holds_snoc [OF ps(1) p(2) h'(2)] by simp
    moreover have "join_leaf bg rich ds (h, al) = Some (h', al2)"
      using can True al1(1) p(1) h'(1) by (simp add: join_leaf_def al2_def)
    ultimately show ?thesis by blast
  qed
qed

lemma JoinDayPath_adds:
  assumes K: "0 < K" and n: "length (bp_BlockList (bg_base bg)) \<le> kBlockLimit" "0 \<le> bg_nodeNum bg" "bg_nodeNum bg \<le> int kPathLimit"
    and M: "0 \<le> sp_missLevel rich" "\<forall>p \<in># all. sp_missLevel p = sp_missLevel rich"
  shows "\<forall>c \<in> set (product_lists days). combo_ok bg (tmp @ c) \<and> join_hash bg (tmp @ c) \<notin> sp_hash ` set_mset all \<Longrightarrow>
    distinct (map (join_hash bg) (cs @ map ((@) tmp) (product_lists days))) \<Longrightarrow> join_holds K bg rich all cs st \<Longrightarrow>
    \<exists>st'. JoinDayPath bg rich days tmp st = Some st' \<and> join_holds K bg rich all (cs @ map ((@) tmp) (product_lists days)) st'"
proof (induction days arbitrary: tmp cs st)
  case Nil
  obtain h al where st: "st = (h, al)" by (cases st)
  show ?case using join_leaf_adds [OF K _ n M, of tmp cs h al] Nil st by auto
next
  case (Cons ps days)
  note outer = Cons.IH and pre = Cons.prems(1)
  define ext where "ext q = map ((@) (tmp @ [q])) (product_lists days)" for q
  have "\<exists>st'. each (\<lambda>p s. JoinDayPath bg rich days (tmp @ [p]) s) qs s = Some st' \<and> join_holds K bg rich all (cs' @ concat (map ext qs)) st'"
    if "set qs \<subseteq> set ps" "distinct (map (join_hash bg) (cs' @ concat (map ext qs)))" "join_holds K bg rich all cs' s" for qs cs' s
    using that
  proof (induction qs arbitrary: cs' s)
    case (Cons q qs)
    have "\<forall>c \<in> set (product_lists days). combo_ok bg ((tmp @ [q]) @ c) \<and> join_hash bg ((tmp @ [q]) @ c) \<notin> sp_hash ` set_mset all"
      using Cons.prems(1) pre by auto
    moreover have "distinct (map (join_hash bg) (cs' @ ext q))" using Cons.prems(2) by auto
    ultimately obtain s1 where s1: "JoinDayPath bg rich days (tmp @ [q]) s = Some s1" "join_holds K bg rich all (cs' @ ext q) s1"
      using outer [of "tmp @ [q]" cs' s] Cons.prems(3) unfolding ext_def by blast
    show ?case using Cons.IH [of "cs' @ ext q" s1] Cons.prems(1,2) s1 by auto
  qed auto
  moreover have "concat (map ext ps) = map ((@) tmp) (product_lists (ps # days))"
  proof -
    have "(@) (tmp @ [q]) = (\<lambda>c. tmp @ q # c)" for q by auto
    then show ?thesis by (simp add: map_concat comp_def ext_def [abs_def])
  qed
  ultimately show ?case using Cons.prems by (metis JoinDayPath.simps(2) subset_refl)
qed

lemma JoinDayPath_best:
  assumes "0 < K" "length (bp_BlockList (bg_base bg)) \<le> kBlockLimit" "0 \<le> bg_nodeNum bg" "bg_nodeNum bg \<le> int kPathLimit"
    and "0 \<le> sp_missLevel rich" "\<forall>p \<in># all. sp_missLevel p = sp_missLevel rich"
    and "\<forall>c \<in> set (product_lists days). combo_ok bg c \<and> join_hash bg c \<notin> sp_hash ` set_mset all"
    and "distinct (map (join_hash bg) (product_lists days))"
    and "heap_inv K all h" "\<forall>p \<in> set (sh_queue h). arrays_ok p" "alloc_mem al"
  shows "\<exists>h' al' ps. JoinDayPath bg rich days [] (h, al) = Some (h', al') \<and>
    list_all2 (joined_of bg rich) (product_lists days) ps \<and> best_of SPathCmp K (mset (sh_queue h')) (mset ps + all)"
proof -
  have "join_holds K bg rich all [] (h, al)" using assms(9-11) by (simp add: join_holds_def)
  moreover have "map ((@) []) cs = cs" for cs :: "spath list list" by (simp add: map_idI)
  ultimately obtain st' where "JoinDayPath bg rich days [] (h, al) = Some st'" "join_holds K bg rich all (product_lists days) st'"
    using JoinDayPath_adds [OF assms(1-6), of days "[]" "[]" "(h, al)"] assms(7,8) by (simp del: map_map) blast
  then show ?thesis by (cases st') (auto simp: join_holds_def heap_inv_def)
qed

subsection \<open>All days of a rich path\<close>

lemma days_okD:
  assumes "days_ok L bg rich raw ds" "i < blocks_of bg"
  shows "day_ok bg (ds i)" "unat (df_bPos (ds i)) = i"
    "\<exists>vs. df_vPosList (ds i) = df_bPos (ds i) # vs @ [df_bPos (ds i) + 1] \<and> distinct vs \<and> length vs + 2 = df_nodeNum (ds i) \<and>
      (\<forall>v \<in> set vs. sp_bPos rich ! unat v = df_bPos (ds i))"
proof -
  note A = assms [unfolded days_ok_def blocks_of_def]
  have init: "DFS_Init (int L) bg rich (int i) ((raw i)\<lparr>df_heap := SPathHeap_new\<rparr>) = Some (0, ds i)" using A by blast
  obtain vs where vs: "df_vPosList (ds i) = df_bPos (ds i) # sort vs @ [df_bPos (ds i) + 1]"
    "vs = filter (\<lambda>v. sp_bPos rich ! unat v = df_bPos (ds i)) (sp_used rich)" "df_nodeNum (ds i) = length vs + 2"
    "df_bPos (ds i) = word_of_int (int i)" using DFS_Init_ok(1) [OF init] A by blast
  show "day_ok bg (ds i)" by (rule day_okI [OF init]) (use A in \<open>auto simp: GetBlockNum_def\<close>)
  have "i < 256" using A by (simp add: kBlockLimit_def)
  then show "unat (df_bPos (ds i)) = i" unfolding vs(4) of_int_of_nat_eq by (simp add: unsigned_of_nat take_bit_nat_eq_self)
  have "distinct (sp_used rich)" using A by blast
  then have d: "distinct vs" unfolding vs(2) by simp
  have mem: "\<forall>v \<in> set vs. sp_bPos rich ! unat v = df_bPos (ds i)" unfolding vs(2) by simp
  show "\<exists>vs. df_vPosList (ds i) = df_bPos (ds i) # vs @ [df_bPos (ds i) + 1] \<and> distinct vs \<and> length vs + 2 = df_nodeNum (ds i) \<and>
      (\<forall>v \<in> set vs. sp_bPos rich ! unat v = df_bPos (ds i))"
    by (rule exI [of _ "sort vs"]) (use d vs(1,3) mem in simp)
qed

lemma visits_plain:
  assumes "days_ok L bg rich raw ds" "i < blocks_of bg" "ns \<in> day_orders bg (ds i)"
  shows "distinct (visits_of (ds i) ns)" "v \<in> set (visits_of (ds i) ns) \<Longrightarrow> sp_bPos rich ! unat v = df_bPos (ds i)"
proof -
  obtain vs where vs: "df_vPosList (ds i) = df_bPos (ds i) # vs @ [df_bPos (ds i) + 1]" "distinct vs" "length vs + 2 = df_nodeNum (ds i)"
    "\<forall>v \<in> set vs. sp_bPos rich ! unat v = df_bPos (ds i)" using days_okD(3) [OF assms(1,2)] by blast
  obtain xs where xs: "ns = 0 # xs @ [df_nodeNum (ds i) - 1]" "distinct xs" "set xs = {1..<df_nodeNum (ds i) - 1}"
    using assms(3) by (auto simp: day_orders_def)
  have n: "df_vPosList (ds i) ! n = vs ! (n - 1) \<and> n - 1 < length vs" if "n \<in> set xs" for n
  proof -
    have b: "1 \<le> n" "n < Suc (length vs)" using that xs(3) vs(3) by auto
    then obtain m where "n = Suc m" by (metis Suc_le_D One_nat_def)
    then show ?thesis using b vs(1) by (simp add: nth_append)
  qed
  have v: "visits_of (ds i) ns = map (\<lambda>n. vs ! (n - 1)) xs" using n by (simp add: visits_of_def xs(1))
  have "inj_on (\<lambda>n. vs ! (n - 1)) (set xs)"
  proof (rule inj_onI)
    fix a b assume ab: "a \<in> set xs" "b \<in> set xs" "vs ! (a - 1) = vs ! (b - 1)"
    then have "a - 1 = b - 1" using n vs(2) by (auto simp: nth_eq_iff_index_eq)
    then show "a = b" using ab xs(3) by auto
  qed
  then show "distinct (visits_of (ds i) ns)" using xs(2) by (simp add: v distinct_map)
  show "sp_bPos rich ! unat v = df_bPos (ds i)" if "v \<in> set (visits_of (ds i) ns)" using that n vs(4) by (auto simp: v)
qed

lemma day_loop_best:
  assumes ok: "days_ok L bg rich raw ds" and c: "\<forall>i k. \<not> clock i k"
  shows "\<forall>i \<in> set is. i < blocks_of bg \<Longrightarrow> alloc_mem al \<Longrightarrow>
    \<exists>days kss al'. day_loop clock (int L) bg rich raw is al = Some (days, al') \<and> alloc_mem al' \<and>
      list_all2 (\<lambda>i. day_best L bg (ds i)) is kss \<and>
      list_all2 (list_all2 (\<lambda>(i, ns). path_of bg (ds i) ns)) (map2 (\<lambda>i. map (Pair i)) is kss) days"
proof (induction "is" arbitrary: al)
  case (Cons i "is")
  have i: "i < blocks_of bg" using Cons.prems(1) by simp
  note A = ok [unfolded days_ok_def]
  have b: "length (bp_BlockList (bg_base bg)) \<le> kBlockLimit" "int i < GetBlockNum (bg_base bg)" using A i by (auto simp: blocks_of_def GetBlockNum_def)
  have "\<exists>sPathList st ks. DoSearch (clock i) (int L) bg rich (int i) ((raw i)\<lparr>df_heap := SPathHeap_new\<rparr>) al = Some (0, sPathList, st) \<and>
    list_all2 (path_of bg (ds i)) ks sPathList \<and> distinct ks \<and> set ks \<subseteq> day_orders bg (ds i) \<and> length ks = min L (card (day_orders bg (ds i))) \<and>
    (\<forall>x \<in> set ks. \<forall>y \<in> day_orders bg (ds i) - set ks. order_key bg (ds i) x \<le> order_key bg (ds i) y) \<and> alloc_mem (snd st)"
    by (rule DoSearch_orders) (use A i c b Cons.prems(2) in auto)
  then obtain sps d al1 ks where s: "DoSearch (clock i) (int L) bg rich (int i) ((raw i)\<lparr>df_heap := SPathHeap_new\<rparr>) al = Some (0, sps, d, al1)"
    "list_all2 (path_of bg (ds i)) ks sps" "day_best L bg (ds i) ks" "alloc_mem al1" by (auto simp: day_best_def)
  obtain days kss al' where r: "day_loop clock (int L) bg rich raw is al1 = Some (days, al')" "alloc_mem al'"
    "list_all2 (\<lambda>i. day_best L bg (ds i)) is kss"
    "list_all2 (list_all2 (\<lambda>(i, ns). path_of bg (ds i) ns)) (map2 (\<lambda>i. map (Pair i)) is kss) days"
    using Cons.IH [OF _ s(4)] Cons.prems(1) by auto
  have "list_all2 (\<lambda>(i, ns). path_of bg (ds i) ns) (map (Pair i) ks) sps" using s(2) by (simp add: list.rel_map)
  then show ?case using s r by (intro exI [of _ "sps # days"] exI [of _ "ks # kss"] exI [of _ al']) simp
qed auto

lemma product_zip: "length is = length kss \<Longrightarrow> product_lists (map2 (\<lambda>i. map (Pair i)) is kss) = map (zip is) (product_lists kss)"
  by (induction "is" kss rule: list_induct2) (simp_all add: map_concat comp_def)

lemma of_int_sums: "of_int (sum_list xs) = sum_list (map of_int xs)"
  by (induction xs) simp_all

lemma filter_tagged:
  "\<forall>i < n. \<forall>x \<in> set (g i). f x = i \<Longrightarrow> b < n \<Longrightarrow> filter (\<lambda>x. f x = b) (concat (map g [0..<n])) = g b"
proof (induction n)
  case (Suc n)
  have "filter (\<lambda>x. f x = b) (g n) = (if n = b then g n else [])" using Suc.prems(1) by (auto simp: filter_empty_conv intro!: filter_True)
  moreover have "filter (\<lambda>x. f x = b) (concat (map g [0..<n])) = (if n = b then [] else g b)"
  proof (cases "n = b")
    case True
    have "f x \<noteq> b" if x: "x \<in> set (concat (map g [0..<n]))" for x
    proof -
      obtain i where "i < n" "x \<in> set (g i)" using x by auto
      then have "f x = i" using Suc.prems(1) less_SucI by blast
      then show ?thesis using \<open>i < n\<close> True by simp
    qed
    then show ?thesis using True by (simp add: filter_empty_conv)
  next
    case False
    then show ?thesis using Suc by simp
  qed
  ultimately show ?case by simp
qed simp

lemma order_bounds: "day_ok bg d \<Longrightarrow> ns \<in> day_orders bg d \<Longrightarrow> set ns \<subseteq> {..<df_nodeNum d} \<and> ns \<noteq> []"
  by (fastforce simp: day_orders_def day_ok_def)

lemma combo_at:
  assumes "list_all2 (\<lambda>(i, ns). path_of bg (ds i) ns) (zip [0..<blocks_of bg] nss) c" "length nss = blocks_of bg"
  shows "length c = blocks_of bg" "i < blocks_of bg \<Longrightarrow> path_of bg (ds i) (nss ! i) (c ! i)"
    "map f c = map (\<lambda>i. f (c ! i)) [0..<blocks_of bg]"
proof -
  show l: "length c = blocks_of bg" using list_all2_lengthD [OF assms(1)] assms(2) by simp
  show "path_of bg (ds i) (nss ! i) (c ! i)" if "i < blocks_of bg" using list_all2_nthD [OF assms(1), of i] that assms(2) by simp
  show "map f c = map (\<lambda>i. f (c ! i)) [0..<blocks_of bg]" by (rule nth_equalityI) (use l in auto)
qed

lemma combo_plan:
  assumes ok: "days_ok L bg rich raw ds" and nss: "nss \<in> plan_orders bg ds"
    and c: "list_all2 (\<lambda>(i, ns). path_of bg (ds i) ns) (zip [0..<blocks_of bg] nss) c"
  shows "combo_ok bg c" "join_hash bg c = plan_hash bg ds nss" "joined_of bg rich c p \<Longrightarrow> plan_of bg rich ds nss p"
proof -
  have n: "length nss = blocks_of bg" "\<And>i. i < blocks_of bg \<Longrightarrow> nss ! i \<in> day_orders bg (ds i)" using nss by (auto simp: plan_orders_def)
  note C = combo_at [OF c n(1)]
  note D = days_okD [OF ok] and V = visits_plain [OF ok _ n(2)]
  have used: "sp_used (c ! i) = visits_of (ds i) (nss ! i)" if "i < blocks_of bg" for i using C(2) [OF that] by (simp add: path_of_def)
  have bpos: "sp_bPos (c ! i) ! unat v = df_bPos (ds i)" if "i < blocks_of bg" "v \<in> set (visits_of (ds i) (nss ! i))" for i v
    using C(2) [OF that(1)] that(2) by (simp add: path_of_def)
  have "map sp_used c = map (\<lambda>i. visits_of (ds i) (nss ! i)) [0..<blocks_of bg]" unfolding C(3) using used by simp
  then have jv: "join_visits c = plan_visits bg ds nss" by (simp only: join_visits_def plan_visits_def)
  have "day_cand bg (c ! i)" if "i < blocks_of bg" for i
    using C(2) [OF that] judge_total(2) [OF D(1) [OF that]] order_bounds [OF D(1) [OF that] n(2) [OF that]]
    by (simp add: path_of_def day_cand_def)
  then have dc: "\<forall>d \<in> set c. day_cand bg d" using C(1) by (auto simp: in_set_conv_nth)
  have "distinct (plan_visits bg ds nss)" unfolding plan_visits_def
  proof (rule distinct_concat_map)
    fix i j assume ij: "i \<in> set [0..<blocks_of bg]" "j \<in> set [0..<blocks_of bg]" "i \<noteq> j"
    have "df_bPos (ds i) \<noteq> df_bPos (ds j)" using D(2) [of i] D(2) [of j] ij by auto
    then show "set (visits_of (ds i) (nss ! i)) \<inter> set (visits_of (ds j) (nss ! j)) = {}"
      using V(2) [of i] V(2) [of j] ij by (metis disjoint_iff atLeast_upt lessThan_iff)
  qed (use V(1) in auto)
  then show "combo_ok bg c" using dc jv by (simp add: combo_ok_def)
  have ops: "map day_ops c = map (\<lambda>i. map (node_op (df_bPos (ds i))) (visits_of (ds i) (nss ! i))) [0..<blocks_of bg]"
    unfolding C(3) using used bpos by (simp add: day_ops_def)
  have "filter (\<lambda>x. unat (pu_bPos x) = b) (concat (map day_ops c)) = map (node_op (df_bPos (ds b))) (visits_of (ds b) (nss ! b))"
    if "b < blocks_of bg" for b unfolding ops by (rule filter_tagged) (use D(2) that in \<open>auto simp: node_op_def\<close>)
  then have h: "map (ucast \<circ> pu_vPos) (filter (\<lambda>x. unat (pu_bPos x) = b) (concat (map day_ops c))) @ [0] =
      map ucast (visits_of (ds b) (nss ! b)) @ [0 :: u32]" if "b < blocks_of bg" for b
    using that by (simp add: comp_def node_op_def)
  then show hash: "join_hash bg c = plan_hash bg ds nss" unfolding join_hash_def plan_hash_def blocks_of_def [symmetric]
    by (intro arg_cong [where f = Hash_vec] arg_cong [where f = concat] map_cong) auto
  have sums: "sum_list (map f c) = (\<Sum>i \<leftarrow> [0..<blocks_of bg]. f (c ! i))" for f :: "spath \<Rightarrow> 'a :: comm_monoid_add" by (simp add: C(3))
  have "sum_list (map sp_clash c) = plan_sum bg (\<lambda>i. clash_of bg (ds i)) nss" "sum_list (map sp_dist c) = plan_sum bg (\<lambda>i. leg_sum tr_dist (ds i)) nss"
    unfolding C(3) plan_sum_def by (intro arg_cong [where f = sum_list] map_cong; use C(2) in \<open>simp add: path_of_def\<close>)+
  moreover have "sum_list (map sp_score c) = of_int (plan_sum bg (\<lambda>i ns. order_score (ds i) (firstL_of bg (ds i) ns) ns) nss)"
    unfolding C(3) plan_sum_def of_int_sums map_map comp_def
    by (intro arg_cong [where f = sum_list] map_cong) (use C(2) in \<open>simp_all add: path_of_def\<close>)
  moreover have "unat (sp_bPos p ! unat v) = i" if "joined_of bg rich c p" "i < blocks_of bg" "v \<in> set (visits_of (ds i) (nss ! i))" for i v
  proof -
    have "c ! i \<in> set c" "v \<in> set (sp_used (c ! i))" using that C(1) used by auto
    then have "sp_bPos p ! unat v = sp_bPos (c ! i) ! unat v" using that(1) by (simp add: joined_of_def)
    then show ?thesis using bpos [OF that(2,3)] D(2) [OF that(2)] by simp
  qed
  ultimately show "plan_of bg rich ds nss p" if "joined_of bg rich c p"
    using that jv hash by (simp add: joined_of_def plan_of_def)
qed

lemma GetDFSHeap_old:
  "\<exists>mp1. GetDFSHeap (int K) x mp = (Some (old_heap K x mp), mp1) \<and> mp_alloc mp1 = mp_alloc mp \<and>
    (\<forall>y. y \<noteq> x \<longrightarrow> map_of (mp_dfsHeapMap mp1) y = map_of (mp_dfsHeapMap mp) y)"
  by (cases "map_of (mp_dfsHeapMap mp) x") (auto simp: GetDFSHeap_def old_heap_def Let_def)

lemma plans_hash:
  assumes "list_all2 (list_all2 (\<lambda>(i, ns). path_of bg (ds i) ns)) (map (zip [0..<blocks_of bg]) ns) cs"
    and "days_ok L bg rich raw ds" "set ns \<subseteq> plan_orders bg ds"
  shows "map (join_hash bg) cs = map (plan_hash bg ds) ns" "\<forall>c \<in> set cs. combo_ok bg c"
    "list_all2 (joined_of bg rich) cs ps \<Longrightarrow> list_all2 (plan_of bg rich ds) ns ps"
proof -
  have l: "length cs = length ns" using list_all2_lengthD [OF assms(1)] by simp
  have P: "combo_ok bg (cs ! j)" "join_hash bg (cs ! j) = plan_hash bg ds (ns ! j)"
    "joined_of bg rich (cs ! j) p \<Longrightarrow> plan_of bg rich ds (ns ! j) p" if "j < length ns" for j p
  proof -
    have "list_all2 (\<lambda>(i, ns). path_of bg (ds i) ns) (zip [0..<blocks_of bg] (ns ! j)) (cs ! j)"
      using list_all2_nthD [OF assms(1), of j] that by simp
    moreover have "ns ! j \<in> plan_orders bg ds" using assms(3) that by auto
    ultimately show "combo_ok bg (cs ! j)" "join_hash bg (cs ! j) = plan_hash bg ds (ns ! j)"
      "joined_of bg rich (cs ! j) p \<Longrightarrow> plan_of bg rich ds (ns ! j) p" using combo_plan [OF assms(2)] by auto
  qed
  show "map (join_hash bg) cs = map (plan_hash bg ds) ns" by (rule nth_equalityI) (use l P(2) in auto)
  show "\<forall>c \<in> set cs. combo_ok bg c" using P(1) l by (auto simp: in_set_conv_nth)
  show "list_all2 (plan_of bg rich ds) ns ps" if "list_all2 (joined_of bg rich) cs ps"
    using that P(3) l by (simp add: list_all2_conv_all_nth)
qed

lemma kss_plans:
  assumes "list_all2 (\<lambda>i. day_best L bg (ds i)) [0..<blocks_of bg] kss"
  shows "set (product_lists kss) \<subseteq> plan_orders bg ds" "distinct (product_lists kss)"
proof -
  have l: "length kss = blocks_of bg" using list_all2_lengthD [OF assms] by simp
  have b: "day_best L bg (ds i) (kss ! i)" if "i < blocks_of bg" for i using list_all2_nthD [OF assms, of i] that by simp
  then show "set (product_lists kss) \<subseteq> plan_orders bg ds"
    using l by (fastforce simp: product_lists_set list_all2_conv_all_nth plan_orders_def day_best_def)
  show "distinct (product_lists kss)"
    by (rule distinct_product_lists) (use b l in \<open>auto simp: in_set_conv_nth day_best_def\<close>)
qed

subsection \<open>Merging\<close>

lemma push_all_run: "push_all ps h = heap_run ps h"
proof (induction ps arbitrary: h)
  case (Cons p ps)
  then show ?case by (cases "SPathHeap_Push p False h") (auto simp: push_all_def)
qed (simp add: push_all_def)

lemma kept_append: "kept x (es @ fs) = kept x es @ kept x fs"
  by (simp add: kept_def)

lemma kept_Cons: "kept x ((y, h, A) # es) = (if y = x then sh_queue h else []) @ kept x es"
  by (simp add: kept_def)

lemma kept_Nil: "kept x [] = []"
  by (simp add: kept_def)

lemmas kept_simps = kept_append kept_Cons kept_Nil

lemma kept_absent: "x \<notin> fst ` set es \<Longrightarrow> kept x es = []"
  by (induction es) (auto simp: kept_simps)

lemma seen_whole: "\<forall>(x, h, A) \<in> set es. heap_inv K A h \<Longrightarrow> set_mset (seen x es) \<subseteq> whole"
proof (induction es)
  case (Cons e es)
  obtain y h A where e: "e = (y, h, A)" by (cases e)
  have "set_mset A \<subseteq> whole" using Cons.prems e by (auto simp: heap_inv_def)
  moreover have "set_mset (seen x es) \<subseteq> whole" using Cons by auto
  ultimately show ?case by (simp add: seen_def e)
qed (simp add: seen_def)

lemma merge_one_ok:
  assumes m: "merged K es m" and K: "0 < K" and A: "heap_inv K A h" and hd: "distinct (map sp_hash (kept x es @ sh_queue h))"
  shows "\<exists>m'. merge_one (int K) (x, h) m = Some m' \<and> merged K (es @ [(x, h, A)]) m'"
proof -
  define m1 where "m1 = (if map_of m x = None then (x, SPathHeap_Init (int K) SPathHeap_new) # m else m)"
  have M: "distinct (map fst m)" "fst ` set m = fst ` set es" "\<And>y g. (y, g) \<in> set m \<Longrightarrow> heap_inv K (mset (kept y es)) g"
    using m by (auto simp: merged_def)
  have keys: "distinct (map fst m1)" "fst ` set m1 = insert x (fst ` set es)"
    using M(1,2) by (auto simp: m1_def map_of_eq_None_iff dom_map_of_conv_image_fst)
  have m1: "heap_inv K (mset (kept y es)) g" if "(y, g) \<in> set m1" for y g
    using that M(2,3) heap_inv_Init [of K] kept_absent [of x es] by (auto simp: m1_def map_of_eq_None_iff split: if_splits)
  have "map_of m1 x \<noteq> None" using keys(2) by (simp add: map_of_eq_None_iff)
  then obtain g where g: "map_of m1 x = Some g" by auto
  have gi: "heap_inv K (mset (kept x es)) g" using m1 map_of_SomeD [OF g] .
  have "set (sh_queue h) \<subseteq> whole" using A by (simp add: heap_inv_def)
  moreover have "distinct (map sp_hash (sh_queue h))" "sp_hash ` set (sh_queue h) \<inter> sp_hash ` set_mset (mset (kept x es)) = {}"
    using hd by auto
  ultimately obtain g' where g': "heap_run (sh_queue h) g = Some g'" "heap_inv K (mset (sh_queue h) + mset (kept x es)) g'"
    using heap_run_inv [OF K gi, of "sh_queue h"] by blast
  have g'': "heap_inv K (mset (kept x (es @ [(x, h, A)]))) g'" using g'(2) by (simp add: kept_simps add.commute)
  define m2 where "m2 = AList.update x g' m1"
  have r: "merge_one (int K) (x, h) m = Some m2"
    using g g'(1) by (simp add: merge_one_def push_all_run SPathHeap_CopyVal_def m2_def flip: m1_def)
  have d2: "distinct (map fst m2)" unfolding m2_def by (rule AList.distinct_update [OF keys(1)])
  have "heap_inv K (mset (kept y (es @ [(x, h, A)]))) f" if "(y, f) \<in> set m2" for y f
  proof (cases "y = x")
    case True
    then have "map_of m2 x = Some f" using that d2 by simp
    then have "f = g'" by (simp add: m2_def AList.update_conv)
    then show ?thesis using True g'' by simp
  next
    case False
    then have "map_of m1 y = Some f" using that d2 by (metis m2_def AList.update_conv fun_upd_other map_of_eq_Some_iff)
    then show ?thesis using m1 map_of_SomeD False by (fastforce simp: kept_simps)
  qed
  moreover have "fst ` set m2 = fst ` set (es @ [(x, h, A)])" using keys(2) by (auto simp: m2_def AList.update_keys simp flip: set_map)
  ultimately show ?thesis using r d2 by (auto simp: merged_def)
qed

lemma merge_each:
  assumes K: "0 < K"
  shows "entries_ok K (es0 @ es) \<Longrightarrow> merged K es0 m \<Longrightarrow>
    \<exists>m'. each (merge_one (int K)) (entry_heaps es) m = Some m' \<and> merged K (es0 @ es) m'"
proof (induction es arbitrary: es0 m)
  case (Cons e es)
  obtain x h A where e: "e = (x, h, A)" by (cases e)
  have ok: "heap_inv K A h" "distinct (map sp_hash (kept x (es0 @ e # es)))"
    using Cons.prems(1) e by (auto simp: entries_ok_def)
  have "distinct (map sp_hash (kept x es0 @ sh_queue h))" using ok(2) by (simp add: kept_simps e Un_commute Int_Un_distrib)
  then obtain m1 where "merge_one (int K) (x, h) m = Some m1" "merged K (es0 @ [e]) m1"
    using merge_one_ok [OF Cons.prems(2) K ok(1), of x] e by blast
  then show ?case using Cons.IH [of "es0 @ [e]" m1] Cons.prems(1) by (simp add: entry_heaps_def e)
qed (simp add: entry_heaps_def)

lemma kept_seen:
  assumes "\<forall>(x, h, A) \<in> set es. heap_inv K A h" "best_of SPathCmp K c (mset (kept x es) + B)" "set_mset B \<subseteq> whole"
  shows "best_of SPathCmp K c (seen x es + B)"
  using assms
proof (induction es arbitrary: B)
  case (Cons e es)
  obtain y h A where e: "e = (y, h, A)" by (cases e)
  have I: "heap_inv K A h" using Cons.prems(1) e by auto
  show ?case
  proof (cases "y = x")
    case True
    have A: "best_of SPathCmp K (mset (sh_queue h)) A" "set_mset A \<subseteq> whole" "set (sh_queue h) \<subseteq> whole"
      using I by (auto simp: heap_inv_def)
    have "best_of SPathCmp K c (mset (kept x es) + (mset (sh_queue h) + B))"
      using Cons.prems(2) True by (simp add: kept_simps e ac_simps)
    then have "best_of SPathCmp K c (seen x es + (mset (sh_queue h) + B))"
      using Cons.IH [of "mset (sh_queue h) + B"] Cons.prems(1,3) A(3) by auto
    then have "best_of SPathCmp K c (mset (sh_queue h) + (seen x es + B))" by (simp add: ac_simps)
    moreover have "set_mset (seen x es) \<subseteq> whole" using Cons.prems(1) by (intro seen_whole) auto
    ultimately have "best_of SPathCmp K c (A + (seen x es + B))"
      using sph.best_of_part [OF A(1)] A(2) Cons.prems(3) by auto
    then show ?thesis using True by (simp add: seen_def e ac_simps)
  next
    case False
    then show ?thesis using Cons.IH [of B] Cons.prems by (simp add: kept_simps seen_def e)
  qed
qed (simp add: kept_simps seen_def)

lemma heap_members: "heap_inv K all h \<Longrightarrow> p \<in> set (sh_queue h) \<Longrightarrow> p \<in># all"
  by (auto simp: heap_inv_def best_of_def)

lemma kept_ok: "entries_ok K es \<Longrightarrow> p \<in> set (kept x es) \<Longrightarrow> spath_ok p"
  by (fastforce simp: entries_ok_def kept_def split: if_splits)

lemma copy_new_ok:
  assumes "\<forall>p \<in> set ps. spath_ok p" "\<forall>i. arrays_ok (mem i)"
  shows "\<exists>out. copy_new mem fresh ps = Some out \<and> list_all2 same_cand ps out"
proof -
  define f where "f = (\<lambda>(i, p). SPath_Copy p (SPath_new ((mem (fresh + i))\<lparr>sp_addr := fresh + i\<rparr>)))"
  have ex: "\<exists>q. f (i, p) = Some q \<and> same_cand p q" if "p \<in> set ps" for i p
  proof -
    have "arrays_ok (SPath_new ((mem (fresh + i))\<lparr>sp_addr := fresh + i\<rparr>))" using assms(2) by (simp add: SPath_new_def arrays_ok_def)
    then show ?thesis using SPath_Copy_spec [of p] assms(1) that by (fastforce simp: f_def same_cand_def cmp_tuple_def)
  qed
  have mem: "snd x \<in> set ps" if "x \<in> set (enumerate 0 ps)" for x 
  proof -
    have "fst x < length ps" "ps ! fst x = snd x" using that by (auto simp: in_set_enumerate_eq)
    then show ?thesis using nth_mem [of "fst x" ps] by simp
  qed
  define g where "g = (\<lambda>x. the (f x))"
  have g: "f x = Some (g x) \<and> same_cand (snd x) (g x)" if "x \<in> set (enumerate 0 ps)" for x
    using ex [OF mem [OF that], of "fst x"] by (auto simp: g_def)
  have "copy_new mem fresh ps = Some (map g (enumerate 0 ps))"
    unfolding copy_new_def f_def [symmetric] using g by (intro those_map_fun) auto
  moreover have "list_all2 same_cand (map snd (enumerate 0 ps)) (map g (enumerate 0 ps))"
    unfolding list.rel_map by (rule list.rel_refl_strong) (use g in blast)
  ultimately show ?thesis by simp
qed

lemma SPathDFSCmp_tuple: "SPathDFSCmp a b \<longleftrightarrow> dfs_tuple a < dfs_tuple b"
  by (auto simp: SPathDFSCmp_def dfs_tuple_def)

interpretation dfso: weak_order SPathDFSCmp UNIV
  by unfold_locales (auto simp: SPathDFSCmp_tuple)

lemma copy_queues: "SPathHeap_CopyVal \<circ> snd = sh_queue \<circ> snd"
  by (auto simp: SPathHeap_CopyVal_def)

lemma best_of_one: "best_of lt 1 (mset q) {#p#} \<Longrightarrow> q = [p]"
proof -
  assume b: "best_of lt 1 (mset q) {#p#}"
  then have "length q = 1" by (simp add: best_of_def)
  then obtain x where x: "q = [x]" by (auto simp: length_Suc_conv)
  then have "x \<in># {#p#}" using b by (metis best_of_def list.set_intros(1) mset_single_iff_right multi_member_split set_mset_mset union_iff)
  then show ?thesis using x by simp
qed

lemma take_best: "sorted_wrt (\<lambda>a b. \<not> lt b a) xs \<Longrightarrow> best_of lt n (mset (take n xs)) (mset xs)"
proof -
  assume s: "sorted_wrt (\<lambda>a b. \<not> lt b a) xs"
  have "sorted_wrt (\<lambda>a b. \<not> lt b a) (take n xs @ drop n xs)" using s by simp
  then have "dominates lt (mset (take n xs)) (mset (drop n xs))" unfolding sorted_wrt_append by (auto simp: dominates_def)
  moreover have "mset (take n xs) + mset (drop n xs) = mset xs" by (metis append_take_drop_id mset_append)
  moreover have "size (mset (take n xs)) = min n (size (mset xs))" by (simp add: min.commute)
  ultimately show ?thesis unfolding best_of_def by blast
qed

lemma cut_list_take: "0 \<le> limit \<Longrightarrow> cut_list limit ps = take (nat limit) ps"
  by (auto simp: cut_list_def)

section \<open>Properties\<close>

text \<open>C2: one worker of the day search, from the rich path to the heap. When the days of the rich path can be searched, time does
  not run out and no two plans have the same hash, \<open>DFSWorker::doWork\<close> returns 0, and the heap of the rich path's point set then
  holds the best \<open>K\<close> of the candidates it had been offered before and of all plans that take for every day one of its best
  \<open>L\<close> orders. Nothing that \<open>CanPush\<close> refuses is among them, and the heaps of other point sets stay as they were.\<close>

theorem DFSWorker_doWork_best:
  assumes "0 < K" "days_ok L bg rich raw ds" "\<forall>i k. \<not> clock i k" "alloc_mem (mp_alloc mp)"
    and "0 \<le> sp_missLevel rich" "\<forall>p \<in># all. sp_missLevel p = sp_missLevel rich"
    and "heap_inv K all (old_heap K (sp_hashPointSet rich) mp)" "\<forall>p \<in> set (sh_queue (old_heap K (sp_hashPointSet rich) mp)). arrays_ok p"
    and "inj_on (plan_hash bg ds) (plan_orders bg ds)" "plan_hash bg ds ` plan_orders bg ds \<inter> sp_hash ` set_mset all = {}"
  shows "\<exists>mp' h kss ps. DFSWorker_doWork False clock (int L) (int K) bg rich raw mp = Some (0, True, mp') \<and>
    map_of (mp_dfsHeapMap mp') (sp_hashPointSet rich) = Some h \<and>
    (\<forall>y. y \<noteq> sp_hashPointSet rich \<longrightarrow> map_of (mp_dfsHeapMap mp') y = map_of (mp_dfsHeapMap mp) y) \<and>
    list_all2 (\<lambda>i. day_best L bg (ds i)) [0..<blocks_of bg] kss \<and>
    list_all2 (plan_of bg rich ds) (product_lists kss) ps \<and> best_of SPathCmp K (mset (sh_queue h)) (mset ps + all)"
proof -
  let ?x = "sp_hashPointSet rich"
  note A = assms(2) [unfolded days_ok_def spath_ok_def]
  obtain mp1 where mp1: "GetDFSHeap (int K) ?x mp = (Some (old_heap K ?x mp), mp1)" "mp_alloc mp1 = mp_alloc mp"
    "\<forall>y. y \<noteq> ?x \<longrightarrow> map_of (mp_dfsHeapMap mp1) y = map_of (mp_dfsHeapMap mp) y" using GetDFSHeap_old by blast
  obtain days kss al where d: "day_loop clock (int L) bg rich raw [0..<blocks_of bg] (mp_alloc mp) = Some (days, al)" "alloc_mem al"
    "list_all2 (\<lambda>i. day_best L bg (ds i)) [0..<blocks_of bg] kss"
    "list_all2 (list_all2 (\<lambda>(i, ns). path_of bg (ds i) ns)) (map2 (\<lambda>i. map (Pair i)) [0..<blocks_of bg] kss) days"
    using day_loop_best [OF assms(2,3), of "[0..<blocks_of bg]" "mp_alloc mp"] assms(4) by auto
  have l: "length [0..<blocks_of bg] = length kss" using list_all2_lengthD [OF d(3)] .
  have "list_all2 (list_all2 (\<lambda>(i, ns). path_of bg (ds i) ns)) (map (zip [0..<blocks_of bg]) (product_lists kss)) (product_lists days)"
    using rel_funD [OF product_lists_transfer d(4)] product_zip [OF l] by simp
  note P = plans_hash [OF this assms(2) kss_plans(1) [OF d(3)]]
  have hs: "distinct (map (join_hash bg) (product_lists days))" unfolding P(1)
    using kss_plans [OF d(3)] assms(9) by (auto simp: distinct_map intro: inj_on_subset)
  have "join_hash bg ` set (product_lists days) = plan_hash bg ds ` set (product_lists kss)" using P(1) by (metis set_map)
  then have "\<forall>c \<in> set (product_lists days). combo_ok bg c \<and> join_hash bg c \<notin> sp_hash ` set_mset all"
    using P(2) kss_plans(1) [OF d(3)] assms(10) by blast
  then obtain h al' ps where j: "JoinDayPath bg rich days [] (old_heap K ?x mp, al) = Some (h, al')"
    "list_all2 (joined_of bg rich) (product_lists days) ps" "best_of SPathCmp K (mset (sh_queue h)) (mset ps + all)"
    using JoinDayPath_best [OF assms(1) _ _ _ assms(5,6) _ hs assms(7,8) d(2)] A by (auto simp: blocks_of_def)
  define mp' where "mp' = mp1\<lparr>mp_alloc := del_all (concat days) al', mp_dfsHeapMap := AList.update ?x h (mp_dfsHeapMap mp1)\<rparr>"
  have "nat (GetBlockNum (bg_base bg)) = blocks_of bg" by (simp add: GetBlockNum_def blocks_of_def)
  then have "DFSWorker_doWork False clock (int L) (int K) bg rich raw mp = Some (0, True, mp')"
    using mp1(1,2) d(1) j(1) by (simp add: DFSWorker_doWork_def mp'_def)
  moreover have "map_of (mp_dfsHeapMap mp') ?x = Some h" "\<forall>y. y \<noteq> ?x \<longrightarrow> map_of (mp_dfsHeapMap mp') y = map_of (mp_dfsHeapMap mp) y"
    using mp1(3) by (auto simp: mp'_def AList.update_conv)
  ultimately show ?thesis using d(3) P(3) [OF j(2)] j(3) by blast
qed


lemma demo_cand_ok: "combo_ok demo_bag [demo_cand]" "sp_used demo_cand = [2, 1]"
proof -
  show u: "sp_used demo_cand = [2, 1]" by (simp add: demo_cand_def sp_used_def)
  have "length (bp_BlockList (bg_base demo_bag)) = 1" "bg_nodeNum demo_bag = 3" by (simp_all add: demo_bag_def BagPlan_new_def)
  moreover have "sp_bPos demo_cand ! unat v = 0" if "v \<in> {2, 1}" for v using that by (auto simp: demo_cand_def demo_spath_def kPathLimit_def)
  moreover have "spath_ok demo_cand"
    unfolding spath_ok_def u by (simp add: demo_cand_def demo_spath_def kPathLimit_def kBlockLimit_def)
  ultimately show "combo_ok demo_bag [demo_cand]" 
    by (simp add: combo_ok_def join_visits_def u day_cand_def) (simp add: demo_cand_def demo_spath_def)
qed

lemma demo_alloc_mem: "alloc_mem (SPathAlloc_new (\<lambda>i. demo_spath) 0 2)"
  unfolding SPathAlloc_new_def by (rule alloc_mem_Expand) (simp add: alloc_mem_def demo_spath_arrays)

lemma demo_inj: "inj_on (hash_of demo_day_bag demo_day) (day_orders demo_day_bag demo_day)"
  by (rule inj_on_subset [OF _ demo_orders]) (use demo_hash in auto)

lemma demo_days_ok: "days_ok 1 demo_day_bag demo_rich (\<lambda>i. demo_dfs) (\<lambda>i. demo_day)" "blocks_of demo_day_bag = 1"
proof -
  show b: "blocks_of demo_day_bag = 1" by (simp add: blocks_of_def demo_day_bag_def BagPlan_new_def)
  have win: "\<forall>i < df_nodeNum demo_day. \<not> has_flag (df_vType demo_day ! i) NODE_FUNC_PLACE_RESTAURANT \<longrightarrow>
      None \<notin> set (df_openCloseList demo_day ! i)" using demo_init(2) demo_day_vals by simp
  have heap: "demo_dfs\<lparr>df_heap := SPathHeap_new\<rparr> = demo_dfs" "length (df_path demo_dfs) = m_dayNodeLimit" by (simp_all add: demo_dfs_def)
  show "days_ok 1 demo_day_bag demo_rich (\<lambda>i. demo_dfs) (\<lambda>i. demo_day)"
    unfolding days_ok_def b using demo_inj win heap demo_init(1) demo_rich_ok demo_traf demo_day_vals(3) by (simp add: kBlockLimit_def)
qed

lemma demo_plan_hash: "plan_hash demo_day_bag (\<lambda>i. demo_day) [ns] = hash_of demo_day_bag demo_day ns"
  using demo_days_ok(2) demo_day_vals(3) by (simp add: plan_hash_def hash_of_def blocks_of_def)

theorem DFSWorker_doWork_best_witness:
  "\<exists>mp' h. DFSWorker_doWork False (\<lambda>i k. False) 1 1 demo_day_bag demo_rich (\<lambda>i. demo_dfs) (ThreadMemPool_new (\<lambda>i. demo_spath) 0 2 1 1) = Some (0, True, mp') \<and>
    map_of (mp_dfsHeapMap mp') (sp_hashPointSet demo_rich) = Some h \<and> length (sh_queue h) = min 1 (card (day_orders demo_day_bag demo_day))"
proof -
  let ?mp = "ThreadMemPool_new (\<lambda>i. demo_spath) 0 2 1 1" and ?ds = "\<lambda>i :: nat. demo_day"
  have mp: "mp_alloc ?mp = SPathAlloc_new (\<lambda>i. demo_spath) 0 2" "mp_dfsHeapMap ?mp = []"
    by (simp_all add: ThreadMemPool_new_def MemPool_SetTopK_def)
  have old: "old_heap 1 x ?mp = SPathHeap_Init (int 1) SPathHeap_new" for x by (simp add: old_heap_def mp)
  have h: "heap_inv 1 {#} (old_heap 1 x ?mp)" "sh_queue (old_heap 1 x ?mp) = []" for x
    unfolding old by (rule heap_inv_Init) (simp add: SPathHeap_Init_def SPathHeap_new_def)
  have "inj_on (plan_hash demo_day_bag ?ds) (plan_orders demo_day_bag ?ds)"
  proof (rule inj_onI)
    fix a b assume ab: "a \<in> plan_orders demo_day_bag ?ds" "b \<in> plan_orders demo_day_bag ?ds" "plan_hash demo_day_bag ?ds a = plan_hash demo_day_bag ?ds b"
    obtain m n where mn: "a = [m]" "b = [n]" "m \<in> day_orders demo_day_bag demo_day" "n \<in> day_orders demo_day_bag demo_day"
      using ab(1,2) demo_days_ok(2) by (auto simp: plan_orders_def length_Suc_conv)
    have "hash_of demo_day_bag demo_day m = hash_of demo_day_bag demo_day n" using ab(3) mn demo_plan_hash by simp
    then show "a = b" using mn inj_onD [OF demo_inj] by simp
  qed
  then obtain mp' g kss ps where r: "DFSWorker_doWork False (\<lambda>i k. False) (int 1) (int 1) demo_day_bag demo_rich (\<lambda>i. demo_dfs) ?mp = Some (0, True, mp')"
    "map_of (mp_dfsHeapMap mp') (sp_hashPointSet demo_rich) = Some g"
    "list_all2 (\<lambda>i. day_best 1 demo_day_bag (?ds i)) [0..<blocks_of demo_day_bag] kss"
    "list_all2 (plan_of demo_day_bag demo_rich ?ds) (product_lists kss) ps" "best_of SPathCmp 1 (mset (sh_queue g)) (mset ps + {#})"
    using DFSWorker_doWork_best [of 1 1 demo_day_bag demo_rich "\<lambda>i. demo_dfs" ?ds "\<lambda>i k. False" ?mp "{#}"] demo_days_ok(1) h demo_alloc_mem mp(1)
    by (auto simp: demo_rich_def demo_spath_def)
  obtain ks where ks: "kss = [ks]" "day_best 1 demo_day_bag demo_day ks" using r(3) demo_days_ok(2) by (auto simp: list_all2_Cons1)
  have "length ps = length ks" using list_all2_lengthD [OF r(4)] ks(1) by (simp add: comp_def concat_map_singleton)
  then have "length (sh_queue g) = min 1 (card (day_orders demo_day_bag demo_day))" using r(5) ks(2) by (simp add: best_of_def day_best_def)
  then show ?thesis using r(1,2) by auto
qed

lemma sort_dfs: "mset (sort_key dfs_tuple ps) = mset ps \<and> sorted_wrt (\<lambda>a b. \<not> SPathDFSCmp b a) (sort_key dfs_tuple ps)"
proof -
  have "sorted_wrt (\<lambda>a b. dfs_tuple a \<le> dfs_tuple b) (sort_key dfs_tuple ps)"
    using sorted_sort_key [of dfs_tuple ps] by (simp add: sorted_wrt_map)
  then show ?thesis by (simp add: SPathDFSCmp_tuple not_less)
qed


end
