(* ===== verification/ThreadPool.thy ===== *)
theory ThreadPool
  imports SPathHeap
begin

text \<open>
  The thread pool that runs the workers (Route/bag/MyThreadPool.h and .cpp, common/src/threads/wait_list.hpp and
  linked_list.hpp).

  \<^item> The intrusive list is a store of \<open>next\<close> and \<open>prev\<close> pointers: \<open>LHead\<close> is the list's own node, \<open>LNode w\<close> the node inside the
    worker at address \<open>w\<close>. Pointers of nodes that are not linked keep what they had.
  \<^item> Every critical section of the queue is one step. \<open>get\<close> is \<open>None\<close> while it waits on the condition variable.
  \<^item> \<open>pool_step\<close>: a thread enters \<open>svc\<close>, takes a worker, finishes it, leaves; the client adds a worker or stops the pool. \<open>doWork\<close> is
    virtual: the argument \<open>work\<close>, acting on the thread's memory pool. \<open>tp_log\<close> records the finished workers with the pool
    each used; it is not part of the program.
  \<^item> A worker is a new object when it is added, with \<open>_state\<close> 0. The barrier of \<open>open\<close> and \<open>activate\<close> only delays the threads; creating
    and joining threads is left to the operating system.
  \<^item> \<open>wait_worker_done\<close> polls: \<open>obs k\<close> are the states at its \<open>k\<close>-th look; \<open>None\<close> when it has not returned after the given number.

  The properties: the pointer list is a queue, first in first out (locale \<open>fifo\<close>); under every interleaving a worker runs at most
  once, two running workers never share a memory pool and every access to the list of pools is in range; as long as the pool is
  not stopped the threads finish every worker, and then waiting returns.
\<close>

section \<open>linked\_list\_t\<close>

datatype lref = LHead | LNode nat

record llist =
  ll_next :: "lref \<Rightarrow> lref"
  ll_prev :: "lref \<Rightarrow> lref"

definition ll_empty :: "llist \<Rightarrow> llist" where
  "ll_empty l = l\<lparr>ll_next := (ll_next l)(LHead := LHead), ll_prev := (ll_prev l)(LHead := LHead)\<rparr>"

definition is_empty :: "llist \<Rightarrow> bool" where
  "is_empty l \<longleftrightarrow> ll_next l LHead = LHead"

definition ll_entry :: "lref \<Rightarrow> nat option" where
  "ll_entry r = (case r of LHead \<Rightarrow> None | LNode w \<Rightarrow> Some w)"

definition add_next :: "lref \<Rightarrow> lref \<Rightarrow> llist \<Rightarrow> llist" where
  "add_next node cur l =
     (let l1 = l\<lparr>ll_prev := (ll_prev l)(ll_next l cur := node)\<rparr>;
          l2 = l1\<lparr>ll_next := (ll_next l1)(node := ll_next l1 cur)\<rparr>;
          l3 = l2\<lparr>ll_prev := (ll_prev l2)(node := cur)\<rparr>
      in l3\<lparr>ll_next := (ll_next l3)(cur := node)\<rparr>)"

definition add_prev :: "lref \<Rightarrow> lref \<Rightarrow> llist \<Rightarrow> llist" where
  "add_prev node cur l =
     (let l1 = l\<lparr>ll_next := (ll_next l)(ll_prev l cur := node)\<rparr>;
          l2 = l1\<lparr>ll_prev := (ll_prev l1)(node := ll_prev l1 cur)\<rparr>;
          l3 = l2\<lparr>ll_next := (ll_next l2)(node := cur)\<rparr>
      in l3\<lparr>ll_prev := (ll_prev l3)(cur := node)\<rparr>)"

definition ll_add :: "nat \<Rightarrow> llist \<Rightarrow> llist" where
  "ll_add w l =
     (let l1 = l\<lparr>ll_prev := (ll_prev l)(ll_next l LHead := LNode w)\<rparr>;
          l2 = l1\<lparr>ll_next := (ll_next l1)(LNode w := ll_next l1 LHead)\<rparr>;
          l3 = l2\<lparr>ll_prev := (ll_prev l2)(LNode w := LHead)\<rparr>
      in l3\<lparr>ll_next := (ll_next l3)(LHead := LNode w)\<rparr>)"

definition ll_del :: "nat \<Rightarrow> llist \<Rightarrow> llist" where
  "ll_del w l =
     (let l1 = l\<lparr>ll_prev := (ll_prev l)(ll_next l (LNode w) := ll_prev l (LNode w))\<rparr>
      in l1\<lparr>ll_next := (ll_next l1)(ll_prev l1 (LNode w) := ll_next l1 (LNode w))\<rparr>)"

section \<open>wait\_list\_t\<close>

record waitlist =
  wl_list :: llist
  wl_alive :: bool
  wl_num :: int

definition waitlist_new :: "llist \<Rightarrow> waitlist" where
  "waitlist_new garbage = \<lparr>wl_list = ll_empty garbage, wl_alive = True, wl_num = 0\<rparr>"

definition put :: "nat \<Rightarrow> waitlist \<Rightarrow> waitlist" where
  "put w q = (if wl_alive q then q\<lparr>wl_list := ll_add w (wl_list q), wl_num := wl_num q + 1\<rparr> else q)"

text \<open>\<open>get()\<close> takes from the end of the list, \<open>get_from_head()\<close> from its head.\<close>

definition get_at :: "lref \<Rightarrow> waitlist \<Rightarrow> (nat option \<times> waitlist) option" where
  "get_at r q =
     (if wl_alive q \<and> is_empty (wl_list q) then None
      else if wl_alive q then
        (case ll_entry r of None \<Rightarrow> None
         | Some w \<Rightarrow> Some (Some w, q\<lparr>wl_list := ll_del w (wl_list q), wl_num := wl_num q - 1\<rparr>))
      else Some (None, q))"

definition get :: "waitlist \<Rightarrow> (nat option \<times> waitlist) option" where
  "get q = get_at (ll_prev (wl_list q) LHead) q"

definition get_from_head :: "waitlist \<Rightarrow> (nat option \<times> waitlist) option" where
  "get_from_head q = get_at (ll_next (wl_list q) LHead) q"

definition flush :: "waitlist \<Rightarrow> waitlist" where
  "flush q = q\<lparr>wl_alive := False\<rparr>"

section \<open>MyThreadPool\<close>

datatype tstate = Outside | Waiting nat | Working nat nat | Exited

record tpool =
  tp_task_list :: waitlist
  tp_threadID :: nat
  tp_tmPoolList :: "mempool list"
  tp_threads :: "tstate list"
  tp_state :: "nat \<Rightarrow> u8"
  tp_added :: "nat list"
  tp_log :: "(nat \<times> nat) list"

definition tpool_open :: "llist \<Rightarrow> nat \<Rightarrow> (nat \<Rightarrow> mempool) \<Rightarrow> (nat \<Rightarrow> u8) \<Rightarrow> tpool" where
  "tpool_open garbage thread_num pools st =
     \<lparr>tp_task_list = waitlist_new garbage, tp_threadID = 0, tp_tmPoolList = map pools [0..<thread_num],
      tp_threads = replicate thread_num Outside, tp_state = st, tp_added = [], tp_log = []\<rparr>"

definition tpool_SetTopK :: "int \<Rightarrow> int \<Rightarrow> tpool \<Rightarrow> tpool" where
  "tpool_SetTopK richHeapLimit dfsHeapLimit s =
     s\<lparr>tp_tmPoolList := map (MemPool_SetTopK richHeapLimit dfsHeapLimit) (tp_tmPoolList s)\<rparr>"

definition add_worker :: "nat \<Rightarrow> tpool \<Rightarrow> tpool" where
  "add_worker w s = s\<lparr>tp_task_list := put w (tp_task_list s), tp_state := (tp_state s)(w := 0),
     tp_added := (if wl_alive (tp_task_list s) then tp_added s @ [w] else tp_added s)\<rparr>"

text \<open>The pieces of \<open>svc\<close> between two critical sections, for thread \<open>t\<close>.\<close>

definition svc_enter :: "nat \<Rightarrow> tpool \<Rightarrow> tpool" where
  "svc_enter t s = s\<lparr>tp_threads := (tp_threads s)[t := Waiting (tp_threadID s)], tp_threadID := tp_threadID s + 1\<rparr>"

definition svc_get :: "nat \<Rightarrow> nat \<Rightarrow> tpool \<Rightarrow> tpool option" where
  "svc_get t threadID s = do {
     (r, q) \<leftarrow> get (tp_task_list s);
     Some (s\<lparr>tp_task_list := q,
       tp_threads := (tp_threads s)[t := (case r of None \<Rightarrow> Exited | Some w \<Rightarrow> Working threadID w)]\<rparr>) }"

definition svc_work :: "(nat \<Rightarrow> mempool \<Rightarrow> mempool) \<Rightarrow> nat \<Rightarrow> nat \<Rightarrow> nat \<Rightarrow> tpool \<Rightarrow> tpool option" where
  "svc_work work t threadID w s = do {
     tmPool \<leftarrow> arr_get (tp_tmPoolList s) (int threadID);
     Some (s\<lparr>tp_tmPoolList := (tp_tmPoolList s)[threadID := work w tmPool], tp_state := (tp_state s)(w := 1),
       tp_threads := (tp_threads s)[t := Waiting threadID], tp_log := tp_log s @ [(w, threadID)]\<rparr>) }"

inductive serve :: "(nat \<Rightarrow> mempool \<Rightarrow> mempool) \<Rightarrow> tpool \<Rightarrow> tpool \<Rightarrow> bool" for work where
  enter: "t < length (tp_threads s) \<Longrightarrow> tp_threads s ! t = Outside \<Longrightarrow> serve work s (svc_enter t s)"
| take: "t < length (tp_threads s) \<Longrightarrow> tp_threads s ! t = Waiting i \<Longrightarrow> svc_get t i s = Some s' \<Longrightarrow> serve work s s'"
| work: "t < length (tp_threads s) \<Longrightarrow> tp_threads s ! t = Working i w \<Longrightarrow> svc_work work t i w s = Some s' \<Longrightarrow> serve work s s'"

inductive pool_step :: "(nat \<Rightarrow> mempool \<Rightarrow> mempool) \<Rightarrow> tpool \<Rightarrow> tpool \<Rightarrow> bool" for work where
  thread: "serve work s s' \<Longrightarrow> pool_step work s s'"
| add: "w \<notin> set (tp_added s) \<Longrightarrow> pool_step work s (add_worker w s)"
| stop: "pool_step work s (s\<lparr>tp_task_list := flush (tp_task_list s)\<rparr>)"

fun wait_scan :: "(nat \<Rightarrow> u8) \<Rightarrow> nat list \<Rightarrow> nat list" where
  "wait_scan st [] = []"
| "wait_scan st (w # ws) = (if st w = 1 then wait_scan st ws else w # ws)"

fun wait_worker_done :: "(nat \<Rightarrow> nat \<Rightarrow> u8) \<Rightarrow> nat \<Rightarrow> nat \<Rightarrow> nat list \<Rightarrow> nat option" where
  "wait_worker_done obs k 0 ws = None"
| "wait_worker_done obs k (Suc n) ws =
     (if ws = [] then Some k
      else let ws' = wait_scan (obs k) ws in if ws' = [] then Some k else wait_worker_done obs (Suc k) n ws')"

definition is_worker_done :: "(nat \<Rightarrow> u8) \<Rightarrow> nat list \<Rightarrow> bool" where
  "is_worker_done st ws \<longleftrightarrow> (\<forall>w \<in> set ws. st w \<noteq> 0)"

text \<open>Specification. A run of a queue: \<open>Some x\<close> puts \<open>x\<close>, \<open>None\<close> takes one.\<close>

fun queue_run :: "('a \<Rightarrow> 'q \<Rightarrow> 'q) \<Rightarrow> ('q \<Rightarrow> ('a \<times> 'q) option) \<Rightarrow> 'a option list \<Rightarrow> 'q \<Rightarrow> ('a list \<times> 'q) option" where
  "queue_run push pop [] q = Some ([], q)"
| "queue_run push pop (Some x # os) q = queue_run push pop os (push x q)"
| "queue_run push pop (None # os) q = do {
     (x, q1) \<leftarrow> pop q;
     (out, q2) \<leftarrow> queue_run push pop os q1;
     Some (x # out, q2) }"

definition get_worker :: "waitlist \<Rightarrow> (nat \<times> waitlist) option" where
  "get_worker q = do { (r, q1) \<leftarrow> get q; w \<leftarrow> r; Some (w, q1) }"

text \<open>The chain of a list, in both directions, and the list a store represents.\<close>

fun fwd :: "(lref \<Rightarrow> lref) \<Rightarrow> lref \<Rightarrow> nat list \<Rightarrow> lref \<Rightarrow> bool" where
  "fwd nx a [] b \<longleftrightarrow> nx a = b"
| "fwd nx a (x # xs) b \<longleftrightarrow> nx a = LNode x \<and> fwd nx (LNode x) xs b"

fun bwd :: "(lref \<Rightarrow> lref) \<Rightarrow> lref \<Rightarrow> nat list \<Rightarrow> lref \<Rightarrow> bool" where
  "bwd pv a [] b \<longleftrightarrow> pv b = a"
| "bwd pv a (x # xs) b \<longleftrightarrow> pv (LNode x) = a \<and> bwd pv (LNode x) xs b"

definition rep :: "llist \<Rightarrow> nat list \<Rightarrow> bool" where
  "rep l xs \<longleftrightarrow> distinct xs \<and> fwd (ll_next l) LHead xs LHead \<and> bwd (ll_prev l) LHead xs LHead"

definition ll_items :: "llist \<Rightarrow> nat list" where
  "ll_items l = (THE xs. rep l xs)"

definition wl_ok :: "waitlist \<Rightarrow> bool" where
  "wl_ok q \<longleftrightarrow> rep (wl_list q) (ll_items (wl_list q)) \<and> wl_num q = int (length (ll_items (wl_list q)))"

definition wl_items :: "waitlist \<Rightarrow> nat list" where
  "wl_items q = rev (ll_items (wl_list q))"

text \<open>The workers that threads hold, the thread numbers in use, and what is left to do.\<close>

definition running :: "tpool \<Rightarrow> nat list" where
  "running s = List.map_filter (\<lambda>t. case t of Working i w \<Rightarrow> Some w | _ \<Rightarrow> None) (tp_threads s)"

definition thread_ids :: "tpool \<Rightarrow> nat list" where
  "thread_ids s = List.map_filter (\<lambda>t. case t of Waiting i \<Rightarrow> Some i | Working i w \<Rightarrow> Some i | _ \<Rightarrow> None) (tp_threads s)"

definition outside :: "tpool \<Rightarrow> nat list" where
  "outside s = List.map_filter (\<lambda>t. case t of Outside \<Rightarrow> Some 0 | _ \<Rightarrow> None) (tp_threads s)"

definition load :: "tpool \<Rightarrow> nat" where
  "load s = length (outside s) + 2 * length (wl_items (tp_task_list s)) + length (running s)"

definition done_by :: "nat \<Rightarrow> tpool \<Rightarrow> nat list" where
  "done_by i s = map fst (filter (\<lambda>(w, j). j = i) (tp_log s))"

definition pool_inv :: "(nat \<Rightarrow> mempool \<Rightarrow> mempool) \<Rightarrow> nat \<Rightarrow> (nat \<Rightarrow> mempool) \<Rightarrow> tpool \<Rightarrow> bool" where
  "pool_inv work N pools s \<longleftrightarrow> wl_ok (tp_task_list s) \<and> distinct (tp_added s) \<and>
     mset (tp_added s) = mset (wl_items (tp_task_list s)) + mset (running s) + mset (map fst (tp_log s)) \<and>
     distinct (thread_ids s) \<and> (\<forall>i \<in> set (thread_ids s). i < tp_threadID s) \<and> tp_threadID s + length (outside s) = N \<and>
     length (tp_threads s) = N \<and> (wl_alive (tp_task_list s) \<longrightarrow> Exited \<notin> set (tp_threads s)) \<and>
     (\<forall>w \<in> set (tp_added s). tp_state s w = (if w \<in> fst ` set (tp_log s) then 1 else 0)) \<and>
     tp_tmPoolList s = map (\<lambda>i. fold work (done_by i s) (pools i)) [0..<N]"

definition opt_mset :: "'a option \<Rightarrow> 'a multiset" where
  "opt_mset r = (case r of None \<Rightarrow> {#} | Some x \<Rightarrow> {#x#})"

definition demo_busy :: "(nat \<Rightarrow> mempool) \<Rightarrow> tpool" where
  "demo_busy pools = add_worker 5 (svc_enter 0 (tpool_open \<lparr>ll_next = id, ll_prev = id\<rparr> 1 pools (\<lambda>w. 0)))"

section \<open>Lemmas\<close>

subsection \<open>The pointer list\<close>

lemma LNode_mem [simp]: "LNode w \<in> LNode ` S \<longleftrightarrow> w \<in> S" "LHead \<notin> LNode ` S"
  by auto

lemma fwd_append: "fwd nx a (xs @ y # ys) b \<longleftrightarrow> fwd nx a xs (LNode y) \<and> fwd nx (LNode y) ys b"
  by (induction xs arbitrary: a) auto

lemma bwd_append: "bwd pv a (xs @ y # ys) b \<longleftrightarrow> bwd pv a xs (LNode y) \<and> bwd pv (LNode y) ys b"
  by (induction xs arbitrary: a) auto

lemma fwd_other: "c \<notin> insert a (LNode ` set xs) \<Longrightarrow> fwd (nx(c := d)) a xs b = fwd nx a xs b"
  by (induction xs arbitrary: a) auto

lemma bwd_other: "c \<notin> insert b (LNode ` set xs) \<Longrightarrow> bwd (pv(c := d)) a xs b = bwd pv a xs b"
  by (induction xs arbitrary: a) auto

lemma fwd_retarget:
  "fwd nx a xs b \<Longrightarrow> distinct (a # map LNode xs) \<Longrightarrow> fwd (nx(last (a # map LNode xs) := c)) a xs c"
proof (induction xs arbitrary: a)
  case (Cons x xs)
  have "a \<noteq> last (LNode x # map LNode xs)" using Cons.prems(2) by (metis distinct.simps(2) last_in_set list.distinct(1) list.simps(9))
  then show ?case using Cons by auto
qed simp

lemma bwd_source: "bwd pv a xs b \<Longrightarrow> pv b = last (a # map LNode xs)"
  by (induction xs arbitrary: a) auto

lemma last_ref: "last (LHead # map LNode ys) \<in> insert LHead (LNode ` set ys)"
  by (cases ys rule: rev_cases) auto

lemma distinct_refs: "distinct xs \<Longrightarrow> distinct (LHead # map LNode xs)"
  by (auto simp: distinct_map inj_on_def)

text \<open>Linking a node behind the last node of a prefix.\<close>

lemma rep_add_next:
  assumes "rep l (ys @ zs)" "w \<notin> set (ys @ zs)"
  shows "rep (add_next (LNode w) (last (LHead # map LNode ys)) l) (ys @ w # zs)"
proof -
  define cur where "cur = last (LHead # map LNode ys)"
  define t where "t = hd (map LNode zs @ [LHead])"
  have d: "distinct (ys @ zs)" using assms(1) by (simp add: rep_def)
  have cur: "cur \<noteq> LNode w" "cur \<notin> LNode ` set zs" "zs = [] \<or> t \<noteq> cur"
  proof -
    have c: "cur \<in> insert LHead (LNode ` set ys)" unfolding cur_def by (rule last_ref)
    show "cur \<noteq> LNode w" "cur \<notin> LNode ` set zs" using c assms(2) d by auto
    then show "zs = [] \<or> t \<noteq> cur" by (cases zs) (auto simp: t_def)
  qed
  have f: "fwd (ll_next l) LHead ys t" "zs \<noteq> [] \<Longrightarrow> fwd (ll_next l) (LNode (hd zs)) (tl zs) LHead"
    and b: "bwd (ll_prev l) LHead ys t" "zs \<noteq> [] \<Longrightarrow> bwd (ll_prev l) (LNode (hd zs)) (tl zs) LHead"
    using assms(1) by (cases zs; simp add: rep_def fwd_append bwd_append t_def)+
  have nc: "ll_next l cur = t"
  proof -
    have "fwd nx a xs r \<Longrightarrow> nx (last (a # map LNode xs)) = r" for nx a xs r by (induction xs arbitrary: a) auto
    then show ?thesis using f(1) by (simp add: cur_def)
  qed
  define nx where "nx = (ll_next l)(LNode w := t, cur := LNode w)"
  define pv where "pv = (ll_prev l)(t := LNode w, LNode w := cur)"
  have l: "add_next (LNode w) cur l = l\<lparr>ll_next := nx, ll_prev := pv\<rparr>" by (simp add: add_next_def Let_def nx_def pv_def nc)
  have "fwd nx LHead ys (LNode w)"
  proof -
    have "fwd ((ll_next l)(LNode w := t)) LHead ys t" using f(1) assms(2) by (subst fwd_other) auto
    then show ?thesis unfolding nx_def cur_def by (rule fwd_retarget) (use d distinct_refs [of ys] in simp)
  qed
  moreover have "fwd nx (LNode w) zs LHead"
    using f(2) cur assms(2) d by (cases zs) (auto simp: nx_def t_def fwd_other)
  ultimately have "fwd nx LHead (ys @ w # zs) LHead" by (simp add: fwd_append)
  moreover have "bwd pv LHead ys (LNode w)"
  proof -
    have "bwd p a xs t \<Longrightarrow> t \<notin> LNode ` set xs \<Longrightarrow> w \<notin> set xs \<Longrightarrow> bwd (p(t := LNode w, LNode w := last (a # map LNode xs))) a xs (LNode w)"
      for p a xs by (induction xs arbitrary: a) auto
    moreover have "t \<notin> LNode ` set ys" using d by (cases zs) (auto simp: t_def)
    ultimately show ?thesis using b(1) assms(2) by (simp add: pv_def cur_def)
  qed
  moreover have "bwd pv (LNode w) zs LHead"
    using b(2) assms(2) d by (cases zs) (auto simp: pv_def t_def bwd_other)
  ultimately show ?thesis unfolding cur_def [symmetric] l rep_def using d assms(2) by (auto simp: bwd_append)
qed

lemma rep_add: "rep l xs \<Longrightarrow> w \<notin> set xs \<Longrightarrow> rep (ll_add w l) (w # xs)"
proof -
  assume "rep l xs" "w \<notin> set xs"
  moreover have "ll_add w l = add_next (LNode w) LHead l" by (simp add: ll_add_def add_next_def Let_def)
  ultimately show ?thesis using rep_add_next [of l "[]" xs w] by simp
qed

lemma rep_del:
  assumes "rep l (ys @ w # zs)"
  shows "rep (ll_del w l) (ys @ zs)"
proof -
  define t where "t = hd (map LNode zs @ [LHead])"
  define p where "p = last (LHead # map LNode ys)"
  have d: "distinct (ys @ w # zs)" using assms by (simp add: rep_def)
  have f: "fwd (ll_next l) LHead ys (LNode w)" "fwd (ll_next l) (LNode w) zs LHead"
    and b: "bwd (ll_prev l) LHead ys (LNode w)" "bwd (ll_prev l) (LNode w) zs LHead"
    using assms by (auto simp: rep_def fwd_append bwd_append)
  have nw: "ll_next l (LNode w) = t" using f(2) by (cases zs) (auto simp: t_def)
  have pw: "ll_prev l (LNode w) = p" using bwd_source [OF b(1)] by (simp add: p_def)
  have t: "t \<noteq> LNode w" "t \<notin> LNode ` set ys" using d by (cases zs; auto simp: t_def)+
  have p: "p \<noteq> LNode w" "p \<notin> LNode ` set zs" 
  proof -
    have c: "p \<in> insert LHead (LNode ` set ys)" unfolding p_def by (rule last_ref)
    show "p \<noteq> LNode w" "p \<notin> LNode ` set zs" using c d by auto
  qed
  define nx where "nx = (ll_next l)(p := t)"
  define pv where "pv = (ll_prev l)(t := p)"
  have l: "ll_del w l = l\<lparr>ll_next := nx, ll_prev := pv\<rparr>" using t(1) by (simp add: ll_del_def Let_def nx_def pv_def nw pw)
  have f1: "fwd nx LHead ys t"
    unfolding nx_def p_def by (rule fwd_retarget [OF f(1)]) (use d distinct_refs [of ys] in simp)
  have b1: "bwd pv LHead ys t"
  proof -
    have "bwd q a xs r \<Longrightarrow> t \<notin> LNode ` set xs \<Longrightarrow> bwd (q(t := last (a # map LNode xs))) a xs t" for q a xs r
      by (induction xs arbitrary: a) auto
    then show ?thesis using b(1) t(2) by (simp add: pv_def p_def)
  qed
  have "fwd nx LHead (ys @ zs) LHead \<and> bwd pv LHead (ys @ zs) LHead"
  proof (cases zs)
    case Nil
    then show ?thesis using f1 b1 by (simp add: t_def)
  next
    case (Cons z zs')
    have "fwd nx (LNode z) zs' LHead" using f(2) p Cons by (simp add: nx_def fwd_other)
    moreover have "bwd pv (LNode z) zs' LHead" using b(2) d Cons by (auto simp: pv_def t_def bwd_other)
    ultimately show ?thesis using f1 b1 Cons by (simp add: t_def fwd_append bwd_append)
  qed
  then show ?thesis using d l by (simp add: rep_def)
qed

lemma rep_ends:
  assumes "rep l xs"
  shows "is_empty l \<longleftrightarrow> xs = []" "ll_prev l LHead = last (LHead # map LNode xs)"
  using assms bwd_source [of "ll_prev l" LHead xs LHead] by (cases xs; auto simp: rep_def is_empty_def)+

subsection \<open>The queue\<close>

locale fifo =
  fixes ok :: "'q \<Rightarrow> bool" and items :: "'q \<Rightarrow> 'a list" and push :: "'a \<Rightarrow> 'q \<Rightarrow> 'q" and pop :: "'q \<Rightarrow> ('a \<times> 'q) option"
  assumes push_ok: "ok q \<Longrightarrow> x \<notin> set (items q) \<Longrightarrow> ok (push x q) \<and> items (push x q) = items q @ [x]"
    and pop_empty: "ok q \<Longrightarrow> items q = [] \<Longrightarrow> pop q = None"
    and pop_first: "ok q \<Longrightarrow> items q = x # xs \<Longrightarrow> \<exists>q'. pop q = Some (x, q') \<and> ok q' \<and> items q' = xs"
begin

lemma run_fifo:
  "ok q \<Longrightarrow> distinct (items q @ List.map_filter id os) \<Longrightarrow> queue_run push pop os q = Some (out, q') \<Longrightarrow>
    ok q' \<and> out @ items q' = items q @ List.map_filter id os"
proof (induction os arbitrary: q out)
  case Nil
  then show ?case by (simp add: List.map_filter_simps)
next
  case (Cons a os)
  note IH = Cons.IH and prems = Cons.prems
  show ?case
  proof (cases a)
    case (Some x)
    have "ok (push x q) \<and> items (push x q) = items q @ [x]" using push_ok prems(1,2) Some by (simp add: List.map_filter_simps)
    then show ?thesis using IH [of "push x q" out] prems Some by (simp add: List.map_filter_simps)
  next
    case None
    show ?thesis
    proof (cases "items q")
      case Nil
      then show ?thesis using prems pop_empty None by simp
    next
      case (Cons x xs)
      obtain q1 where q1: "pop q = Some (x, q1)" "ok q1" "items q1 = xs" using pop_first [OF prems(1) Cons] by blast
      obtain out1 where "out = x # out1" "queue_run push pop os q1 = Some (out1, q')"
        using prems(3) q1(1) None by (auto split: Option.bind_splits)
      then show ?thesis using IH [of q1 out1] prems(2) q1 Cons None by (simp add: List.map_filter_simps)
    qed
  qed
qed

end

lemma fwd_unique: "fwd nx a xs LHead \<Longrightarrow> fwd nx a ys LHead \<Longrightarrow> xs = ys"
proof (induction xs arbitrary: a ys)
  case Nil
  then show ?case by (cases ys) auto
next
  case (Cons x xs)
  then show ?case by (cases ys) auto
qed

lemma rep_items: "rep l xs \<Longrightarrow> ll_items l = xs"
  unfolding ll_items_def by (rule the_equality) (auto simp: rep_def dest: fwd_unique)

lemma wl_okI: "rep (wl_list q) xs \<Longrightarrow> wl_num q = int (length xs) \<Longrightarrow> wl_ok q \<and> wl_items q = rev xs"
  by (simp add: wl_ok_def wl_items_def rep_items)

lemma wl_new: "wl_ok (waitlist_new g) \<and> wl_items (waitlist_new g) = []"
  using wl_okI [of "waitlist_new g" "[]"] by (simp add: waitlist_new_def rep_def ll_empty_def)

lemma put_ok: "wl_ok q \<Longrightarrow> wl_alive q \<Longrightarrow> w \<notin> set (wl_items q) \<Longrightarrow> wl_ok (put w q) \<and> wl_items (put w q) = wl_items q @ [w]"
  using wl_okI [of "put w q" "w # ll_items (wl_list q)"] rep_add [of "wl_list q" "ll_items (wl_list q)" w]
  by (simp add: put_def wl_ok_def wl_items_def)

lemma get_waits: "wl_ok q \<Longrightarrow> wl_alive q \<Longrightarrow> wl_items q = [] \<Longrightarrow> get q = None"
  using rep_ends [of "wl_list q"] by (auto simp: get_def get_at_def wl_ok_def wl_items_def)

lemma get_ok:
  assumes "wl_ok q" "wl_alive q" "wl_items q = w # ws"
  shows "\<exists>q'. get q = Some (Some w, q') \<and> wl_ok q' \<and> wl_alive q' \<and> wl_items q' = ws"
proof -
  have xs: "ll_items (wl_list q) = rev ws @ [w]" using assms(3) by (simp add: wl_items_def rev_eq_Cons_iff)
  have r: "rep (wl_list q) (rev ws @ [w])" using assms(1) xs by (simp add: wl_ok_def)
  define q' where "q' = q\<lparr>wl_list := ll_del w (wl_list q), wl_num := wl_num q - 1\<rparr>"
  have g: "get q = Some (Some w, q')" using rep_ends [OF r] assms(2) by (simp add: get_def get_at_def ll_entry_def q'_def)
  have "rep (wl_list q') (rev ws)" using rep_del [of "wl_list q" "rev ws" w "[]"] r by (simp add: q'_def)
  moreover have "wl_num q' = int (length (rev ws))" using assms(1) xs by (simp add: q'_def wl_ok_def)
  ultimately have "wl_ok q' \<and> wl_items q' = ws" using wl_okI [of q' "rev ws"] by simp
  then show ?thesis using g assms(2) by (auto simp: q'_def)
qed

interpretation wlq: fifo "\<lambda>q. wl_ok q \<and> wl_alive q" wl_items put get_worker
proof
  fix q x xs assume "wl_ok q \<and> wl_alive q" "wl_items q = x # xs"
  then show "\<exists>q'. get_worker q = Some (x, q') \<and> (wl_ok q' \<and> wl_alive q') \<and> wl_items q' = xs"
    using get_ok [of q x xs] by (auto simp: get_worker_def)
qed (use put_ok get_waits in \<open>auto simp: put_def get_worker_def\<close>)

subsection \<open>The pool\<close>

lemma mset_map_filter_upd:
  "t < length xs \<Longrightarrow> mset (List.map_filter f (xs[t := y])) + opt_mset (f (xs ! t)) = mset (List.map_filter f xs) + opt_mset (f y)"
proof (induction xs arbitrary: t)
  case (Cons x xs)
  show ?case
  proof (cases t)
    case 0
    then show ?thesis by (simp add: List.map_filter_simps opt_mset_def split: option.splits)
  next
    case (Suc m)
    then show ?thesis using Cons by (simp add: List.map_filter_simps split: option.splits)
  qed
qed simp

lemma threads_upd:
  assumes "t < length (tp_threads s)" "tp_threads s' = (tp_threads s)[t := y]"
  shows "mset (running s') + opt_mset (case tp_threads s ! t of Working i w \<Rightarrow> Some w | _ \<Rightarrow> None) =
      mset (running s) + opt_mset (case y of Working i w \<Rightarrow> Some w | _ \<Rightarrow> None)"
    "mset (thread_ids s') + opt_mset (case tp_threads s ! t of Waiting i \<Rightarrow> Some i | Working i w \<Rightarrow> Some i | _ \<Rightarrow> None) =
      mset (thread_ids s) + opt_mset (case y of Waiting i \<Rightarrow> Some i | Working i w \<Rightarrow> Some i | _ \<Rightarrow> None)"
    "mset (outside s') + opt_mset (case tp_threads s ! t of Outside \<Rightarrow> Some 0 | _ \<Rightarrow> None) =
      mset (outside s) + opt_mset (case y of Outside \<Rightarrow> Some 0 | _ \<Rightarrow> None)"
  unfolding running_def thread_ids_def outside_def assms(2) by (rule mset_map_filter_upd [OF assms(1)])+

lemma map_filter_mem: "t < length xs \<Longrightarrow> f (xs ! t) = Some y \<Longrightarrow> y \<in> set (List.map_filter f xs)"
  unfolding List.map_filter_def by (auto intro!: image_eqI [of _ _ "xs ! t"])

lemma pool_inv_open: "pool_inv work N pools (tpool_open g N pools st)"
proof -
  have e: "List.map_filter f (replicate n Outside) = (case f Outside of None \<Rightarrow> [] | Some y \<Rightarrow> replicate n y)" for f :: "tstate \<Rightarrow> 'b option" and n
    by (induction n) (simp_all add: List.map_filter_simps split: option.splits)
  show ?thesis
    using wl_new [of g] by (simp add: pool_inv_def tpool_open_def running_def thread_ids_def outside_def done_by_def e)
qed

lemma enter_inv:
  assumes "pool_inv work N pools s" "t < length (tp_threads s)" "tp_threads s ! t = Outside"
  shows "pool_inv work N pools (svc_enter t s) \<and> load (svc_enter t s) < load s"
proof -
  note I = assms(1) [unfolded pool_inv_def]
  define s' where "s' = svc_enter t s"
  have th: "tp_threads s' = (tp_threads s)[t := Waiting (tp_threadID s)]" by (simp add: s'_def svc_enter_def)
  note U = threads_upd [OF assms(2) th]
  have run: "mset (running s') = mset (running s)" and ids: "mset (thread_ids s') = add_mset (tp_threadID s) (mset (thread_ids s))"
    and out: "add_mset 0 (mset (outside s')) = mset (outside s)" using U assms(3) by (simp_all add: opt_mset_def)
  have ol: "length (outside s) = Suc (length (outside s'))" using arg_cong [OF out, of size] by simp
  have rl: "length (running s') = length (running s)" using arg_cong [OF run, of size] by simp
  have same: "tp_task_list s' = tp_task_list s" "tp_added s' = tp_added s" "tp_log s' = tp_log s" "tp_state s' = tp_state s"
    "tp_tmPoolList s' = tp_tmPoolList s" "tp_threadID s' = Suc (tp_threadID s)" "done_by i s' = done_by i s" for i
    by (simp_all add: s'_def svc_enter_def done_by_def)
  have "distinct (thread_ids s') \<and> set (thread_ids s') = insert (tp_threadID s) (set (thread_ids s))"
  proof -
    have "mset (thread_ids s') = mset (tp_threadID s # thread_ids s)" using ids by simp
    moreover have "distinct (tp_threadID s # thread_ids s)" using I by auto
    ultimately show ?thesis using mset_eq_imp_distinct_iff mset_eq_setD by (metis list.simps(15))
  qed
  moreover have "Exited \<in> set (tp_threads s') \<longrightarrow> Exited \<in> set (tp_threads s)" using set_update_subset_insert [of "tp_threads s" t] th by auto
  ultimately have "pool_inv work N pools s'" unfolding pool_inv_def same run using I ol th by auto
  then show ?thesis using ol rl same unfolding load_def s'_def [symmetric] by simp
qed

lemma get_worker_dead: "\<not> wl_alive q \<Longrightarrow> get q = Some (None, q)"
  by (simp add: get_def get_at_def)

lemma take_inv:
  assumes "pool_inv work N pools s" "t < length (tp_threads s)" "tp_threads s ! t = Waiting i" "svc_get t i s = Some s'"
  shows "pool_inv work N pools s' \<and> (wl_alive (tp_task_list s) \<longrightarrow> wl_alive (tp_task_list s') \<and> load s' < load s)"
proof -
  note I = assms(1) [unfolded pool_inv_def]
  obtain r q where q: "get (tp_task_list s) = Some (r, q)" using assms(4) by (auto simp: svc_get_def split: Option.bind_splits)
  define y where "y = (case r of None \<Rightarrow> Exited | Some w \<Rightarrow> Working i w)"
  have s': "s' = s\<lparr>tp_task_list := q, tp_threads := (tp_threads s)[t := y]\<rparr>" using assms(4) q by (simp add: svc_get_def y_def)
  have th: "tp_threads s' = (tp_threads s)[t := y]" by (simp add: s')
  note U = threads_upd [OF assms(2) th, unfolded assms(3)]
  have same: "tp_task_list s' = q" "tp_added s' = tp_added s" "tp_log s' = tp_log s" "tp_state s' = tp_state s"
    "tp_tmPoolList s' = tp_tmPoolList s" "tp_threadID s' = tp_threadID s" "done_by j s' = done_by j s" for j
    by (simp_all add: s' done_by_def)
  have ol: "length (outside s') = length (outside s)" using arg_cong [OF U(3), of size] by (simp add: y_def opt_mset_def split: option.splits)
  show ?thesis
  proof (cases "wl_alive (tp_task_list s)")
    case True
    obtain w ws where w: "wl_items (tp_task_list s) = w # ws"
      using get_waits [of "tp_task_list s"] q True I by (cases "wl_items (tp_task_list s)") auto
    have g: "r = Some w" "wl_ok q" "wl_alive q" "wl_items q = ws" using get_ok [OF _ True w] I q by auto
    have run: "mset (running s') = add_mset w (mset (running s))" and ids: "mset (thread_ids s') = mset (thread_ids s)"
      using U(1,2) g(1) by (simp_all add: y_def opt_mset_def)
    have "distinct (thread_ids s') \<and> set (thread_ids s') = set (thread_ids s)"
      using I mset_eq_imp_distinct_iff [OF ids] mset_eq_setD [OF ids] by simp
    moreover have "Exited \<notin> set (tp_threads s')"
      using I True th g(1) set_update_subset_insert [of "tp_threads s" t y] by (auto simp: y_def)
    moreover have "length (running s') = Suc (length (running s))" using arg_cong [OF run, of size] by simp
    ultimately show ?thesis
      using I w g(2-4) ol th unfolding pool_inv_def load_def same run by auto
  next
    case False
    then have g: "r = None" "q = tp_task_list s" using get_worker_dead q by auto
    have run: "mset (running s') = mset (running s)" and ids: "add_mset i (mset (thread_ids s')) = mset (thread_ids s)"
      using U(1,2) g(1) by (simp_all add: y_def opt_mset_def)
    have "mset (i # thread_ids s') = mset (thread_ids s)" using ids by simp
    then have "distinct (i # thread_ids s')" "set (thread_ids s') \<subseteq> set (thread_ids s)"
      using I mset_eq_imp_distinct_iff mset_eq_setD by (metis, metis list.set_intros(2) subsetI)
    then show ?thesis using I False ol th unfolding pool_inv_def same run g(2) by auto
  qed
qed

lemma work_inv:
  assumes "pool_inv work N pools s" "t < length (tp_threads s)" "tp_threads s ! t = Working i w"
  shows "\<exists>s'. svc_work work t i w s = Some s' \<and> pool_inv work N pools s' \<and> tp_task_list s' = tp_task_list s \<and> load s' < load s"
proof -
  note I = assms(1) [unfolded pool_inv_def]
  have "i \<in> set (thread_ids s)" unfolding thread_ids_def by (rule map_filter_mem [OF assms(2)]) (simp add: assms(3))
  then have i: "i < N" using I by (auto simp: Suc_le_eq intro: less_le_trans)
  have wr: "w \<in> set (running s)" unfolding running_def by (rule map_filter_mem [OF assms(2)]) (simp add: assms(3))
  define s' where "s' = s\<lparr>tp_tmPoolList := (tp_tmPoolList s)[i := work w (tp_tmPoolList s ! i)], tp_state := (tp_state s)(w := 1),
       tp_threads := (tp_threads s)[t := Waiting i], tp_log := tp_log s @ [(w, i)]\<rparr>"
  have len: "length (tp_tmPoolList s) = N" using I by simp
  have step: "svc_work work t i w s = Some s'" using i len by (simp add: svc_work_def s'_def)
  have th: "tp_threads s' = (tp_threads s)[t := Waiting i]" by (simp add: s'_def)
  note U = threads_upd [OF assms(2) th, unfolded assms(3)]
  have run: "add_mset w (mset (running s')) = mset (running s)" and ids: "mset (thread_ids s') = mset (thread_ids s)"
    using U(1,2) by (simp_all add: opt_mset_def)
  have ol: "length (outside s') = length (outside s)" using arg_cong [OF U(3), of size] by (simp add: opt_mset_def)
  have rl: "length (running s) = Suc (length (running s'))" using arg_cong [OF run, of size] by simp
  have same: "tp_task_list s' = tp_task_list s" "tp_added s' = tp_added s" "tp_log s' = tp_log s @ [(w, i)]" "tp_state s' = (tp_state s)(w := 1)"
    "tp_threadID s' = tp_threadID s" by (simp_all add: s'_def)
  have db: "done_by j s' = done_by j s @ (if j = i then [w] else [])" for j by (simp add: done_by_def same)
  have pools: "tp_tmPoolList s' = map (\<lambda>j. fold work (done_by j s') (pools j)) [0..<N]"
  proof (rule nth_equalityI)
    show "length (tp_tmPoolList s') = length (map (\<lambda>j. fold work (done_by j s') (pools j)) [0..<N])" by (simp add: s'_def len)
    fix j assume "j < length (tp_tmPoolList s')"
    then have j: "j < N" by (simp add: s'_def len)
    have old: "tp_tmPoolList s ! j = fold work (done_by j s) (pools j)" "tp_tmPoolList s ! i = fold work (done_by i s) (pools i)"
      using I i j by simp_all
    show "tp_tmPoolList s' ! j = map (\<lambda>j. fold work (done_by j s') (pools j)) [0..<N] ! j"
      using j len old by (cases "j = i") (simp_all add: s'_def [symmetric] db, simp_all add: s'_def)
  qed
  have d: "distinct (thread_ids s') \<and> set (thread_ids s') = set (thread_ids s)"
    using I mset_eq_imp_distinct_iff [OF ids] mset_eq_setD [OF ids] by simp
  have ms: "mset (tp_added s) = mset (wl_items (tp_task_list s)) + mset (running s') + mset (map fst (tp_log s @ [(w, i)]))"
    using I unfolding run [symmetric] by simp
  moreover have "Exited \<in> set (tp_threads s') \<longrightarrow> Exited \<in> set (tp_threads s)" using set_update_subset_insert [of "tp_threads s" t "Waiting i"] th by auto
  ultimately have "pool_inv work N pools s'"
    unfolding pool_inv_def same using I d ol th pools by auto
  then show ?thesis using step same(1) ol rl by (auto simp: load_def)
qed

lemma add_inv:
  assumes "pool_inv work N pools s" "w \<notin> set (tp_added s)"
  shows "pool_inv work N pools (add_worker w s)"
proof -
  note I = assms(1) [unfolded pool_inv_def]
  define s' where "s' = add_worker w s"
  have nl: "w \<notin> fst ` set (tp_log s)" "w \<notin> set (wl_items (tp_task_list s))"
  proof -
    have "set (tp_added s) = set (wl_items (tp_task_list s)) \<union> set (running s) \<union> fst ` set (tp_log s)"
      using I by (metis set_map set_mset_mset set_mset_union)
    then show "w \<notin> fst ` set (tp_log s)" "w \<notin> set (wl_items (tp_task_list s))" using assms(2) by auto
  qed
  have same: "tp_log s' = tp_log s" "tp_state s' = (tp_state s)(w := 0)" "tp_threadID s' = tp_threadID s" "tp_threads s' = tp_threads s"
    "tp_tmPoolList s' = tp_tmPoolList s" "done_by j s' = done_by j s" "running s' = running s" "thread_ids s' = thread_ids s" "outside s' = outside s" for j
    by (simp_all add: s'_def add_worker_def done_by_def running_def thread_ids_def outside_def)
  show ?thesis
  proof (cases "wl_alive (tp_task_list s)")
    case True
    have q: "wl_ok (tp_task_list s')" "wl_items (tp_task_list s') = wl_items (tp_task_list s) @ [w]" "tp_added s' = tp_added s @ [w]" "wl_alive (tp_task_list s')"
      using put_ok [OF _ True nl(2)] I True by (auto simp: s'_def add_worker_def put_def)
    show ?thesis unfolding s'_def [symmetric] pool_inv_def same q(2,3) using I assms(2) nl(1) q(1,4) True by auto
  next
    case False
    then have "tp_task_list s' = tp_task_list s" "tp_added s' = tp_added s" by (simp_all add: s'_def add_worker_def put_def)
    then show ?thesis unfolding s'_def [symmetric] pool_inv_def same using I assms(2) by auto
  qed
qed

lemma stop_inv: "pool_inv work N pools s \<Longrightarrow> pool_inv work N pools (s\<lparr>tp_task_list := flush (tp_task_list s)\<rparr>)"
  by (simp add: pool_inv_def flush_def wl_ok_def wl_items_def running_def thread_ids_def outside_def done_by_def)

lemma serve_inv:
  assumes "serve work s s'" "pool_inv work N pools s"
  shows "pool_inv work N pools s' \<and> (wl_alive (tp_task_list s) \<longrightarrow> wl_alive (tp_task_list s') \<and> load s' < load s) \<and> tp_added s' = tp_added s"
  using assms
proof (cases rule: serve.cases)
  case (enter t)
  then show ?thesis using enter_inv [OF assms(2)] by (auto simp: svc_enter_def)
next
  case (take t i)
  then show ?thesis using take_inv [OF assms(2)] by (auto simp: svc_get_def split: Option.bind_splits)
next
  case (work t i w)
  then show ?thesis using work_inv [OF assms(2) work(1,2)] by (auto simp: svc_work_def split: Option.bind_splits)
qed

lemma pool_reachable:
  "(pool_step work)\<^sup>*\<^sup>* (tpool_open g N pools st) s \<Longrightarrow> pool_inv work N pools s"
proof (induction rule: rtranclp_induct)
  case base
  then show ?case by (rule pool_inv_open)
next
  case (step s s')
  from step(2,3) show ?case
    by (cases rule: pool_step.cases) (auto simp: serve_inv add_inv stop_inv)
qed

lemma map_filter_distinct:
  "distinct (List.map_filter f xs) \<Longrightarrow> t < length xs \<Longrightarrow> u < length xs \<Longrightarrow> t \<noteq> u \<Longrightarrow> f (xs ! t) = Some a \<Longrightarrow> f (xs ! u) = Some b \<Longrightarrow> a \<noteq> b"
proof (induction xs arbitrary: t u)
  case (Cons x xs)
  show ?case
  proof (cases t; cases u)
    fix m assume "t = 0" "u = Suc m"
    then show ?thesis using Cons.prems map_filter_mem [of m xs f b] by (auto simp: List.map_filter_simps)
  next
    fix m assume "t = Suc m" "u = 0"
    then show ?thesis using Cons.prems map_filter_mem [of m xs f a] by (auto simp: List.map_filter_simps)
  next
    fix m k assume "t = Suc m" "u = Suc k"
    then show ?thesis using Cons.IH [of m k] Cons.prems by (auto simp: List.map_filter_simps split: option.splits)
  qed (use Cons.prems in simp)
qed simp

lemma serve_stuck:
  assumes I: "pool_inv work N pools s" and N: "0 < N" and a: "wl_alive (tp_task_list s)" and stuck: "\<nexists>s'. serve work s s'"
  shows "\<forall>w \<in> set (tp_added s). tp_state s w = 1"
proof -
  note J = I [unfolded pool_inv_def]
  have th: "\<exists>i. tp_threads s ! t = Waiting i" if "t < N" for t
  proof (cases "tp_threads s ! t")
    case Outside
    then show ?thesis using serve.enter [of t s work] that J stuck by auto
  next
    case (Working i w)
    then show ?thesis using work_inv [OF I, of t i w] serve.work [of t s i w work] that J stuck by auto
  next
    case Exited
    then show ?thesis using J a that by (metis nth_mem)
  qed auto
  then obtain i where i: "tp_threads s ! 0 = Waiting i" using N by blast
  have "wl_items (tp_task_list s) = []"
  proof (rule ccontr)
    assume "wl_items (tp_task_list s) \<noteq> []"
    then obtain w ws where "wl_items (tp_task_list s) = w # ws" by (cases "wl_items (tp_task_list s)") auto
    then obtain q where "get (tp_task_list s) = Some (Some w, q)" using get_ok [of "tp_task_list s" w ws] J a by blast
    then have "\<exists>s'. svc_get 0 i s = Some s'" by (simp add: svc_get_def)
    then show False using serve.take [of 0 s i _ work] i J N stuck by auto
  qed
  moreover have "running s = []"
  proof -
    have "\<exists>i. x = Waiting i" if "x \<in> set (tp_threads s)" for x using th J that by (metis in_set_conv_nth)
    then show ?thesis unfolding running_def List.map_filter_def by (fastforce simp: filter_empty_conv)
  qed
  ultimately have "mset (tp_added s) = mset (map fst (tp_log s))" using J by simp
  then have "set (tp_added s) = fst ` set (tp_log s)" by (metis mset_eq_setD set_map)
  then show ?thesis using J by auto
qed

lemma serve_run:
  assumes "(serve work ^^ n) s s'" "pool_inv work N pools s" "wl_alive (tp_task_list s)"
  shows "pool_inv work N pools s' \<and> wl_alive (tp_task_list s') \<and> load s' + n \<le> load s \<and> tp_added s' = tp_added s"
  using assms(1)
proof (induction n arbitrary: s')
  case (Suc n)
  then obtain s1 where "(serve work ^^ n) s s1" "serve work s1 s'" by auto
  then show ?case using Suc.IH [of s1] serve_inv [of work s1 s' N pools] by auto
qed (use assms in auto)

lemma serve_completes:
  assumes "pool_inv work N pools s" "0 < N" "wl_alive (tp_task_list s)"
  shows "\<exists>n s'. (serve work ^^ n) s s' \<and> (\<nexists>s''. serve work s' s'')"
  using assms(1,3)
proof (induction "load s" arbitrary: s rule: less_induct)
  case less
  show ?case
  proof (cases "\<exists>s1. serve work s s1")
    case True
    then obtain s1 where s1: "serve work s s1" by blast
    then obtain n s' where "(serve work ^^ n) s1 s'" "\<nexists>s''. serve work s' s''"
      using less serve_inv [OF s1 less.prems(1)] by blast
    then show ?thesis using relpowp_Suc_I2 [of "serve work", OF s1] by blast
  next
    case False
    then show ?thesis by (intro exI [of _ 0]) auto
  qed
qed

lemma wait_returns: "\<forall>w \<in> set ws. obs k w = 1 \<Longrightarrow> wait_worker_done obs k (Suc n) ws = Some k"
proof -
  assume "\<forall>w \<in> set ws. obs k w = 1"
  then have "wait_scan (obs k) ws = []" by (induction ws) auto
  then show ?thesis by simp
qed

lemma wait_scan_suffix: "\<exists>us. ws = us @ wait_scan st ws \<and> (\<forall>w \<in> set us. st w = 1)"
proof (induction ws)
  case (Cons w ws)
  then obtain us where "ws = us @ wait_scan st ws" "\<forall>w \<in> set us. st w = 1" by blast
  then have "st w = 1 \<longrightarrow> w # ws = (w # us) @ wait_scan st (w # ws) \<and> (\<forall>v \<in> set (w # us). st v = 1)" by simp
  then show ?case by (cases "st w = 1") (blast, auto)
qed simp

lemma wait_later: "wait_worker_done obs k n ws = Some m \<Longrightarrow> k \<le> m"
  by (induction obs k n ws rule: wait_worker_done.induct) (auto simp: Let_def split: if_splits)

text \<open>Waiting returns only when every worker has been seen done.\<close>

lemma wait_sound: "wait_worker_done obs k n ws = Some m \<Longrightarrow> w \<in> set ws \<Longrightarrow> \<exists>j. k \<le> j \<and> j \<le> m \<and> obs j w = 1"
proof (induction obs k n ws rule: wait_worker_done.induct)
  case (2 obs k n ws)
  obtain us where us: "ws = us @ wait_scan (obs k) ws" "\<forall>w \<in> set us. obs k w = 1" using wait_scan_suffix by blast
  show ?case
  proof (cases "w \<in> set us")
    case True
    then show ?thesis using us(2) wait_later [OF 2(2)] by blast
  next
    case False
    then have w: "w \<in> set (wait_scan (obs k) ws)" using us(1) 2(3) by (metis Un_iff set_append)
    then have "ws \<noteq> []" "wait_scan (obs k) ws \<noteq> []" by auto
    then have "\<exists>j \<ge> Suc k. j \<le> m \<and> obs j w = 1" using 2(1) [OF _ HOL.refl _ _ w] 2(2) by (auto simp: Let_def)
    then show ?thesis using Suc_leD by blast
  qed
qed simp

section \<open>Properties\<close>

text \<open>C10: under every interleaving of its threads and its client the pool is well formed: each worker that was added is in exactly
  one place (queued, held by one thread, or finished), so it runs at most once; two threads that work at the same time hold
  different workers and different memory pools, and the index of the memory pool is in range; a worker's state is 1 exactly when
  it is finished; and each memory pool is what the workers its thread finished made of it, one after the other.\<close>

theorem pool_well_formed:
  assumes "(pool_step work)\<^sup>*\<^sup>* (tpool_open g N pools st) s"
  shows "distinct (tp_added s) \<and>
    mset (tp_added s) = mset (wl_items (tp_task_list s)) + mset (running s) + mset (map fst (tp_log s)) \<and>
    (\<forall>t u i j w v. t < N \<and> u < N \<and> t \<noteq> u \<and> tp_threads s ! t = Working i w \<and> tp_threads s ! u = Working j v \<longrightarrow> i \<noteq> j \<and> w \<noteq> v) \<and>
    (\<forall>t i w. t < N \<and> tp_threads s ! t = Working i w \<longrightarrow> i < length (tp_tmPoolList s)) \<and>
    (\<forall>w \<in> set (tp_added s). tp_state s w = (if w \<in> fst ` set (tp_log s) then 1 else 0)) \<and>
    tp_tmPoolList s = map (\<lambda>i. fold work (done_by i s) (pools i)) [0..<N]"
proof -
  note I = pool_reachable [OF assms, unfolded pool_inv_def]
  have "distinct (wl_items (tp_task_list s) @ running s @ map fst (tp_log s))"
    using I mset_eq_imp_distinct_iff [of "tp_added s" "wl_items (tp_task_list s) @ running s @ map fst (tp_log s)"] by (simp add: add.assoc)
  then have run: "distinct (running s)" by simp
  have ids: "distinct (thread_ids s)" "length (tp_threads s) = N" using I by auto
  have "i \<noteq> j \<and> w \<noteq> v" if "t < N" "u < N" "t \<noteq> u" "tp_threads s ! t = Working i w" "tp_threads s ! u = Working j v" for t u i j w v
    using that map_filter_distinct [OF run [unfolded running_def], of t u w v] map_filter_distinct [OF ids(1) [unfolded thread_ids_def], of t u i j]
      ids(2) by simp
  moreover have "i < N" if "t < N" "tp_threads s ! t = Working i w" for t i w
  proof -
    have "i \<in> set (thread_ids s)" unfolding thread_ids_def by (rule map_filter_mem [of t]) (use that ids(2) in simp_all)
    then show ?thesis using I by (auto intro: less_le_trans)
  qed
  moreover have "length (tp_tmPoolList s) = N" using I by simp
  ultimately show ?thesis using I by blast
qed

text \<open>C12: as long as the pool is not stopped its threads finish the work. The threads of a pool with at least one thread take no more
  steps than \<open>load\<close> says before they all wait; when no thread can go on, every worker is done and \<open>wait_worker_done\<close> returns
  at its first look; and from every state on the way the threads can get there.\<close>

theorem pool_serves:
  assumes "(pool_step work)\<^sup>*\<^sup>* (tpool_open g N pools st) s" "0 < N" "wl_alive (tp_task_list s)" "(serve work ^^ n) s s'"
  shows "n \<le> load s \<and>
    ((\<nexists>u. serve work s' u) \<longrightarrow> is_worker_done (tp_state s') (tp_added s) \<and> wait_worker_done (\<lambda>k. tp_state s') 0 1 (tp_added s) = Some 0) \<and>
    (\<exists>m u. (serve work ^^ m) s' u \<and> (\<forall>w \<in> set (tp_added s). tp_state u w = 1))"
proof -
  note r = serve_run [OF assms(4) pool_reachable [OF assms(1)] assms(3)]
  have "(\<nexists>u. serve work s' u) \<longrightarrow> is_worker_done (tp_state s') (tp_added s) \<and> wait_worker_done (\<lambda>k. tp_state s') 0 1 (tp_added s) = Some 0"
    using serve_stuck [of work N pools s'] r assms(2) wait_returns [of "tp_added s" "\<lambda>k. tp_state s'" 0 0] by (auto simp: is_worker_done_def)
  moreover obtain m u where m: "(serve work ^^ m) s' u" "\<nexists>v. serve work u v"
    using serve_completes [of work N pools s'] r assms(2) by blast
  then have "\<forall>w \<in> set (tp_added s). tp_state u w = 1"
    using serve_stuck [of work N pools u] serve_run [OF m(1), of N pools] r assms(2) by auto
  ultimately show ?thesis using r m(1) by auto
qed

lemma demo_busy_reachable:
  "(pool_step work)\<^sup>*\<^sup>* (tpool_open \<lparr>ll_next = id, ll_prev = id\<rparr> 1 pools (\<lambda>w. 0)) (demo_busy pools)"
proof -
  let ?o = "tpool_open \<lparr>ll_next = id, ll_prev = id\<rparr> 1 pools (\<lambda>w. 0)"
  have "pool_step work ?o (svc_enter 0 ?o)" by (rule pool_step.thread, rule serve.enter) (simp_all add: tpool_open_def)
  moreover have "pool_step work (svc_enter 0 ?o) (demo_busy pools)"
    unfolding demo_busy_def by (rule pool_step.add) (simp add: tpool_open_def svc_enter_def)
  ultimately show ?thesis by (meson rtranclp.rtrancl_into_rtrancl rtranclp.rtrancl_refl)
qed

lemma demo_busy_vals: "tp_added (demo_busy pools) = [5]" "running (demo_busy pools) = []" "tp_log (demo_busy pools) = []" "wl_alive (tp_task_list (demo_busy pools))"
  by (simp_all add: demo_busy_def add_worker_def svc_enter_def tpool_open_def waitlist_new_def put_def running_def List.map_filter_simps)

theorem pool_well_formed_witness:
  "mset (wl_items (tp_task_list (demo_busy (\<lambda>i. ThreadMemPool_new (\<lambda>i. demo_spath) 0 2 1 1)))) = {#5#}"
  using pool_well_formed [OF demo_busy_reachable, of "\<lambda>i. ThreadMemPool_new (\<lambda>i. demo_spath) 0 2 1 1" "\<lambda>w p. p"]
    demo_busy_vals [of "\<lambda>i. ThreadMemPool_new (\<lambda>i. demo_spath) 0 2 1 1"] by simp

theorem pool_serves_witness:
  "\<exists>m u. (serve (\<lambda>w p. p) ^^ m) (demo_busy (\<lambda>i. ThreadMemPool_new (\<lambda>i. demo_spath) 0 2 1 1)) u \<and> tp_state u 5 = 1"
  using pool_serves [OF demo_busy_reachable zero_less_one demo_busy_vals(4), where n = 0] demo_busy_vals(1) by auto

text \<open>C13: the pointer operations of \<open>wait_list_t\<close> are a queue. After any sequence of \<open>put\<close>s of different nodes and \<open>get\<close>s that never
  waits, what was taken followed by what is still linked is what was put, in the order of the \<open>put\<close>s, and the counter is the number of
  linked nodes.\<close>

theorem wait_list_fifo:
  assumes "distinct (List.map_filter id os)" "queue_run put get_worker os (waitlist_new g) = Some (out, q)"
  shows "out @ wl_items q = List.map_filter id os \<and> wl_num q = int (length (wl_items q))"
proof -
  have "(wl_ok (waitlist_new g) \<and> wl_alive (waitlist_new g)) \<and> wl_items (waitlist_new g) = []" using wl_new [of g] by (simp add: waitlist_new_def)
  then have "(wl_ok q \<and> wl_alive q) \<and> out @ wl_items q = List.map_filter id os" using wlq.run_fifo [OF _ _ assms(2)] assms(1) by simp
  then show ?thesis by (auto simp: wl_ok_def wl_items_def)
qed

lemma demo_queue: "\<exists>q. queue_run put get_worker [Some 3, Some 4, None] (waitlist_new \<lparr>ll_next = id, ll_prev = id\<rparr>) = Some ([3], q)"
  by (simp add: waitlist_new_def ll_empty_def put_def ll_add_def get_worker_def get_def get_at_def is_empty_def ll_entry_def)

theorem wait_list_fifo_witness:
  "\<exists>q. queue_run put get_worker [Some 3, Some 4, None] (waitlist_new \<lparr>ll_next = id, ll_prev = id\<rparr>) = Some ([3], q) \<and> wl_items q = [4]"
  using demo_queue wait_list_fifo [of "[Some 3, Some 4, None]"] by (fastforce simp: List.map_filter_simps)

end
