(* ===== verification/TimeIR.thy ===== *)
theory TimeIR
  imports ToolFunc "HOL-Library.Char_ord" "HOL-Library.List_Lexorder"
begin

text \<open>
  Opening rules of places (Route/base/TimeIR.h and TimeIR.cpp). A rule text is a sequence of items
  \<open><dates><weekdays><times><kind>\<close> separated by \<open>|\<close>; the Chinese words in it are bytes of UTF-8.

  \<^item> \<open>find\<close> and \<open>rfind\<close> return -1 in an \<open>int\<close> when nothing is found; in the sums with \<open>length()\<close> it wraps to
    the values written out in \<open>getVecStrBetween\<close>.
  \<^item> \<open>getVecStrBetween\<close> may run for ever: \<open>None\<close>. Both callers pass strings of one character, so that no
    \<open>substr\<close> is out of range. \<open>None\<close> also stands for the undefined results of \<open>toTime\<close> and for a date text that
    is too short.
  \<^item> \<open>Date_rule\<close> may read uninitialised members: the parameter \<open>raw\<close>. Numbers are unbounded.
  \<^item> \<open>isTheDateAvailable\<close> reads a JSON value and is not modelled.

  The properties: on every well-formed rule text the result is the sorted list of the windows whose dates and
  weekdays contain the date; a rule that closes a place has no effect; an item that does not end with
  \<open>>\<close> makes the check run for ever.
\<close>

definition s_yue :: string where "s_yue = [CHR 0xE6, CHR 0x9C, CHR 0x88]"
definition s_ri :: string where "s_ri = [CHR 0xE6, CHR 0x97, CHR 0xA5]"
definition s_zhou :: string where "s_zhou = [CHR 0xE5, CHR 0x91, CHR 0xA8]"
definition s_allday :: string where "s_allday = [CHR 0xE5, CHR 0x85, CHR 0xA8, CHR 0xE5, CHR 0xA4, CHR 0xA9]"
definition s_closed :: string where
  "s_closed = [CHR 0xE4, CHR 0xB8, CHR 0x8D, CHR 0xE5, CHR 0xBC, CHR 0x80, CHR 0xE9, CHR 0x97, CHR 0xA8]"

record rule_node =
  rn_date_range :: "(int \<times> int) list"
  rn_week_range :: "(int \<times> int) list"
  rn_time_range :: "string list"
  rn_type :: int

definition str_rfind :: "string \<Rightarrow> string \<Rightarrow> nat option" where
  "str_rfind pat s =
     (let ps = filter (\<lambda>i. take (length pat) (drop i s) = pat) [0..<Suc (length s)] in
      if ps = [] then None else Some (last ps))"

section \<open>Splitting\<close>

function split_loop :: "string \<Rightarrow> string \<Rightarrow> string list" where
  "split_loop delim s =
     (if s = [] \<or> delim = [] then []
      else case str_find delim s of None \<Rightarrow> [s]
           | Some p \<Rightarrow> take p s # split_loop delim (drop (p + length delim) s))"
  by auto
termination
  by (relation "measure (\<lambda>(delim, s). length s)") auto

definition split :: "string \<Rightarrow> string \<Rightarrow> string list" where
  "split in_str delim = (if length in_str = 0 \<or> length delim = 0 then [] else split_loop delim in_str)"

partial_function (option) getVecStrBetween :: "char \<Rightarrow> char \<Rightarrow> string \<Rightarrow> string list \<Rightarrow> string list option"
  where [code]:
  "getVecStrBetween left right in_str out_vecstr =
     (let left_index = str_find [left] in_str; right_index = str_find [right] in_str;
          from = (case left_index of None \<Rightarrow> 0 | Some i \<Rightarrow> i + 1);
          cnt = (case right_index of None \<Rightarrow> length in_str | Some j \<Rightarrow> if j = 0 then length in_str else j - 1);
          out1 = out_vecstr @ [take cnt (drop from in_str)]
      in if (case right_index of None \<Rightarrow> in_str = [] | Some j \<Rightarrow> j + 1 = length in_str) then Some out1
         else getVecStrBetween left right (case right_index of None \<Rightarrow> in_str | Some j \<Rightarrow> drop (j + 1) in_str) out1)"

text \<open>\<open>rule.substr(0, rule.rfind(">") + 1)\<close>.\<close>

definition cut_rule :: "string \<Rightarrow> string" where
  "cut_rule rule = (case str_rfind ''>'' rule of None \<Rightarrow> [] | Some idx \<Rightarrow> take (idx + 1) rule)"

fun check_items :: "string list \<Rightarrow> bool option" where
  "check_items [] = Some True"
| "check_items (item # rest) = do {
     items \<leftarrow> getVecStrBetween (CHR ''<'') (CHR ''>'') item [];
     if 4 \<noteq> length items then Some False else check_items rest }"

definition CheckTimeRule :: "string \<Rightarrow> bool option" where
  "CheckTimeRule rule =
     (let rule_items = split (cut_rule rule) ''|'' in
      if length rule_items \<le> 0 then Some False else check_items rule_items)"

section \<open>One item\<close>

text \<open>The digits before \<open>key\<close>, read backwards.\<close>

fun data_loop :: "string \<Rightarrow> int \<Rightarrow> int \<Rightarrow> int" where
  "data_loop [] t date = date"
| "data_loop (c # cs) t date = (if is_digit c then data_loop cs (t * 10) (date + digit_val c * t) else date)"

definition getData :: "string \<Rightarrow> string \<Rightarrow> bool \<Rightarrow> int option" where
  "getData in_str key order =
     (case (if order then str_find key in_str else str_rfind key in_str) of
        None \<Rightarrow> None | Some index \<Rightarrow> Some (data_loop (rev (take index in_str)) 1 0))"

definition month_day :: "string \<Rightarrow> bool \<Rightarrow> int \<Rightarrow> int \<Rightarrow> int" where
  "month_day str order old dflt =
     (let m = (case getData str s_yue order of Some date_tmp \<Rightarrow> date_tmp * 100 | None \<Rightarrow> old)
      in m + (case getData str s_ri order of Some date_tmp \<Rightarrow> date_tmp | None \<Rightarrow> dflt))"

fun date_items :: "int \<times> int \<Rightarrow> string list \<Rightarrow> (int \<times> int) list" where
  "date_items tmp [] = []"
| "date_items tmp (str # rest) =
     (let tmp1 = (month_day str True (fst tmp) 1, month_day str False (snd tmp) 31) in tmp1 # date_items tmp1 rest)"

definition Date_rule :: "int \<times> int \<Rightarrow> string \<Rightarrow> rule_node \<Rightarrow> rule_node" where
  "Date_rule raw in_str rule =
     (if in_str = ''*'' then rule\<lparr>rn_date_range := rn_date_range rule @ [(101, 1231)]\<rparr>
      else rule\<lparr>rn_date_range := rn_date_range rule @ date_items raw (split in_str '','')\<rparr>)"

text \<open>\<open>stringstream >> int\<close> on one character: 0 when it is no digit.\<close>

definition string2int1 :: "char \<Rightarrow> int" where
  "string2int1 c = (if is_digit c then digit_val c else 0)"

definition week_no :: "string \<Rightarrow> nat option \<Rightarrow> int option" where
  "week_no str pos =
     (case pos of None \<Rightarrow> None
      | Some p \<Rightarrow> if p + length s_zhou + 1 \<le> length str then Some (string2int1 (str ! (p + length s_zhou))) else None)"

definition week_item :: "string \<Rightarrow> (int \<times> int) list" where
  "week_item str =
     (case (week_no str (str_find s_zhou str), week_no str (str_rfind s_zhou str)) of
        (Some s, Some e) \<Rightarrow> if s > e \<or> s > 7 \<or> s < 1 \<or> e > 7 \<or> e < 1 then [] else [(s, e)]
      | _ \<Rightarrow> [])"

definition Week_rule :: "string \<Rightarrow> rule_node \<Rightarrow> rule_node" where
  "Week_rule in_str rule =
     (if in_str = ''*'' then rule\<lparr>rn_week_range := rn_week_range rule @ [(1, 7)]\<rparr>
      else rule\<lparr>rn_week_range := rn_week_range rule @ concat (map week_item (split in_str '',''))\<rparr>)"

definition Time_rule :: "string \<Rightarrow> rule_node \<Rightarrow> rule_node" where
  "Time_rule in_str rule =
     (let new = (if in_str = ''*'' then [''00:00-24:00'']
                 else if in_str = s_allday then [''00:00-24:00'']
                 else if in_str = s_closed then ['''']
                 else split in_str '','')
      in rule\<lparr>rn_time_range := rn_time_range rule @ new\<rparr>)"

definition Type_rule :: "string \<Rightarrow> rule_node \<Rightarrow> rule_node" where
  "Type_rule in_str rule =
     (if in_str = ''SURE'' then rule\<lparr>rn_type := 1\<rparr>
      else if in_str = ''NOT_SURE'' then rule\<lparr>rn_type := 2\<rparr> else rule)"

section \<open>A date against the rules\<close>

definition getWeekByDate :: "string \<Rightarrow> int option" where
  "getWeekByDate in_date = do {
     tt \<leftarrow> toTime in_date 0;
     Some ((int (tm_wday (gmtime tt)) + 6) smod 7 + 1) }"

definition in_span :: "int \<times> int \<Rightarrow> int \<Rightarrow> bool" where
  "in_span r x = (if fst r \<le> snd r then fst r \<le> x \<and> x \<le> snd r else fst r \<le> x \<or> x \<le> snd r)"

definition Check_week :: "int \<times> int \<Rightarrow> string \<Rightarrow> bool option" where
  "Check_week week_range in_str = do { num_week \<leftarrow> getWeekByDate in_str; Some (in_span week_range num_week) }"

text \<open>Reading \<open>in_str[size()]\<close> gives the terminating zero; \<open>char\<close> is signed.\<close>

definition schar :: "char \<Rightarrow> int" where
  "schar c = (let n = of_char c in if n < 128 then n else n - 256)"

definition Check_date :: "int \<times> int \<Rightarrow> string \<Rightarrow> bool option" where
  "Check_date date_range in_str =
     (if length in_str < 7 then None
      else
        (let str_time = foldl (\<lambda>v c. v * 10 + (schar c - 48)) 0 (take 4 (drop 4 (in_str @ [CHR 0x00])))
         in Some (in_span date_range str_time)))"

definition time_text :: "string \<Rightarrow> string \<Rightarrow> string" where
  "time_text in_date t =
     (let index = str_find ''-'' t;
          s0 = (case index of None \<Rightarrow> t | Some i \<Rightarrow> take i t);
          s_time = (if length s0 < 5 then CHR ''0'' # s0 else s0);
          e0 = (case index of None \<Rightarrow> t | Some i \<Rightarrow> drop (i + 1) t);
          e_time = (if length e0 < 5 then CHR ''0'' # e0 else e0)
      in in_date @ ''_'' @ s_time @ ''-'' @ in_date @ ''_'' @ e_time)"

definition getOpenTimeRange :: "string list \<Rightarrow> string \<Rightarrow> string list \<Rightarrow> string list" where
  "getOpenTimeRange time_range in_date out_times =
     (if time_range = [] \<or> hd time_range = [] then out_times
      else sort (out_times @ map (time_text in_date) time_range))"

fun week_loop :: "string list \<Rightarrow> string \<Rightarrow> (int \<times> int) list \<Rightarrow> string list \<Rightarrow> string list option" where
  "week_loop ts in_date [] out_times = Some out_times"
| "week_loop ts in_date (w # ws) out_times = do {
     ok \<leftarrow> Check_week w in_date;
     week_loop ts in_date ws (if ok then getOpenTimeRange ts in_date out_times else out_times) }"

fun date_loop :: "rule_node \<Rightarrow> string \<Rightarrow> (int \<times> int) list \<Rightarrow> string list \<Rightarrow> string list option" where
  "date_loop node in_date [] out_times = Some out_times"
| "date_loop node in_date (d # ds) out_times = do {
     ok \<leftarrow> Check_date d in_date;
     out1 \<leftarrow> (if ok then week_loop (rn_time_range node) in_date (rn_week_range node) out_times else Some out_times);
     date_loop node in_date ds out1 }"

fun rule_loop :: "rule_node list \<Rightarrow> string \<Rightarrow> string list \<Rightarrow> string list option" where
  "rule_loop [] in_date out_times = Some out_times"
| "rule_loop (node # nodes) in_date out_times = do {
     out1 \<leftarrow> date_loop node in_date (rn_date_range node) out_times;
     rule_loop nodes in_date out1 }"

text \<open>The first loop; \<open>Inl\<close> when it returns with the default window.\<close>

fun parse_items :: "int \<times> int \<Rightarrow> int \<Rightarrow> string list \<Rightarrow> (unit + rule_node list) option" where
  "parse_items raw rawt [] = Some (Inr [])"
| "parse_items raw rawt (item # rest) = do {
     items \<leftarrow> getVecStrBetween (CHR ''<'') (CHR ''>'') item [];
     if 4 \<noteq> length items \<or> items ! 3 = ''NULL'' then Some (Inl ())
     else do {
       let node = Type_rule (items ! 3) (Time_rule (items ! 2) (Week_rule (items ! 1) (Date_rule raw (items ! 0)
         \<lparr>rn_date_range = [], rn_week_range = [], rn_time_range = [], rn_type = rawt\<rparr>)));
       r \<leftarrow> parse_items raw rawt rest;
       Some (map_sum id (\<lambda>nodes. node # nodes) r) } }"

definition getTheDateOpenTimeRange :: "int \<times> int \<Rightarrow> int \<Rightarrow> string \<Rightarrow> string \<Rightarrow> string list \<Rightarrow> string list option" where
  "getTheDateOpenTimeRange raw rawt rule in_date out_timesList = do {
     r \<leftarrow> parse_items raw rawt (split (cut_rule rule) ''|'');
     case r of Inl u \<Rightarrow> Some (out_timesList @ [in_date @ ''_08:00-'' @ in_date @ ''_20:00''])
     | Inr nodes \<Rightarrow> rule_loop nodes in_date out_timesList }"

text \<open>Specification. Abstract rules, their texts, and the windows they give on a date.\<close>

datatype adate = Day nat nat | Span nat nat nat nat | Month nat | Months nat nat
datatype atimes = AllDay | Closed | Hours "((nat \<times> nat) \<times> (nat \<times> nat)) list"

record arule =
  ar_dates :: "adate list option"
  ar_weeks :: "(nat \<times> nat) list option"
  ar_times :: atimes

fun date_text :: "adate \<Rightarrow> string" where
  "date_text (Day m d) = nat_str m @ s_yue @ nat_str d @ s_ri"
| "date_text (Span m d m' d') = nat_str m @ s_yue @ nat_str d @ s_ri @ ''-'' @ nat_str m' @ s_yue @ nat_str d' @ s_ri"
| "date_text (Month m) = nat_str m @ s_yue"
| "date_text (Months m m') = nat_str m @ s_yue @ ''-'' @ nat_str m' @ s_yue"

fun date_span :: "adate \<Rightarrow> int \<times> int" where
  "date_span (Day m d) = (int m * 100 + int d, int m * 100 + int d)"
| "date_span (Span m d m' d') = (int m * 100 + int d, int m' * 100 + int d')"
| "date_span (Month m) = (int m * 100 + 1, int m * 100 + 31)"
| "date_span (Months m m') = (int m * 100 + 1, int m' * 100 + 31)"

definition week_text :: "nat \<times> nat \<Rightarrow> string" where
  "week_text w = s_zhou @ [digit_char (fst w)] @ ''-'' @ s_zhou @ [digit_char (snd w)]"

definition clock_text :: "nat \<times> nat \<Rightarrow> string" where
  "clock_text t = pad2 (fst t) @ '':'' @ pad2 (snd t)"

fun joined :: "char \<Rightarrow> string list \<Rightarrow> string" where
  "joined c [] = []"
| "joined c [x] = x"
| "joined c (x # y # xs) = x @ c # joined c (y # xs)"

definition hours_text :: "(nat \<times> nat) \<times> (nat \<times> nat) \<Rightarrow> string" where
  "hours_text h = clock_text (fst h) @ ''-'' @ clock_text (snd h)"

fun times_text :: "atimes \<Rightarrow> string" where
  "times_text AllDay = s_allday"
| "times_text Closed = s_closed"
| "times_text (Hours hs) = joined (CHR '','') (map hours_text hs)"

definition dates_text :: "adate list option \<Rightarrow> string" where
  "dates_text ds = (case ds of None \<Rightarrow> ''*'' | Some ds \<Rightarrow> joined (CHR '','') (map date_text ds))"

definition weeks_text :: "(nat \<times> nat) list option \<Rightarrow> string" where
  "weeks_text ws = (case ws of None \<Rightarrow> ''*'' | Some ws \<Rightarrow> joined (CHR '','') (map week_text ws))"

definition rule_text :: "arule \<Rightarrow> string" where
  "rule_text r = ''<'' @ dates_text (ar_dates r) @ ''><'' @ weeks_text (ar_weeks r) @ ''><'' @ times_text (ar_times r) @ ''><SURE>''"

definition rules_text :: "arule list \<Rightarrow> string" where
  "rules_text rs = joined (CHR ''|'') (map rule_text rs)"

definition arule_ok :: "arule \<Rightarrow> bool" where
  "arule_ok r \<longleftrightarrow> (\<forall>ws. ar_weeks r = Some ws \<longrightarrow> (\<forall>(a, b) \<in> set ws. 1 \<le> a \<and> a \<le> b \<and> b \<le> 7))"

definition spans_of :: "arule \<Rightarrow> (int \<times> int) list" where
  "spans_of r = (case ar_dates r of None \<Rightarrow> [(101, 1231)] | Some ds \<Rightarrow> map date_span ds)"

definition weeks_of :: "arule \<Rightarrow> (int \<times> int) list" where
  "weeks_of r = (case ar_weeks r of None \<Rightarrow> [(1, 7)] | Some ws \<Rightarrow> map (\<lambda>(a, b). (int a, int b)) ws)"

definition window :: "string \<Rightarrow> string \<Rightarrow> string \<Rightarrow> string" where
  "window date s e = date @ ''_'' @ s @ ''-'' @ date @ ''_'' @ e"

fun windows_of :: "string \<Rightarrow> atimes \<Rightarrow> string list" where
  "windows_of date AllDay = [window date ''00:00'' ''24:00'']"
| "windows_of date Closed = []"
| "windows_of date (Hours hs) = map (\<lambda>h. window date (clock_text (fst h)) (clock_text (snd h))) hs"

definition rule_windows :: "string \<Rightarrow> int \<Rightarrow> int \<Rightarrow> arule \<Rightarrow> string list" where
  "rule_windows date md wd r =
     concat (map (\<lambda>span. concat (map (\<lambda>week. windows_of date (ar_times r)) (filter (\<lambda>w. in_span w wd) (weeks_of r))))
       (filter (\<lambda>s. in_span s md) (spans_of r)))"

definition date_str :: "nat \<Rightarrow> nat \<Rightarrow> nat \<Rightarrow> string" where
  "date_str y m d = nat_str y @ pad2 m @ pad2 d"

definition weekday :: "nat \<Rightarrow> nat \<Rightarrow> nat \<Rightarrow> int" where
  "weekday y m d = (int (civil_days (int y) m d) + 3) mod 7 + 1"

text \<open>No text contains a separator.\<close>

definition seps :: "char set" where
  "seps = {CHR '','', CHR ''<'', CHR ''>'', CHR ''|''}"

definition node_of :: "int \<times> int \<Rightarrow> int \<Rightarrow> arule \<Rightarrow> rule_node" where
  "node_of raw rawt r = Type_rule ''SURE'' (Time_rule (times_text (ar_times r)) (Week_rule (weeks_text (ar_weeks r))
     (Date_rule raw (dates_text (ar_dates r))
       \<lparr>rn_date_range = [], rn_week_range = [], rn_time_range = [], rn_type = rawt\<rparr>)))"

definition demo_open :: arule where
  "demo_open = \<lparr>ar_dates = Some [Months 1 5, Months 10 12], ar_weeks = Some [(2, 6)], ar_times = Hours [((10, 0), (12, 30)), ((14, 0), (18, 30))]\<rparr>"

definition demo_closed :: arule where
  "demo_closed = \<lparr>ar_dates = Some [Day 1 1, Day 5 1, Day 12 25], ar_weeks = None, ar_times = Closed\<rparr>"

section \<open>Lemmas\<close>

declare split_loop.simps [simp del]

subsection \<open>Splitting\<close>

lemma split_loop_joined:
  "\<forall>x \<in> set xs. x \<noteq> [] \<and> c \<notin> set x \<Longrightarrow> split_loop [c] (joined c xs) = xs"
proof (induction c xs rule: joined.induct)
  case (2 c x)
  then show ?case by (subst split_loop.simps) (simp add: str_find_char_None [THEN iffD2])
next
  case (3 c x y xs)
  then show ?case by (subst split_loop.simps) (simp add: str_find_char_append)
qed (simp add: split_loop.simps)

lemma split_joined: "\<forall>x \<in> set xs. x \<noteq> [] \<and> c \<notin> set x \<Longrightarrow> split (joined c xs) [c] = xs"
proof (cases "joined c xs = []")
  case True
  assume "\<forall>x \<in> set xs. x \<noteq> [] \<and> c \<notin> set x"
  then have "xs = []" using True by (cases "(c, xs)" rule: joined.cases) auto
  then show ?thesis by (simp add: split_def)
qed (simp add: split_def split_loop_joined)

text \<open>One bracketed part.\<close>

lemma between_part:
  assumes "l \<notin> set x" "r \<notin> set x" "l \<noteq> r"
  shows "getVecStrBetween l r (l # x @ [r]) out = Some (out @ [x])"
    "rest \<noteq> [] \<Longrightarrow> getVecStrBetween l r (l # x @ r # rest) out = getVecStrBetween l r rest (out @ [x])"
proof -
  have f: "str_find [r] (l # x @ r # rest) = Some (Suc (length x))" "str_find [l] (l # x @ r # rest) = Some 0" for rest
    using assms str_find_char_append [of r "l # x"] by auto
  show "getVecStrBetween l r (l # x @ [r]) out = Some (out @ [x])"
    "rest \<noteq> [] \<Longrightarrow> getVecStrBetween l r (l # x @ r # rest) out = getVecStrBetween l r rest (out @ [x])"
    by (subst (1) getVecStrBetween.simps, simp add: f Let_def del: str_find.simps)+
qed

text \<open>The loop ends exactly on the texts that are empty or end with the closing bracket.\<close>

lemma between_returns_only:
  assumes "getVecStrBetween l r s out = Some y"
  shows "s = [] \<or> last s = r"
proof (rule getVecStrBetween.raw_induct [where P = "\<lambda>l r s out y. s = [] \<or> last s = r", OF _ assms])
  fix f :: "char \<Rightarrow> char \<Rightarrow> string \<Rightarrow> string list \<Rightarrow> string list option" and l r s out y
  assume IH: "\<And>l r s out y. f l r s out = Some y \<Longrightarrow> s = [] \<or> last s = r"
    and eq: "(let left_index = str_find [l] s; right_index = str_find [r] s;
          from = (case left_index of None \<Rightarrow> 0 | Some i \<Rightarrow> i + 1);
          cnt = (case right_index of None \<Rightarrow> length s | Some j \<Rightarrow> if j = 0 then length s else j - 1);
          out1 = out @ [take cnt (drop from s)]
      in if (case right_index of None \<Rightarrow> s = [] | Some j \<Rightarrow> j + 1 = length s) then Some out1
         else f l r (case right_index of None \<Rightarrow> s | Some j \<Rightarrow> drop (j + 1) s) out1) = Some y"
  show "s = [] \<or> last s = r"
  proof (cases "str_find [r] s")
    case None
    show ?thesis
    proof (cases "s = []")
      case False
      then obtain out1 where "f l r s out1 = Some y" using eq None by (auto simp: Let_def)
      then show ?thesis by (rule IH)
    qed simp
  next
    case (Some j)
    have j: "j + 1 \<le> length s" "take 1 (drop j s) = [r]" using str_find_Some [OF Some] by auto
    show ?thesis
    proof (cases "j + 1 = length s")
      case True
      then have "drop j s = [r]" using j(2) by simp
      then show ?thesis by (metis append_take_drop_id last_snoc)
    next
      case False
      then obtain out1 where "f l r (drop (j + 1) s) out1 = Some y" using eq Some by (auto simp: Let_def)
      then have "drop (j + 1) s = [] \<or> last (drop (j + 1) s) = r" by (rule IH)
      then show ?thesis using False j(1) by (simp add: last_drop)
    qed
  qed
qed

lemma between_returns:
  assumes "s = [] \<or> last s = r"
  shows "\<exists>y. getVecStrBetween l r s out = Some y"
  using assms
proof (induction "length s" arbitrary: s out rule: less_induct)
  case less
  show ?case
  proof (cases "str_find [r] s")
    case None
    then have "s = []" using less.prems str_find_char_None [of r s] by (metis last_in_set)
    then show ?thesis by (subst getVecStrBetween.simps) (simp add: Let_def)
  next
    case (Some j)
    have j: "j + 1 \<le> length s" using str_find_Some [OF Some] by auto
    show ?thesis
    proof (cases "j + 1 = length s")
      case True
      then show ?thesis using Some by (subst getVecStrBetween.simps) (simp add: Let_def)
    next
      case False
      then have "drop (j + 1) s = [] \<or> last (drop (j + 1) s) = r" using less.prems j by (auto simp: last_drop)
      then have "\<exists>y. getVecStrBetween l r (drop (j + 1) s) out' = Some y" for out' using less.hyps j by simp
      then show ?thesis using Some False by (subst getVecStrBetween.simps) (simp add: Let_def)
    qed
  qed
qed

lemma check_items_returns: "\<forall>item \<in> set items. last item = CHR ''>'' \<Longrightarrow> \<exists>b. check_items items = Some b"
proof (induction items)
  case (Cons item items)
  obtain y where "getVecStrBetween (CHR ''<'') (CHR ''>'') item [] = Some y" 
    using between_returns [of item "CHR ''>''" "CHR ''<''" "[]"] Cons.prems by auto
  then show ?case using Cons by auto
qed auto

lemma check_items_hangs:
  "check_items good = Some True \<Longrightarrow> bad \<noteq> [] \<Longrightarrow> last bad \<noteq> CHR ''>'' \<Longrightarrow> check_items (good @ bad # rest) = None"
proof (induction good)
  case Nil
  then have "getVecStrBetween (CHR ''<'') (CHR ''>'') bad [] = None"
    using between_returns_only [of "CHR ''<''" "CHR ''>''" bad "[]"] by (cases "getVecStrBetween (CHR ''<'') (CHR ''>'') bad []") auto
  then show ?case by simp
next
  case (Cons item good)
  then show ?case by (cases "getVecStrBetween (CHR ''<'') (CHR ''>'') item []") (auto split: if_splits)
qed

text \<open>C31: \<open>TimeIR::CheckTimeRule\<close> does not return for some texts: when an item of the rule is not empty and does
  not end with \<open>>\<close>, and the items before it have four parts, the loop of \<open>getVecStrBetween\<close> repeats for
  ever. It returns for every text whose items all end with \<open>>\<close>.\<close>

theorem CheckTimeRule_returns:
  assumes "items = split (cut_rule rule) ''|''"
  shows "((\<forall>item \<in> set items. last item = CHR ''>'') \<longrightarrow> (\<exists>b. CheckTimeRule rule = Some b)) \<and>
    (\<forall>good bad rest. items = good @ bad # rest \<and> check_items good = Some True \<and> bad \<noteq> [] \<and> last bad \<noteq> CHR ''>'' \<longrightarrow>
      CheckTimeRule rule = None)"
proof (intro conjI allI impI)
  assume "\<forall>item \<in> set items. last item = CHR ''>''"
  then have "\<exists>b. check_items items = Some b" by (rule check_items_returns)
  then show "\<exists>b. CheckTimeRule rule = Some b" using assms by (auto simp: CheckTimeRule_def Let_def)
next
  fix good bad rest
  assume a: "items = good @ bad # rest \<and> check_items good = Some True \<and> bad \<noteq> [] \<and> last bad \<noteq> CHR ''>''"
  then have "check_items items = None" using check_items_hangs [of good bad rest] by simp
  then show "CheckTimeRule rule = None" using assms a by (auto simp: CheckTimeRule_def Let_def)
qed

theorem CheckTimeRule_returns_witness: "CheckTimeRule ''a|<b>'' = None"
proof -
  have "cut_rule ''a|<b>'' = ''a|<b>''" by (simp add: cut_rule_def str_rfind_def)
  then have "split (cut_rule ''a|<b>'') ''|'' = [''a'', ''<b>'']"
    using split_joined [of "[''a'', ''<b>'']" "CHR ''|''"] by simp
  then show ?thesis
    using CheckTimeRule_returns [OF refl, of "''a|<b>''", THEN conjunct2, rule_format, of "[]" "''a''" "[''<b>'']"] by simp
qed

subsection \<open>The parts of an item\<close>

text \<open>Keys of three bytes, found by their second byte.\<close>

lemma str_find_key:
  "y \<notin> set a \<Longrightarrow> x \<noteq> y \<Longrightarrow> str_find [x, y, z] (a @ x # y # z # r) = Some (length a)"
proof (induction a)
  case (Cons c a)
  then show ?case by (cases a) auto
qed simp

lemma str_find_key_None: "y \<notin> set s \<Longrightarrow> str_find [x, y, z] s = None"
proof (induction s)
  case (Cons c s)
  then show ?case by (cases s) auto
qed simp

lemma str_rfind_Some:
  assumes "take (length pat) (drop n s) = pat" "n \<le> length s" "\<And>i. n < i \<Longrightarrow> i \<le> length s \<Longrightarrow> take (length pat) (drop i s) \<noteq> pat"
  shows "str_rfind pat s = Some n"
proof -
  define P where "P = (\<lambda>i. take (length pat) (drop i s) = pat)"
  have e: "[0..<Suc (length s)] = [0..<n] @ n # [Suc n..<Suc (length s)]"
    using assms(2) upt_add_eq_append [of 0 n "Suc (length s) - n"] by (simp add: upt_conv_Cons del: upt_Suc)
  have "\<not> P i" if "i \<in> set [Suc n..<Suc (length s)]" for i using that assms(3) [of i] by (auto simp: P_def)
  then have "filter P [Suc n..<Suc (length s)] = []" by (simp add: filter_empty_conv del: upt_Suc)
  then have "filter P [0..<Suc (length s)] = filter P [0..<n] @ [n]" unfolding e using assms(1) by (simp add: P_def)
  then show ?thesis by (simp add: str_rfind_def P_def [symmetric] Let_def)
qed

lemma str_rfind_key:
  assumes "y \<notin> set r" "z \<noteq> y"
  shows "str_rfind [x, y, z] (a @ x # y # z # r) = Some (length a)"
proof (rule str_rfind_Some)
  fix i assume i: "length a < i" "i \<le> length (a @ x # y # z # r)"
  then have "drop i (a @ x # y # z # r) = drop (i - length a - 1) (y # z # r)"
    by (cases "i - length a") auto
  moreover have "take 3 (drop k (y # z # r)) \<noteq> [x, y, z]" for k
  proof
    assume t: "take 3 (drop k (y # z # r)) = [x, y, z]"
    then have "drop k (y # z # r) = x # y # z # drop 3 (drop k (y # z # r))" by (metis append_Cons append_Nil append_take_drop_id)
    then have "drop (Suc k) (y # z # r) = y # z # drop 3 (drop k (y # z # r))" by (metis drop_Suc list.sel(3) tl_drop)
    then have "y \<in> set (drop k (z # r))" by (simp only: drop_Suc_Cons list.set_intros)
    then have "y \<in> set (z # r)" by (rule in_set_dropD)
    then show False using assms by auto
  qed
  ultimately show "take (length [x, y, z]) (drop i (a @ x # y # z # r)) \<noteq> [x, y, z]" by (simp add: numeral_3_eq_3)
qed auto

lemma str_rfind_key_None: "y \<notin> set s \<Longrightarrow> str_rfind [x, y, z] s = None"
proof -
  assume y: "y \<notin> set s"
  have "take 3 (drop i s) \<noteq> [x, y, z]" for i
  proof
    assume "take 3 (drop i s) = [x, y, z]"
    then have "y \<in> set (take 3 (drop i s))" by simp
    then show False using y by (meson in_set_dropD in_set_takeD)
  qed
  then show ?thesis by (simp add: str_rfind_def filter_empty_conv numeral_3_eq_3)
qed

lemma data_loop_digits:
  assumes "\<forall>c \<in> set ds. is_digit c" "a = [] \<or> \<not> is_digit (last a)"
  shows "data_loop (rev (a @ ds)) t v = v + t * digits_val ds"
  using assms
proof (induction ds arbitrary: t v rule: rev_induct)
  case Nil
  then show ?case by (cases a rule: rev_cases) (auto simp: digits_val_def)
next
  case (snoc c ds)
  have "digits_val [c] = digit_val c" by (simp add: digits_val_def)
  then show ?case using snoc by (simp add: digits_val_append algebra_simps)
qed

text \<open>Bytes of the texts.\<close>

lemmas key_defs3 = s_yue_def s_ri_def s_zhou_def

lemma nat_str_bytes:
  "CHR 0x9C \<notin> set (nat_str n)" "CHR 0x97 \<notin> set (nat_str n)" "CHR 0x91 \<notin> set (nat_str n)"
  "CHR '','' \<notin> set (nat_str n)" "CHR ''<'' \<notin> set (nat_str n)" "CHR ''>'' \<notin> set (nat_str n)" "CHR ''|'' \<notin> set (nat_str n)"
  "CHR ''*'' \<notin> set (nat_str n)"
proof -
  have "c \<notin> set (nat_str n)" if "\<not> is_digit c" for c using that nat_str_digits [of n] by auto
  then show "CHR 0x9C \<notin> set (nat_str n)" "CHR 0x97 \<notin> set (nat_str n)" "CHR 0x91 \<notin> set (nat_str n)"
    "CHR '','' \<notin> set (nat_str n)" "CHR ''<'' \<notin> set (nat_str n)" "CHR ''>'' \<notin> set (nat_str n)" "CHR ''|'' \<notin> set (nat_str n)"
    "CHR ''*'' \<notin> set (nat_str n)"
    by (simp_all add: is_digit_def)
qed

lemma getData_nat:
  assumes "str = a @ nat_str n @ key @ r" "a = [] \<or> \<not> is_digit (last a)"
    and "(if order then str_find key str else str_rfind key str) = Some (length (a @ nat_str n))"
  shows "getData str key order = Some (int n)"
proof -
  have "take (length (a @ nat_str n)) str = a @ nat_str n" using assms(1) by simp
  then show ?thesis
    using data_loop_digits [OF nat_str_digits assms(2), of n 1 0] by (simp add: getData_def assms(3) del: length_append rev_append)
qed

lemma getData_find:
  "y \<notin> set a \<Longrightarrow> y \<notin> set (nat_str n) \<Longrightarrow> x \<noteq> y \<Longrightarrow> a = [] \<or> \<not> is_digit (last a) \<Longrightarrow>
    getData (a @ nat_str n @ x # y # z # r) [x, y, z] True = Some (int n)"
  using str_find_key [of y "a @ nat_str n" x z r] by (intro getData_nat [where a = a and r = r]) auto

lemma getData_rfind:
  "y \<notin> set r \<Longrightarrow> z \<noteq> y \<Longrightarrow> a = [] \<or> \<not> is_digit (last a) \<Longrightarrow>
    getData (a @ nat_str n @ x # y # z # r) [x, y, z] False = Some (int n)"
  using str_rfind_key [of y r z x "a @ nat_str n"] by (intro getData_nat [where a = a and r = r]) auto

lemma getData_None: "y \<notin> set s \<Longrightarrow> getData s [x, y, z] order = None"
  using str_find_key_None [of y s x z] str_rfind_key_None [of y s x z] by (simp add: getData_def)

lemma not_digit_bytes: "\<not> is_digit (CHR 0x88)" "\<not> is_digit (CHR ''-'')"
  by (auto simp: is_digit_def)

lemma month_day_text:
  "month_day (date_text a) True old 1 = fst (date_span a)" "month_day (date_text a) False old 31 = snd (date_span a)"
proof -
  note ks = key_defs3 nat_str_bytes not_digit_bytes month_day_def Let_def
  have "month_day (date_text a) True old 1 = fst (date_span a) \<and> month_day (date_text a) False old 31 = snd (date_span a)"
  proof (cases a)
    case (Day m d)
    have "getData (date_text a) s_yue True = Some (int m)" "getData (date_text a) s_yue False = Some (int m)"
      using getData_find [of "CHR 0x9C" "[]" m "CHR 0xE6" "CHR 0x88" "nat_str d @ s_ri"]
        getData_rfind [of "CHR 0x9C" "nat_str d @ s_ri" "CHR 0x88" "[]" m "CHR 0xE6"] by (simp_all add: Day ks)
    moreover have "getData (date_text a) s_ri True = Some (int d)" "getData (date_text a) s_ri False = Some (int d)"
      using getData_find [of "CHR 0x97" "nat_str m @ s_yue" d "CHR 0xE6" "CHR 0xA5" "[]"]
        getData_rfind [of "CHR 0x97" "[]" "CHR 0xA5" "nat_str m @ s_yue" d "CHR 0xE6"] by (simp_all add: Day ks)
    ultimately show ?thesis by (simp add: Day month_day_def)
  next
    case (Span m d m' d')
    have "getData (date_text a) s_yue True = Some (int m)" "getData (date_text a) s_yue False = Some (int m')"
      using getData_find [of "CHR 0x9C" "[]" m "CHR 0xE6" "CHR 0x88" "nat_str d @ s_ri @ ''-'' @ nat_str m' @ s_yue @ nat_str d' @ s_ri"]
        getData_rfind [of "CHR 0x9C" "nat_str d' @ s_ri" "CHR 0x88" "nat_str m @ s_yue @ nat_str d @ s_ri @ ''-''" m' "CHR 0xE6"]
      by (simp_all add: Span ks)
    moreover have "getData (date_text a) s_ri True = Some (int d)" "getData (date_text a) s_ri False = Some (int d')"
      using getData_find [of "CHR 0x97" "nat_str m @ s_yue" d "CHR 0xE6" "CHR 0xA5" "''-'' @ nat_str m' @ s_yue @ nat_str d' @ s_ri"]
        getData_rfind [of "CHR 0x97" "[]" "CHR 0xA5" "nat_str m @ s_yue @ nat_str d @ s_ri @ ''-'' @ nat_str m' @ s_yue" d' "CHR 0xE6"]
      by (simp_all add: Span ks)
    ultimately show ?thesis by (simp add: Span month_day_def)
  next
    case (Month m)
    have "getData (date_text a) s_yue True = Some (int m)" "getData (date_text a) s_yue False = Some (int m)"
      using getData_find [of "CHR 0x9C" "[]" m "CHR 0xE6" "CHR 0x88" "[]"]
        getData_rfind [of "CHR 0x9C" "[]" "CHR 0x88" "[]" m "CHR 0xE6"] by (simp_all add: Month ks)
    moreover have "getData (date_text a) s_ri ord = None" for ord
      using getData_None [of "CHR 0x97" "nat_str m @ s_yue"] by (simp add: Month ks)
    ultimately show ?thesis by (simp add: Month month_day_def)
  next
    case (Months m m')
    have "getData (date_text a) s_yue True = Some (int m)" "getData (date_text a) s_yue False = Some (int m')"
      using getData_find [of "CHR 0x9C" "[]" m "CHR 0xE6" "CHR 0x88" "''-'' @ nat_str m' @ s_yue"]
        getData_rfind [of "CHR 0x9C" "[]" "CHR 0x88" "nat_str m @ s_yue @ ''-''" m' "CHR 0xE6"] by (simp_all add: Months ks)
    moreover have "getData (date_text a) s_ri ord = None" for ord
      using getData_None [of "CHR 0x97" "nat_str m @ s_yue @ ''-'' @ nat_str m' @ s_yue"] by (simp add: Months ks)
    ultimately show ?thesis by (simp add: Months month_day_def)
  qed
  then show "month_day (date_text a) True old 1 = fst (date_span a)" "month_day (date_text a) False old 31 = snd (date_span a)" by auto
qed

lemma date_items_text: "date_items raw (map date_text ds) = map date_span ds"
  by (induction ds arbitrary: raw) (simp_all add: Let_def month_day_text)

lemma digit_char_neq:
  assumes "k < 10"
  shows "CHR 0x91 \<noteq> digit_char k" "digit_char k \<noteq> CHR 0x91" "digit_char k \<notin> {CHR '','', CHR ''<'', CHR ''>'', CHR ''|''}"
proof -
  have d: "digit_char k \<noteq> c" if "\<not> is_digit c" for c using that is_digit_digit_char [OF assms] by auto
  show "CHR 0x91 \<noteq> digit_char k" "digit_char k \<noteq> CHR 0x91" "digit_char k \<notin> {CHR '','', CHR ''<'', CHR ''>'', CHR ''|''}"
    using d [of "CHR 0x91"] d [of "CHR '',''"] d [of "CHR ''<''"] d [of "CHR ''>''"] d [of "CHR ''|''"] by (auto simp: is_digit_def)
qed

lemma week_item_text:
  assumes "1 \<le> a" "a \<le> b" "b \<le> 7"
  shows "week_item (week_text (a, b)) = [(int a, int b)]"
proof -
  have "str_find s_zhou (week_text (a, b)) = Some 0" by (simp add: week_text_def s_zhou_def)
  moreover have "str_rfind s_zhou (week_text (a, b)) = Some 5"
    using str_rfind_key [of "CHR 0x91" "[digit_char b]" "CHR 0xA8" "CHR 0xE5" "s_zhou @ [digit_char a] @ ''-''"] assms
      digit_char_neq [of b] by (simp add: week_text_def s_zhou_def)
  ultimately show ?thesis using assms by (simp add: week_item_def week_no_def week_text_def s_zhou_def string2int1_def)
qed

lemma date_text_plain: "date_text a \<noteq> [] \<and> set (date_text a) \<inter> seps = {}"
  by (cases a) (auto simp: seps_def key_defs3 nat_str_bytes)

lemma pad2_plain: "c \<in> set (pad2 n) \<Longrightarrow> c \<notin> seps \<and> c \<noteq> CHR ''-'' \<and> c \<noteq> CHR ''*'' \<and> c \<noteq> CHR 0xE5 \<and> c \<noteq> CHR 0xE4"
  using pad2_digits [of n] by (auto simp: seps_def is_digit_def)

lemma week_text_plain: "fst w < 10 \<Longrightarrow> snd w < 10 \<Longrightarrow> week_text w \<noteq> [] \<and> set (week_text w) \<inter> seps = {}"
  using digit_char_neq [of "fst w"] digit_char_neq [of "snd w"] by (auto simp: seps_def week_text_def s_zhou_def)

lemma hours_text_plain: "hours_text h \<noteq> [] \<and> set (hours_text h) \<inter> seps = {}"
  using pad2_plain by (fastforce simp: hours_text_def clock_text_def seps_def)

lemma joined_plain: "\<forall>x \<in> set xs. set x \<inter> S = {} \<Longrightarrow> c \<notin> S \<Longrightarrow> set (joined c xs) \<inter> S = {}"
  by (induction c xs rule: joined.induct) auto

lemma split_texts:
  "\<forall>x \<in> set xs. x \<noteq> [] \<and> set x \<inter> seps = {} \<Longrightarrow> split (joined (CHR '','') xs) '','' = xs"
  by (rule split_joined) (auto simp: seps_def)

lemma arule_weeks: "arule_ok r \<Longrightarrow> ar_weeks r = Some ws \<Longrightarrow> w \<in> set ws \<Longrightarrow> 1 \<le> fst w \<and> fst w \<le> snd w \<and> snd w \<le> 7"
  by (fastforce simp: arule_ok_def)

lemma concat_singletons: "(\<And>x. x \<in> set xs \<Longrightarrow> f x = [g x]) \<Longrightarrow> concat (map f xs) = map g xs"
  by (induction xs) auto

lemma joined_star: "\<forall>x \<in> set xs. x \<noteq> [] \<and> x \<noteq> ''*'' \<and> c \<noteq> CHR ''*'' \<Longrightarrow> joined c xs \<noteq> ''*''"
proof (induction c xs rule: joined.induct)
  case (3 c x y xs)
  then show ?case by (cases x) auto
qed auto

lemma Date_rule_text:
  "rn_date_range (Date_rule raw (dates_text (ar_dates r)) node) = rn_date_range node @ spans_of r"
proof (cases "ar_dates r")
  case (Some ds)
  have "split (joined (CHR '','') (map date_text ds)) '','' = map date_text ds"
    by (rule split_texts) (use date_text_plain in auto)
  moreover have "date_text a \<noteq> ''*''" for a by (cases a) (auto simp: s_yue_def append_eq_Cons_conv)
  then have "joined (CHR '','') (map date_text ds) \<noteq> ''*''" using date_text_plain by (intro joined_star) auto
  ultimately show ?thesis by (simp add: Some Date_rule_def dates_text_def spans_of_def date_items_text)
qed (simp add: Date_rule_def dates_text_def spans_of_def)

lemma Week_rule_text:
  assumes "arule_ok r"
  shows "rn_week_range (Week_rule (weeks_text (ar_weeks r)) node) = rn_week_range node @ weeks_of r"
proof (cases "ar_weeks r")
  case (Some ws)
  note w = arule_weeks [OF assms Some]
  have w10: "fst w < 10 \<and> snd w < 10" if "w \<in> set ws" for w using w [OF that] by auto
  have "split (joined (CHR '','') (map week_text ws)) '','' = map week_text ws"
    by (rule split_texts) (use week_text_plain w10 in auto)
  moreover have "joined (CHR '','') (map week_text ws) \<noteq> ''*''"
    by (rule joined_star) (auto simp: week_text_def s_zhou_def)
  moreover have "concat (map week_item (map week_text ws)) = map (\<lambda>(a, b). (int a, int b)) ws"
    unfolding map_map comp_def
  proof (rule concat_singletons)
    fix x assume "x \<in> set ws"
    then show "week_item (week_text x) = [case x of (a, b) \<Rightarrow> (int a, int b)]" 
      using week_item_text [of "fst x" "snd x"] w [of x] by (simp add: case_prod_beta)
  qed
  ultimately show ?thesis by (simp add: Some Week_rule_def weeks_text_def weeks_of_def)
qed (simp add: Week_rule_def weeks_text_def weeks_of_def)

lemma time_text_hours: "time_text date (hours_text h) = window date (clock_text (fst h)) (clock_text (snd h))"
proof -
  have "CHR ''-'' \<notin> set (clock_text (fst h))" using pad2_plain by (auto simp: clock_text_def)
  then have "str_find ''-'' (hours_text h) = Some (length (clock_text (fst h)))"
    unfolding hours_text_def using str_find_char_append [of "CHR ''-''" "clock_text (fst h)"] by simp
  then show ?thesis by (simp add: time_text_def window_def hours_text_def clock_text_def)
qed

lemma Time_rule_text:
  assumes "rn_time_range node = []"
  shows "getOpenTimeRange (rn_time_range (Time_rule (times_text t) node)) date out =
    (if windows_of date t = [] then out else sort (out @ windows_of date t))"
proof (cases t)
  case AllDay
  then show ?thesis using assms
    by (simp add: Time_rule_def getOpenTimeRange_def s_allday_def time_text_def window_def)
next
  case Closed
  then show ?thesis using assms by (simp add: Time_rule_def getOpenTimeRange_def s_closed_def s_allday_def)
next
  case (Hours hs)
  have plain: "split (joined (CHR '','') (map hours_text hs)) '','' = map hours_text hs"
    by (rule split_texts) (use hours_text_plain in auto)
  have "set (hours_text h) \<inter> {CHR ''*'', CHR 0xE5, CHR 0xE4} = {}" for h
    using pad2_plain by (fastforce simp: hours_text_def clock_text_def)
  then have j: "set (joined (CHR '','') (map hours_text hs)) \<inter> {CHR ''*'', CHR 0xE5, CHR 0xE4} = {}"
    by (intro joined_plain) auto
  have "joined (CHR '','') (map hours_text hs) \<noteq> c # cs" if "c \<in> {CHR ''*'', CHR 0xE5, CHR 0xE4}" for c cs
    using j that by (metis IntI empty_iff list.set_intros(1))
  then have "times_text t \<noteq> ''*''" "times_text t \<noteq> s_allday" "times_text t \<noteq> s_closed"
    by (simp_all add: Hours s_allday_def s_closed_def)
  then have "rn_time_range (Time_rule (times_text t) node) = map hours_text hs"
    using assms plain by (simp add: Time_rule_def Hours)
  then show ?thesis using hours_text_plain
    by (cases hs) (auto simp: getOpenTimeRange_def Hours time_text_hours comp_def)
qed

text \<open>The whole text: the last bracket, the items and their four parts.\<close>

lemma texts_plain:
  assumes "\<forall>x \<in> set xs. set x \<inter> seps = {}"
  shows "set (joined (CHR '','') xs) \<inter> {CHR ''<'', CHR ''>'', CHR ''|''} = {}"
proof (rule joined_plain)
  show "\<forall>x \<in> set xs. set x \<inter> {CHR ''<'', CHR ''>'', CHR ''|''} = {}" using assms by (auto simp: seps_def)
qed simp

lemma dates_plain: "set (dates_text ds) \<inter> {CHR ''<'', CHR ''>'', CHR ''|''} = {}"
proof (cases ds)
  case (Some xs)
  then show ?thesis unfolding dates_text_def Some option.case using date_text_plain by (intro texts_plain) auto
qed (simp add: dates_text_def)

lemma weeks_plain: "arule_ok r \<Longrightarrow> set (weeks_text (ar_weeks r)) \<inter> {CHR ''<'', CHR ''>'', CHR ''|''} = {}"
proof (cases "ar_weeks r")
  case (Some xs)
  assume ok: "arule_ok r"
  have "set (week_text w) \<inter> seps = {}" if "w \<in> set xs" for w
    using arule_weeks [OF ok Some that] week_text_plain [of w] by simp
  then show ?thesis unfolding weeks_text_def Some option.case by (intro texts_plain) auto
qed (simp add: weeks_text_def)

lemma times_plain: "set (times_text t) \<inter> {CHR ''<'', CHR ''>'', CHR ''|''} = {}"
proof (cases t)
  case (Hours hs)
  then show ?thesis unfolding Hours times_text.simps using hours_text_plain by (intro texts_plain) auto
qed (simp_all add: s_allday_def s_closed_def)

lemma rule_text_plain: "arule_ok r \<Longrightarrow> CHR ''|'' \<notin> set (rule_text r)"
  using dates_plain [of "ar_dates r"] weeks_plain [of r] times_plain [of "ar_times r"] by (auto simp: rule_text_def)

lemma joined_last: "xs \<noteq> [] \<Longrightarrow> last xs \<noteq> [] \<Longrightarrow> last (joined c xs) = last (last xs) \<and> joined c xs \<noteq> []"
proof (induction c xs rule: joined.induct)
  case (3 c x y xs)
  then show ?case by (cases "joined c (y # xs)") auto
qed auto

lemma rfind_last: "s \<noteq> [] \<Longrightarrow> str_rfind [last s] s = Some (length s - 1)"
proof (rule str_rfind_Some)
  assume "s \<noteq> []"
  then show "take (length [last s]) (drop (length s - 1) s) = [last s]"
    by (cases s rule: rev_cases) auto
next
  fix i assume "length s - 1 < i" "i \<le> length s"
  then have "drop i s = []" by simp
  then show "take (length [last s]) (drop i s) \<noteq> [last s]" by simp
qed simp

lemma cut_rules_text: "rs \<noteq> [] \<Longrightarrow> cut_rule (rules_text rs) = rules_text rs"
proof -
  assume rs: "rs \<noteq> []"
  have "last (rules_text rs) = CHR ''>'' \<and> rules_text rs \<noteq> []"
    using joined_last [of "map rule_text rs" "CHR ''|''"] rs by (simp add: rules_text_def last_map rule_text_def)
  then show ?thesis using rfind_last [of "rules_text rs"] by (simp add: cut_rule_def)
qed

lemma split_rules_text: "\<forall>r \<in> set rs. arule_ok r \<Longrightarrow> split (rules_text rs) ''|'' = map rule_text rs"
  unfolding rules_text_def using rule_text_plain by (intro split_joined) (auto simp: rule_text_def)

lemma items_rule_text:
  assumes "arule_ok r"
  shows "getVecStrBetween (CHR ''<'') (CHR ''>'') (rule_text r) [] =
    Some [dates_text (ar_dates r), weeks_text (ar_weeks r), times_text (ar_times r), ''SURE'']"
proof -
  have p: "CHR ''<'' \<notin> set x \<and> CHR ''>'' \<notin> set x"
    if "x \<in> {dates_text (ar_dates r), weeks_text (ar_weeks r), times_text (ar_times r), ''SURE''}" for x
    using that dates_plain [of "ar_dates r"] weeks_plain [OF assms] times_plain [of "ar_times r"] by auto
  show ?thesis
    using p between_part(1) [of "CHR ''<''" "''SURE''" "CHR ''>''"]
    by (simp add: rule_text_def between_part(2))
qed

lemma parse_rule_texts: "\<forall>r \<in> set rs. arule_ok r \<Longrightarrow> parse_items raw rawt (map rule_text rs) = Some (Inr (map (node_of raw rawt) rs))"
  by (induction rs) (simp_all add: items_rule_text node_of_def Let_def)

lemma rule_frames [simp]:
  "rn_date_range (Week_rule w n) = rn_date_range n" "rn_date_range (Time_rule t n) = rn_date_range n"
  "rn_date_range (Type_rule k n) = rn_date_range n" "rn_week_range (Date_rule raw d n) = rn_week_range n"
  "rn_week_range (Time_rule t n) = rn_week_range n" "rn_week_range (Type_rule k n) = rn_week_range n"
  "rn_time_range (Date_rule raw d n) = rn_time_range n" "rn_time_range (Week_rule w n) = rn_time_range n"
  "rn_time_range (Type_rule k n) = rn_time_range n"
  by (simp_all add: Week_rule_def Time_rule_def Type_rule_def Date_rule_def Let_def)

lemma node_fields:
  "rn_date_range (node_of raw rawt r) = spans_of r"
  "arule_ok r \<Longrightarrow> rn_week_range (node_of raw rawt r) = weeks_of r"
  "getOpenTimeRange (rn_time_range (node_of raw rawt r)) date out =
    (if windows_of date (ar_times r) = [] then out else sort (out @ windows_of date (ar_times r)))"
  by (simp_all add: node_of_def Date_rule_text Week_rule_text Time_rule_text)

text \<open>The date.\<close>

lemma schar_digit: "k < 10 \<Longrightarrow> schar (digit_char k) = int k + 48"
proof -
  assume "k < 10"
  then have "(of_char (digit_char k) :: int) = int k + 48" using of_char_digit_char [of k]
    by (metis of_nat_add of_nat_numeral of_nat_of_char add.commute)
  then show ?thesis using \<open>k < 10\<close> by (simp add: schar_def)
qed

lemma Check_date_str:
  assumes "valid_date (int y) m d" "1970 \<le> y" "y \<le> 2037"
  shows "Check_date r (date_str y m d) = Some (in_span r (int m * 100 + int d))"
proof -
  have b: "1 \<le> m" "m \<le> 12" "1 \<le> d" "d \<le> 31" using valid_date_bounds [OF assms(1)] by auto
  have l: "length (nat_str y) = 4" using assms(2,3) by (intro nat_str_4) auto
  have t: "take 4 (drop 4 (date_str y m d @ [CHR 0x00])) = pad2 m @ pad2 d"
    using l by (simp add: date_str_def pad2_def)
  have "int (m div 10) * 10 + int (m mod 10) = int m" "int (d div 10) * 10 + int (d mod 10) = int d"
    by (metis div_mult_mod_eq of_nat_add of_nat_mult of_nat_numeral)+
  then have "foldl (\<lambda>v c. v * 10 + (schar c - 48)) 0 (pad2 m @ pad2 d) = int m * 100 + int d"
    using b by (simp add: pad2_def schar_digit del: of_nat_div of_nat_mod)
  moreover have "\<not> length (date_str y m d) < 7" using l by (simp add: date_str_def pad2_def)
  ultimately show ?thesis by (simp add: Check_date_def t Let_def del: foldl_append drop_append take_append)
qed

lemma toTime_str:
  assumes v: "valid_date (int y) m d" and y: "1970 \<le> y" "y \<le> 2037"
  shows "toTime (date_str y m d) 0 = Some (int (civil_days (int y) m d) * 86400)"
proof -
  have b: "1 \<le> m" "m \<le> 12" "1 \<le> d" "d \<le> 31" using valid_date_bounds [OF v] by auto
  have n: "digits_val (date_str y m d) = int (y * 10000 + m * 100 + d)"
    using b by (simp add: digits_val_append date_str_def)
  have s: "strtol (date_str y m d) = (int (y * 10000 + m * 100 + d), [])"
    using strtol_digits [of "date_str y m d" "[]"] n b y nat_str_digits [of y] pad2_digits [of m] pad2_digits [of d]
    by (auto simp: date_str_def pad2_nonempty)
  have "toTime (date_str y m d) 0 = do {
     secs \<leftarrow> c_int (int (civil_days (int y) m d) * 86400);
     hours \<leftarrow> c_int (trunc_rat ((of_nat 0 - 0) * 3600));
     part \<leftarrow> c_int (secs + hours);
     Some (part + int 0 * 60) }"
    by (rule toTime_date [OF v y(1) _ s]) (use y in auto)
  moreover have "trunc_rat 0 = 0" using trunc_rat_of_int [of 0] by simp
  ultimately show ?thesis using civil_days_2037 [OF v y] by (simp add: c_int_def)
qed

lemma getWeekByDate_str:
  assumes "valid_date (int y) m d" "1970 \<le> y" "y \<le> 2037"
  shows "getWeekByDate (date_str y m d) = Some (weekday y m d)"
proof -
  define D where "D = civil_days (int y) m d"
  have "tm_wday (gmtime (int D * 86400)) = (D + 4) mod 7" using gmtime_civil [OF assms, of 0 0] by (simp add: D_def)
  moreover have "(int ((D + 4) mod 7) + 6) smod 7 = (int D + 3) mod 7"
    by (simp add: smod_nonneg zmod_int) presburger
  ultimately show ?thesis using toTime_str [OF assms] by (simp add: getWeekByDate_def weekday_def D_def)
qed

text \<open>The loops append the windows and sort.\<close>

lemma sort_more: "sort (sort xs @ ys) = sort (xs @ (ys :: 'a :: linorder list))"
  by (rule properties_for_sort) (auto simp: ac_simps)

lemma week_loop_sorted:
  assumes "getWeekByDate date = Some wd" "sorted out"
    and "\<And>out. getOpenTimeRange ts date out = (if ws = [] then out else sort (out @ ws))"
  shows "week_loop ts date weeks out = Some (sort (out @ concat (map (\<lambda>w. ws) (filter (\<lambda>w. in_span w wd) weeks))))"
  using assms(2)
proof (induction weeks arbitrary: out)
  case Nil
  then show ?case by (simp add: sorted_sort_id)
next
  case (Cons w weeks)
  show ?case using Cons.IH [of out] Cons.IH [of "sort (out @ ws)"] Cons.prems
    by (simp add: Check_week_def assms(1,3) sort_more)
qed

lemma date_loop_sorted:
  assumes "\<And>s. Check_date s date = Some (in_span s md)" "sorted out"
    and "\<And>out. sorted out \<Longrightarrow> week_loop (rn_time_range node) date (rn_week_range node) out = Some (sort (out @ ws))"
  shows "date_loop node date spans out = Some (sort (out @ concat (map (\<lambda>s. ws) (filter (\<lambda>s. in_span s md) spans))))"
  using assms(2)
proof (induction spans arbitrary: out)
  case Nil
  then show ?case by (simp add: sorted_sort_id)
next
  case (Cons s spans)
  show ?case using Cons.IH [of out] Cons.IH [of "sort (out @ ws)"] Cons.prems
    by (simp add: assms(1,3) sort_more)
qed

lemma rule_loop_sorted:
  assumes "\<And>s. Check_date s date = Some (in_span s md)" "getWeekByDate date = Some wd" "sorted out" "\<forall>r \<in> set rs. arule_ok r"
  shows "rule_loop (map (node_of raw rawt) rs) date out = Some (sort (out @ concat (map (rule_windows date md wd) rs)))"
  using assms(3,4)
proof (induction rs arbitrary: out)
  case Nil
  then show ?case by (simp add: sorted_sort_id)
next
  case (Cons r rs)
  have "date_loop (node_of raw rawt r) date (spans_of r) out = Some (sort (out @ rule_windows date md wd r))"
    unfolding rule_windows_def
  proof (rule date_loop_sorted)
    fix o' :: "string list" assume "sorted o'"
    then show "week_loop (rn_time_range (node_of raw rawt r)) date (rn_week_range (node_of raw rawt r)) o' =
      Some (sort (o' @ concat (map (\<lambda>week. windows_of date (ar_times r)) (filter (\<lambda>w. in_span w wd) (weeks_of r)))))"
      using Cons.prems by (simp add: node_fields(2) week_loop_sorted [OF assms(2) _ node_fields(3)])
  qed (use assms(1) Cons.prems in auto)
  then show ?case using Cons by (simp add: node_fields(1) sort_more)
qed

lemma getTheDateOpenTimeRange_rules:
  assumes "rs \<noteq> []" "\<forall>r \<in> set rs. arule_ok r" "valid_date (int y) m d" "1970 \<le> y" "y \<le> 2037"
  shows "getTheDateOpenTimeRange raw rawt (rules_text rs) (date_str y m d) [] =
    Some (sort (concat (map (rule_windows (date_str y m d) (int m * 100 + int d) (weekday y m d)) rs)))"
proof -
  have "getTheDateOpenTimeRange raw rawt (rules_text rs) (date_str y m d) [] =
    rule_loop (map (node_of raw rawt) rs) (date_str y m d) []"
    using assms by (simp add: getTheDateOpenTimeRange_def cut_rules_text split_rules_text parse_rule_texts)
  then show ?thesis
    using rule_loop_sorted [OF Check_date_str [OF assms(3-)] getWeekByDate_str [OF assms(3-)] _ assms(2), of "[]"] by simp
qed

text \<open>A span that writes only its second day, as in the test rule of the source: that day is used at both ends.\<close>

lemma Date_rule_short_span:
  "date_items raw [nat_str m @ s_yue @ nat_str d @ ''-'' @ nat_str m' @ s_yue @ nat_str d' @ s_ri] =
    [(int m * 100 + int d', int m' * 100 + int d')]"
proof -
  let ?s = "nat_str m @ s_yue @ nat_str d @ ''-'' @ nat_str m' @ s_yue @ nat_str d' @ s_ri"
  note ks = key_defs3 nat_str_bytes not_digit_bytes
  have "getData ?s s_yue True = Some (int m)" "getData ?s s_yue False = Some (int m')"
    using getData_find [of "CHR 0x9C" "[]" m "CHR 0xE6" "CHR 0x88" "nat_str d @ ''-'' @ nat_str m' @ s_yue @ nat_str d' @ s_ri"]
      getData_rfind [of "CHR 0x9C" "nat_str d' @ s_ri" "CHR 0x88" "nat_str m @ s_yue @ nat_str d @ ''-''" m' "CHR 0xE6"]
    by (simp_all add: ks)
  moreover have "getData ?s s_ri True = Some (int d')" "getData ?s s_ri False = Some (int d')"
    using getData_find [of "CHR 0x97" "nat_str m @ s_yue @ nat_str d @ ''-'' @ nat_str m' @ s_yue" d' "CHR 0xE6" "CHR 0xA5" "[]"]
      getData_rfind [of "CHR 0x97" "[]" "CHR 0xA5" "nat_str m @ s_yue @ nat_str d @ ''-'' @ nat_str m' @ s_yue" d' "CHR 0xE6"]
    by (simp_all add: ks)
  ultimately show ?thesis by (simp add: month_day_def Let_def)
qed

section \<open>Properties\<close>

text \<open>C29: opening hours. For a list of rules printed in the format of the data and a date between 1970 and 2037,
  \<open>TimeIR::getTheDateOpenTimeRange\<close> returns, sorted, the windows of the rules that apply: for every span of dates
  of the rule that contains the day and every span of weekdays that contains its weekday, the hours of the rule on that
  date. Spans of dates may run over the end of the year.\<close>

theorem getTheDateOpenTimeRange_print:
  assumes "rs \<noteq> []" "\<forall>r \<in> set rs. arule_ok r" "valid_date (int y) m d" "1970 \<le> y" "y \<le> 2037"
  shows "getTheDateOpenTimeRange raw rawt (rules_text rs) (date_str y m d) [] =
    Some (sort (concat (map (rule_windows (date_str y m d) (int m * 100 + int d) (weekday y m d)) rs)))"
  by (rule getTheDateOpenTimeRange_rules [OF assms])

lemma demo_rules: "arule_ok demo_open" "arule_ok demo_closed"
  by (simp_all add: arule_ok_def demo_open_def demo_closed_def)

lemma demo_date: "valid_date (int 2018) 12 25" "weekday 2018 12 25 = 2" "date_str 2018 12 25 = ''20181225''"
proof -
  show "valid_date (int 2018) 12 25" by (simp add: valid_date_def month_lens_def is_leap_def)
  have "civil_days (int 2018) 12 25 = 17890" 
    using days_formula [of 48] by (simp add: leap_days_eq civil_days_def month_lens_def is_leap_def)
  then show "weekday 2018 12 25 = 2" by (simp add: weekday_def)
  show "date_str 2018 12 25 = ''20181225''" by code_simp
qed

lemma demo_windows:
  "rule_windows ''20181225'' 1225 2 demo_open = [''20181225_10:00-20181225_12:30'', ''20181225_14:00-20181225_18:30'']"
  by code_simp

theorem getTheDateOpenTimeRange_print_witness:
  "getTheDateOpenTimeRange (0, 0) 0 (rules_text [demo_open]) ''20181225'' [] =
    Some [''20181225_10:00-20181225_12:30'', ''20181225_14:00-20181225_18:30'']"
  using getTheDateOpenTimeRange_print [of "[demo_open]" 2018 12 25 "(0, 0)" 0] demo_rules demo_date
  by (simp add: demo_windows)

text \<open>C30: a rule that closes a place on some dates (its third part says that it does not open) has no effect on the result
  of \<open>TimeIR::getTheDateOpenTimeRange\<close>: the windows of the other rules for the same date remain. The text of the format in
  the source, a rule for whole months followed by a closing rule for three holidays, leaves the place open on
  the holidays.\<close>

theorem closed_rule_ignored:
  assumes "rs @ rs' \<noteq> []" "\<forall>r \<in> set (rs @ c # rs'). arule_ok r" "ar_times c = Closed"
    and "valid_date (int y) m d" "1970 \<le> y" "y \<le> 2037"
  shows "getTheDateOpenTimeRange raw rawt (rules_text (rs @ c # rs')) (date_str y m d) [] =
    getTheDateOpenTimeRange raw rawt (rules_text (rs @ rs')) (date_str y m d) []"
proof -
  have "rule_windows date md wd c = []" for date md wd using assms(3) by (simp add: rule_windows_def)
  then show ?thesis
    using getTheDateOpenTimeRange_rules [OF assms(1) _ assms(4-)] getTheDateOpenTimeRange_rules [OF _ assms(2,4-)] assms(2) by simp
qed

theorem closed_rule_ignored_witness:
  "getTheDateOpenTimeRange (0, 0) 0 (rules_text [demo_open, demo_closed]) ''20181225'' [] =
    getTheDateOpenTimeRange (0, 0) 0 (rules_text [demo_open]) ''20181225'' []"
  using closed_rule_ignored [of "[demo_open]" "[]" demo_closed 2018 12 25 "(0, 0)" 0] demo_rules demo_date
  by (simp add: demo_closed_def)

end
