(* ===== verification/PathEnrich.thy ===== *)
theory PathEnrich
  imports TrafRoute
begin

text \<open>
  The times of a whole itinerary: \<open>TimeEnrich\<close> of Route/base/PathUtil.cpp squeezes all visits and then stretches every segment
  between two key nodes. \<open>itin_ok\<close> is the invariant of an itinerary that both steps keep: trips and opening windows are
  respected. The lemmas lift those on one segment (\<open>PathStretch\<close>) to the path; an itinerary made by \<open>DoRoute\<close>
  satisfies the invariant (\<open>routed_itin\<close>).
\<close>

section \<open>Specification\<close>

definition visit_ok :: "planitem \<Rightarrow> bool" where
  "visit_ok it \<longleftrightarrow> pl_openTime it \<le> pl_arriveTime it \<and> pl_departTime it \<le> pl_closeTime it \<and>
     (has_flag (lp_t (pl_place it)) level_flags \<longrightarrow> lp_isVar (pl_place it)) \<and>
     (\<exists>d. pl_durS it = Some d \<and> 10 \<le> ds_zip d \<and> ds_zip d \<le> PlanItem_GetDur it \<and>
        PlanItem_GetDur it \<le> ds_extend d \<and> ds_extend d < 2 ^ 31)"

definition leg_ok :: "planitem \<Rightarrow> planitem \<Rightarrow> bool" where
  "leg_ok x y \<longleftrightarrow> trafT (pl_departTraffic x) = trafT (pl_arriveTraffic y) \<and> 0 \<le> trafT (pl_arriveTraffic y) \<and>
     (is_key x \<and> is_key y \<or> pl_departTime x + trafT (pl_arriveTraffic y) \<le> pl_arriveTime y)"

definition itin_ok :: "planitem list \<Rightarrow> bool" where
  "itin_ok xs \<longleftrightarrow> xs \<noteq> [] \<and> is_key (xs ! 0) \<and>
     (\<forall>i < length xs. if is_key (xs ! i) then 0 \<le> pl_departTime (xs ! i) else visit_ok (xs ! i)) \<and>
     (\<forall>i. Suc i < length xs \<longrightarrow> leg_ok (xs ! i) (xs ! Suc i))"

definition enriched :: "planitem list \<Rightarrow> planitem list \<Rightarrow> bool" where
  "enriched xs ys \<longleftrightarrow> itin_ok ys \<and> retimed xs ys \<and> (\<forall>i < length xs. is_key (xs ! i) \<longrightarrow> ys ! i = xs ! i)"

text \<open>Times of a request: key nodes are not before the epoch, trips take no negative time, compressed durations are at
  least ten seconds.\<close>

definition times_ok :: "baseplan \<Rightarrow> bool" where
  "times_ok bp \<longleftrightarrow>
     (\<forall>kn \<in> set (bp_KeyNode bp). 0 \<le> key_arrival kn \<and> 0 \<le> ds_rcmd (kn_durS kn) \<and> 0 \<le> kn_close kn) \<and>
     (\<forall>a b date tr. GetTraffic bp a b date = Some tr \<longrightarrow> 0 \<le> tr_time tr) \<and>
     (\<forall>p d. GetDurSP bp p = Some d \<longrightarrow> 10 \<le> ds_zip d \<and> ds_zip d \<le> ds_extend d \<and> ds_extend d < 2 ^ 31)"

definition enrich_demo :: "planitem list" where
  "enrich_demo =
     [PlanItem_new\<lparr>pl_type := NODE_FUNC_KEY\<rparr>,
      PlanItem_new\<lparr>pl_departTime := 50, pl_durS := Some (DurS_new 50 50 100 100 100), pl_closeTime := 1000\<rparr>,
      PlanItem_new\<lparr>pl_type := NODE_FUNC_KEY, pl_arriveTime := 1000\<rparr>]"

section \<open>Lemmas\<close>

lemma enriched_trans: "enriched xs ys \<Longrightarrow> enriched ys zs \<Longrightarrow> enriched xs zs"
  using retimed_trans [of xs ys zs] retimed_fields(1) [of xs ys] retimed_length [of xs ys] by (simp add: enriched_def)

lemma enriched_refl: "itin_ok xs \<Longrightarrow> enriched xs xs"
  by (simp add: enriched_def retimed_refl)

lemma itin_feasible:
  assumes "itin_ok xs"
  shows "feasible xs (\<lambda>i. pl_arriveTime (xs ! i)) (\<lambda>i. pl_departTime (xs ! i))"
  unfolding feasible_def
proof (intro allI impI)
  fix i assume i: "i < length xs"
  show "if i = 0 \<or> is_key (xs ! i) then pl_departTime (xs ! i) = pl_departTime (xs ! i)
    else \<exists>d. pl_durS (xs ! i) = Some d \<and>
      pl_departTime (xs ! (i - 1)) + trafT (pl_arriveTraffic (xs ! i)) \<le> pl_arriveTime (xs ! i) \<and>
      pl_openTime (xs ! i) \<le> pl_arriveTime (xs ! i) \<and>
      pl_arriveTime (xs ! i) + ds_zip d \<le> pl_departTime (xs ! i) \<and> pl_departTime (xs ! i) \<le> pl_closeTime (xs ! i)"
  proof (cases "i = 0 \<or> is_key (xs ! i)")
    case False
    then obtain j where j: "i = Suc j" by (cases i) auto
    have "leg_ok (xs ! j) (xs ! i)" "visit_ok (xs ! i)" using assms i j False by (auto simp: itin_ok_def)
    then show ?thesis using False j by (auto simp: leg_ok_def visit_ok_def PlanItem_GetDur_def)
  qed simp
qed

lemma zip_retimed:
  assumes "zip_loop 1 (length xs - 1) xs = Some (0, ys)" "xs \<noteq> []"
  shows "retimed xs ys" "ys ! 0 = xs ! 0" "\<forall>i < length xs. is_key (xs ! i) \<longrightarrow> ys ! i = xs ! i"
    "\<forall>i < length xs. i \<noteq> 0 \<and> \<not> is_key (xs ! i) \<longrightarrow> (\<exists>d. pl_durS (xs ! i) = Some d \<and> PlanItem_GetDur (ys ! i) = ds_zip d)"
proof -
  have l: "1 + (length xs - 1) = length xs" using assms(2) by (cases xs) auto
  note S = zip_loop_sound [OF assms(1) _ l]
  show 0: "ys ! 0 = xs ! 0" using S by simp
  have Z: "zip_item (ys ! (i - 1)) (xs ! i) (ys ! i)" if "i \<noteq> 0" "i < length xs" for i
    using S that by (simp add: Suc_le_eq)
  show K: "\<forall>i < length xs. is_key (xs ! i) \<longrightarrow> ys ! i = xs ! i"
  proof (intro allI impI)
    fix i assume "i < length xs" "is_key (xs ! i)"
    then show "ys ! i = xs ! i" using Z [of i] 0 by (cases "i = 0") (auto simp: zip_item_def)
  qed
  show "\<forall>i < length xs. i \<noteq> 0 \<and> \<not> is_key (xs ! i) \<longrightarrow> (\<exists>d. pl_durS (xs ! i) = Some d \<and> PlanItem_GetDur (ys ! i) = ds_zip d)"
  proof (intro allI impI)
    fix i assume "i < length xs" "i \<noteq> 0 \<and> \<not> is_key (xs ! i)"
    then show "\<exists>d. pl_durS (xs ! i) = Some d \<and> PlanItem_GetDur (ys ! i) = ds_zip d"
      using Z [of i] by (auto simp: zip_item_def Let_def PlanItem_GetDur_def)
  qed
  have "\<exists>s t. ys ! i = (xs ! i)\<lparr>pl_arriveTime := s, pl_departTime := t\<rparr>" if i: "i < length xs" for i
  proof (cases "i = 0 \<or> is_key (xs ! i)")
    case True
    then have "ys ! i = xs ! i" using 0 K i by auto
    then show ?thesis using retimed_refl [of xs] i by (simp add: retimed_def)
  next
    case False
    then show ?thesis using Z [of i] i by (auto simp: zip_item_def Let_def)
  qed
  then show "retimed xs ys" using S by (simp add: retimed_def)
qed

lemma zip_enriched:
  assumes "itin_ok xs"
  shows "\<exists>ys. zip_loop 1 (length xs - 1) xs = Some (0, ys) \<and> enriched xs ys"
proof -
  have ne: "xs \<noteq> []" using assms by (simp add: itin_ok_def)
  obtain ys where z: "zip_loop 1 (length xs - 1) xs = Some (0, ys)" "\<forall>j < length xs. pl_departTime (ys ! j) \<le> pl_departTime (xs ! j)"
    using zip_loop_earliest [OF itin_feasible [OF assms] ne] by blast
  note R = zip_retimed [OF z(1) ne]
  note F = zip_feasible [OF z(1) ne, unfolded feasible_def]
  note f = retimed_fields [OF R(1)]
  have len: "length ys = length xs" by (rule retimed_length [OF R(1)])
  have leg: "leg_ok (ys ! i) (ys ! Suc i)" if i: "Suc i < length xs" for i
  proof -
    have L: "leg_ok (xs ! i) (xs ! Suc i)" using assms i by (simp add: itin_ok_def)
    have "pl_departTime (ys ! i) + trafT (pl_arriveTraffic (xs ! Suc i)) \<le> pl_arriveTime (ys ! Suc i)"
      if "\<not> (is_key (xs ! i) \<and> is_key (xs ! Suc i))"
    proof (cases "is_key (xs ! Suc i)")
      case True
      have "pl_departTime (ys ! i) \<le> pl_departTime (xs ! i)" using z(2) i by simp
      then show ?thesis using L True that R(3) i by (auto simp: leg_ok_def)
    next
      case False
      then show ?thesis using F [rule_format, OF i] by auto
    qed
    then show ?thesis using L i f by (auto simp: leg_ok_def)
  qed
  have "visit_ok (ys ! i)" if i: "i < length xs" "\<not> is_key (xs ! i)" for i
  proof -
    have V: "visit_ok (xs ! i)" and n0: "i \<noteq> 0"
      using assms i by (auto simp: itin_ok_def intro!: Nat.gr0I)
    then obtain d where d: "pl_durS (xs ! i) = Some d" "PlanItem_GetDur (ys ! i) = ds_zip d" using R(4) i by blast
    moreover have "pl_openTime (xs ! i) \<le> pl_arriveTime (ys ! i)" "pl_departTime (ys ! i) \<le> pl_closeTime (xs ! i)"
      using F [rule_format, OF i(1)] i n0 by auto
    ultimately show ?thesis using V f i by (auto simp: visit_ok_def)
  qed
  then have "itin_ok ys" using assms leg R(3) f len ne unfolding itin_ok_def by (auto simp: R(2))
  then show ?thesis using z(1) R by (auto simp: enriched_def)
qed

lemma itin_seg:
  assumes "itin_ok xs" "is_key (xs ! a)" "b < length xs" "Suc a < b" "\<forall>i. a < i \<and> i < b \<longrightarrow> \<not> is_key (xs ! i)"
  shows "seg_ok a b xs" "\<forall>i. a < i \<and> i < b \<longrightarrow> 10 \<le> PlanItem_GetDur (xs ! i)"
    "\<forall>i. a < i \<and> i < b \<longrightarrow> has_flag (lp_t (pl_place (xs ! i))) level_flags \<longrightarrow> lp_isVar (pl_place (xs ! i))"
proof -
  have V: "visit_ok (xs ! i)" if "a < i" "i < b" for i using assms that by (auto simp: itin_ok_def)
  have L: "leg_ok (xs ! i) (xs ! Suc i)" if "a \<le> i" "i < b" for i using assms that by (auto simp: itin_ok_def)
  have N: "\<not> (is_key (xs ! i) \<and> is_key (xs ! Suc i))" if "a \<le> i" "i < b" for i
    using assms(4,5) that by (cases "i = a") auto
  have "0 \<le> pl_departTime (xs ! a)" using assms by (auto simp: itin_ok_def)
  moreover have "seg_cons a b xs" using V L N unfolding seg_cons_def leg_ok_def visit_ok_def by blast
  moreover have "seg_static a b xs" using assms L by (auto simp: seg_static_def leg_ok_def)
  moreover have "seg_dur a b xs" unfolding seg_dur_def using V unfolding visit_ok_def by fastforce
  ultimately show "seg_ok a b xs" using L by (auto simp: seg_ok_def seg_time_def leg_ok_def)
  show "\<forall>i. a < i \<and> i < b \<longrightarrow> 10 \<le> PlanItem_GetDur (xs ! i)" using V unfolding visit_ok_def by fastforce
  show "\<forall>i. a < i \<and> i < b \<longrightarrow> has_flag (lp_t (pl_place (xs ! i))) level_flags \<longrightarrow> lp_isVar (pl_place (xs ! i))"
    using V by (simp add: visit_ok_def)
qed

lemma longer_enriched:
  assumes "itin_ok xs" "longer a b xs ys" "is_key (xs ! a)" "is_key (xs ! b)" "\<forall>i. a < i \<and> i < b \<longrightarrow> \<not> is_key (xs ! i)"
  shows "enriched xs ys"
proof -
  have R: "retimed xs ys" and S: "seg_ok a b ys" and G: "\<forall>j < length xs. PlanItem_GetDur (xs ! j) \<le> PlanItem_GetDur (ys ! j)"
    and O: "\<And>j. j \<le> a \<or> b \<le> j \<Longrightarrow> ys ! j = xs ! j"
    using assms(2) by (auto simp: longer_def framed_def)
  note f = retimed_fields [OF R]
  have len: "length ys = length xs" by (rule retimed_length [OF R])
  have K: "ys ! i = xs ! i" if "i < length xs" "is_key (xs ! i)" for i
    using O [of i] assms(5) that by (cases "a < i \<and> i < b") auto
  have leg: "leg_ok (ys ! i) (ys ! Suc i)" if i: "Suc i < length xs" for i
  proof -
    have L: "leg_ok (xs ! i) (xs ! Suc i)" using assms(1) i by (simp add: itin_ok_def)
    show ?thesis
    proof (cases "a \<le> i \<and> i < b")
      case True
      then have "pl_departTime (ys ! i) + trafT (pl_arriveTraffic (ys ! Suc i)) \<le> pl_arriveTime (ys ! Suc i)"
        using S by (auto simp: seg_ok_def seg_cons_def)
      then show ?thesis using L i f by (auto simp: leg_ok_def)
    next
      case False
      then have "ys ! i = xs ! i" "ys ! Suc i = xs ! Suc i" using O by auto
      then show ?thesis using L by simp
    qed
  qed
  have vis: "visit_ok (ys ! i)" if i: "i < length xs" "\<not> is_key (xs ! i)" for i
  proof -
    have V: "visit_ok (xs ! i)" using assms(1) i by (auto simp: itin_ok_def)
    show ?thesis
    proof (cases "a < i \<and> i < b")
      case True
      then obtain d where "pl_durS (ys ! i) = Some d" "ds_zip d \<le> PlanItem_GetDur (ys ! i)" "PlanItem_GetDur (ys ! i) \<le> ds_extend d"
        using S unfolding seg_ok_def by (meson seg_dur_D)
      moreover have "pl_openTime (ys ! i) \<le> pl_arriveTime (ys ! i)" "pl_departTime (ys ! i) \<le> pl_closeTime (ys ! i)"
        using S True by (auto simp: seg_ok_def seg_cons_def)
      ultimately show ?thesis using V f i by (auto simp: visit_ok_def)
    next
      case False
      then show ?thesis using V O [of i] by auto
    qed
  qed
  have "itin_ok ys" using assms(1) leg vis K f len unfolding itin_ok_def by auto
  then show ?thesis using R K by (simp add: enriched_def)
qed

lemma enrich_loop_ends:
  assumes perm: "\<And>xs l. mset (levelSort xs l) = mset l" "\<And>xs l. mset (rateSort xs l) = mset l"
  shows "itin_ok xs \<Longrightarrow> i + k = length xs \<Longrightarrow> is_key (xs ! stop) \<Longrightarrow> stop \<le> i \<Longrightarrow> \<forall>j. stop < j \<and> j < i \<longrightarrow> \<not> is_key (xs ! j) \<Longrightarrow>
    \<exists>N ys. (\<forall>n \<ge> N. enrich_loop n levelSort rateSort i k stop xs = Some (0, ys)) \<and> enriched xs ys"
proof (induction k arbitrary: i stop xs)
  case 0
  then show ?case using enriched_refl by auto
next
  case (Suc k)
  have i: "i < length xs" "Suc i + k = length xs" using Suc.prems(2) by auto
  have gap: "\<forall>j. stop < j \<and> j < Suc i \<longrightarrow> \<not> is_key (xs ! j)" if "\<not> is_key (xs ! i)"
    using Suc.prems(5) that by (auto simp: less_Suc_eq)
  consider "\<not> is_key (xs ! i)" | "is_key (xs ! i)" "\<not> i - stop > 1" | "is_key (xs ! i)" "Suc stop < i" by linarith
  then show ?case
  proof cases
    case 1
    then show ?thesis using Suc.IH [OF Suc.prems(1) i(2) Suc.prems(3) _ gap] Suc.prems(4) by auto
  next
    case 2
    then show ?thesis using Suc.IH [OF Suc.prems(1) i(2), of i] by (force simp: less_Suc_eq)
  next
    case 3
    note G = itin_seg [OF Suc.prems(1,3) i(1) 3(2) Suc.prems(5)]
    obtain N ys where N: "\<forall>n \<ge> N. TimeStretch n levelSort rateSort (int stop) (int i) xs = Some (0, ys)" "longer stop i xs ys"
      using TimeStretch_terminates_lemma [of stop i xs levelSort rateSort, OF G perm] by blast
    have E: "enriched xs ys" by (rule longer_enriched [OF Suc.prems(1) N(2) Suc.prems(3) 3(1) Suc.prems(5)])
    then have "itin_ok ys" "length ys = length xs" "is_key (ys ! i)"
      using retimed_length 3(1) i by (auto simp: enriched_def)
    then obtain M zs where M: "\<forall>n \<ge> M. enrich_loop n levelSort rateSort (Suc i) k i ys = Some (0, zs)" "enriched ys zs"
      using Suc.IH [of ys "Suc i" i] i by (force simp: less_Suc_eq)
    have "1 < i - stop" using 3(2) by simp
    then have "\<forall>n \<ge> max N M. enrich_loop n levelSort rateSort i (Suc k) stop xs = Some (0, zs)" using N(1) M(1) 3(1) by simp
    then show ?thesis using enriched_trans [OF E M(2)] by blast
  qed
qed

lemma tag_itin:
  assumes "length ys = length xs" "\<forall>i < length xs. \<exists>t. ys ! i = (xs ! i)\<lparr>pl_remind_tag_app := t\<rparr>"
  shows "itin_ok ys = itin_ok xs"
proof -
  have F: "is_key (ys ! i) = is_key (xs ! i)" "pl_departTime (ys ! i) = pl_departTime (xs ! i)" "visit_ok (ys ! i) = visit_ok (xs ! i)"
    "pl_departTraffic (ys ! i) = pl_departTraffic (xs ! i)" "pl_arriveTraffic (ys ! i) = pl_arriveTraffic (xs ! i)"
    "pl_arriveTime (ys ! i) = pl_arriveTime (xs ! i)" if i: "i < length xs" for i
  proof -
    obtain t where t: "ys ! i = (xs ! i)\<lparr>pl_remind_tag_app := t\<rparr>" using assms(2) i by blast
    show "is_key (ys ! i) = is_key (xs ! i)" "pl_departTime (ys ! i) = pl_departTime (xs ! i)" "visit_ok (ys ! i) = visit_ok (xs ! i)"
      "pl_departTraffic (ys ! i) = pl_departTraffic (xs ! i)" "pl_arriveTraffic (ys ! i) = pl_arriveTraffic (xs ! i)"
      "pl_arriveTime (ys ! i) = pl_arriveTime (xs ! i)"
      unfolding t by (simp_all add: is_key_def visit_ok_def PlanItem_GetDur_def)
  qed
  have "leg_ok (ys ! i) (ys ! Suc i) = leg_ok (xs ! i) (xs ! Suc i)" if "Suc i < length xs" for i
    using F [of i] F [of "Suc i"] that by (simp add: leg_ok_def)
  moreover have "ys = [] \<longleftrightarrow> xs = []" using assms(1) by (cases xs; cases ys) auto
  ultimately show ?thesis using F by (cases "xs = []") (simp_all add: itin_ok_def assms(1))
qed

text \<open>What copying a path leaves in the items: the reminder of the target's own slots.\<close>

lemma PathView_Copy_items:
  assumes "pv_ok path"
  shows "length (pv_items (PathView_Copy path pv)) = length (pv_items path) \<and>
    (\<forall>i < length (pv_items path). pv_items (PathView_Copy path pv) ! i =
      (pv_items path ! i)\<lparr>pl_remind_tag_app := (if i < pv_capacity pv then pl_remind_tag_app (pv_item_list pv ! i) else '''')\<rparr>) \<and>
    pv_ok (PathView_Copy path pv) \<and> pv_len (PathView_Copy path pv) = pv_len path"
proof -
  define pv1 where "pv1 = (if pv_capacity pv < pv_len path
     then snd (PathView_IncreaseCapacity (int (pv_len path) - int (pv_capacity pv)) pv) else pv)"
  have c: "pv_len path \<le> pv_capacity pv1" by (auto simp: pv1_def PathView_IncreaseCapacity_def)
  have n: "pl_remind_tag_app (pv_item_list pv1 ! i) =
      (if i < pv_capacity pv then pl_remind_tag_app (pv_item_list pv ! i) else '''')" if "i < pv_len path" for i
    using that by (auto simp: pv1_def PathView_IncreaseCapacity_def nth_append PlanItem_new_def)
  show ?thesis
    using c assms n unfolding PathView_Copy_def pv1_def [symmetric] Let_def
    by (simp add: pv_ok_def pv_items_def PlanItem_Copy_def)
qed

lemma PathView_Copy_back:
  assumes "pv_ok path" "length xs = pv_len path"
  shows "PathView_Copy (with_items xs (PathView_Copy path PathView_new)) path =
    with_items (map2 PlanItem_Copy xs (pv_items path)) path"
proof -
  define q where "q = PathView_Copy path PathView_new"
  have Q: "pv_len q = pv_len path" "pv_ok q" using PathView_Copy_items [OF assms(1), of PathView_new] by (auto simp: q_def)
  have "take (pv_len path) (pv_item_list (with_items xs q)) = xs" using Q assms by (simp add: with_items_def)
  then show ?thesis
    using assms Q unfolding q_def [symmetric]
    by (simp add: PathView_Copy_def with_items_def pv_ok_def pv_items_def) (simp add: q_def PathView_Copy_def Let_def PathView_IncreaseCapacity_def)
qed

lemma map2_Copy_retimed:
  assumes "length ys = length xs" "\<forall>i < length xs. ys ! i = (xs ! i)\<lparr>pl_remind_tag_app := ''''\<rparr>" "enriched ys zs"
  shows "enriched xs (map2 PlanItem_Copy zs xs)"
proof -
  have l: "length zs = length xs" using assms(1,3) retimed_length by (auto simp: enriched_def)
  have z: "\<exists>s t. zs ! i = (xs ! i)\<lparr>pl_remind_tag_app := '''', pl_arriveTime := s, pl_departTime := t\<rparr>" if "i < length xs" for i
    using assms that by (simp add: enriched_def retimed_def)
  have "retimed xs (map2 PlanItem_Copy zs xs)"
    unfolding retimed_def
  proof (intro conjI allI impI)
    fix i assume i: "i < length xs"
    obtain s t where "zs ! i = (xs ! i)\<lparr>pl_remind_tag_app := '''', pl_arriveTime := s, pl_departTime := t\<rparr>" using z [OF i] by blast
    then have "map2 PlanItem_Copy zs xs ! i = (xs ! i)\<lparr>pl_arriveTime := s, pl_departTime := t\<rparr>"
      using i l by (simp add: PlanItem_Copy_def)
    then show "\<exists>s t. map2 PlanItem_Copy zs xs ! i = (xs ! i)\<lparr>pl_arriveTime := s, pl_departTime := t\<rparr>" by blast
  qed (use l in simp)
  moreover have "itin_ok (map2 PlanItem_Copy zs xs)"
  proof -
    have "\<forall>i < length zs. \<exists>t. map2 PlanItem_Copy zs xs ! i = (zs ! i)\<lparr>pl_remind_tag_app := t\<rparr>"
    proof (intro allI impI)
      fix i assume "i < length zs"
      then have "map2 PlanItem_Copy zs xs ! i = (zs ! i)\<lparr>pl_remind_tag_app := pl_remind_tag_app (xs ! i)\<rparr>"
        using l by (simp add: PlanItem_Copy_def)
      then show "\<exists>t. map2 PlanItem_Copy zs xs ! i = (zs ! i)\<lparr>pl_remind_tag_app := t\<rparr>" by blast
    qed
    moreover have "length (map2 PlanItem_Copy zs xs) = length zs" using l by simp
    ultimately show ?thesis using assms(3) tag_itin unfolding enriched_def by blast
  qed
  moreover have "map2 PlanItem_Copy zs xs ! i = xs ! i" if i: "i < length xs" "is_key (xs ! i)" for i
  proof -
    have "is_key (ys ! i)" using assms(2) i by (simp add: is_key_def)
    then have "zs ! i = (xs ! i)\<lparr>pl_remind_tag_app := ''''\<rparr>" using assms i by (simp add: enriched_def)
    then show ?thesis using i l by (simp add: PlanItem_Copy_def)
  qed
  ultimately show ?thesis by (simp add: enriched_def)
qed

lemma TimeEnrich_ends:
  assumes "pv_ok path" "itin_ok (pv_items path)"
    and "\<And>xs l. mset (levelSort xs l) = mset l" "\<And>xs l. mset (rateSort xs l) = mset l"
  shows "\<exists>N ys. (\<forall>n \<ge> N. TimeEnrich n levelSort rateSort path = Some (0, with_items ys path)) \<and> enriched (pv_items path) ys"
proof -
  define tmp where "tmp = PathView_Copy path PathView_new"
  note C = PathView_Copy_items [OF assms(1), of PathView_new, folded tmp_def]
  have cap: "pv_capacity PathView_new = 0" by (simp add: PathView_new_def PathView_Reset_def)
  then have T: "length (pv_items tmp) = length (pv_items path)" "\<forall>i < length (pv_items path). pv_items tmp ! i = (pv_items path ! i)\<lparr>pl_remind_tag_app := ''''\<rparr>"
    and lt: "pv_len tmp = pv_len path" using C by auto
  have len: "length (pv_items path) = pv_len path" by (rule length_pv_items [OF assms(1)])
  have "itin_ok (pv_items tmp)" using tag_itin [of "pv_items tmp" "pv_items path"] T assms(2) by blast
  then obtain ys where y: "zip_loop 1 (pv_len tmp - 1) (pv_items tmp) = Some (0, ys)" "enriched (pv_items tmp) ys"
    using zip_enriched [of "pv_items tmp"] T len lt by auto
  have ly: "length ys = pv_len path" "itin_ok ys" using y(2) retimed_length T len by (auto simp: enriched_def)
  have "is_key (ys ! 0)" using ly(2) by (simp add: itin_ok_def)
  then obtain N zs where N: "\<forall>n \<ge> N. enrich_loop n levelSort rateSort 0 (pv_len path) 0 ys = Some (0, zs)" "enriched ys zs"
    using enrich_loop_ends [of levelSort rateSort, OF assms(3,4) ly(2), of 0 "pv_len path" 0] ly(1) by auto
  have lz: "length zs = pv_len path" using N(2) retimed_length ly by (auto simp: enriched_def)
  have wi: "pv_items (with_items ys tmp) = ys" "pv_len (with_items ys tmp) = pv_len path"
    using ly lt pv_items_with_items [of ys tmp] by (auto simp: with_items_def)
  have "with_items zs (with_items ys tmp) = with_items zs tmp" using ly lz lt by (simp add: with_items_def)
  then have "TimeEnrich n levelSort rateSort path = Some (0, with_items (map2 PlanItem_Copy zs (pv_items path)) path)" if "n \<ge> N" for n
    using y(1) N(1) that wi PathView_Copy_back [OF assms(1) lz]
    by (simp add: TimeEnrich_def DoZipDur_def flip: tmp_def)
  then show ?thesis using map2_Copy_retimed [OF T enriched_trans [OF y(2) N(2)]] by blast
qed

lemma routed_itin:
  assumes "routed bp orders xs" "times_ok bp" "bp_KeyNode bp \<noteq> []"
  shows "itin_ok xs"
proof -
  note R = assms(1) [unfolded routed_def]
  have ne: "xs \<noteq> []" using R assms(3) by auto
  have kinds: "is_place (xs ! i) \<noteq> is_key (xs ! i)" if "i < length xs" for i using R that by simp
  have step: "step_ok bp (xs ! i) (xs ! Suc i)" if "Suc i < length xs" for i
    using R that by (auto simp: successively_conv_nth)
  have key: "0 \<le> pl_departTime it" if "it \<in> set xs" "is_key it" for it
  proof -
    have "it \<in> set (filter is_key xs)" using that by simp
    then obtain kn where kn: "kn \<in> set (bp_KeyNode bp)" "key_at kn it" using R
      by (metis in_set_conv_nth list_all2_conv_all_nth)
    then have "0 \<le> key_arrival kn" "0 \<le> ds_rcmd (kn_durS kn)" "0 \<le> kn_close kn" using assms(2) by (auto simp: times_ok_def)
    then show ?thesis using kn(2) unfolding key_at_def by linarith
  qed
  have visit: "visit_ok (xs ! i)" if i: "i < length xs" "\<not> is_key (xs ! i)" for i
  proof -
    have "i \<noteq> 0" using i R ne by (auto simp: hd_conv_nth intro!: Nat.gr0I)
    then obtain j where j: "i = Suc j" by (cases i) auto
    have "is_place (xs ! i)" using kinds i by blast
    then obtain d where d: "GetDurSP bp (pl_place (xs ! i)) = Some d" "pl_durS (xs ! i) = Some d"
      "pl_departTime (xs ! i) = pl_arriveTime (xs ! i) + ds_zip d" "pl_openTime (xs ! i) \<le> pl_arriveTime (xs ! i)"
      "pl_departTime (xs ! i) \<le> pl_closeTime (xs ! i)"
      using step [of j] i j by (auto simp: step_ok_def)
    have "10 \<le> ds_zip d" "ds_zip d \<le> ds_extend d" "ds_extend d < 2 ^ 31" using assms(2) d(1) unfolding times_ok_def by blast+
    moreover have "xs ! i \<in> set (filter (Not \<circ> is_key) xs)" using i by simp
    then have "pl_place (xs ! i) \<in> set (map pl_place (filter (Not \<circ> is_key) xs))" by (metis image_eqI list.set_map)
    then have "lp_isVar (pl_place (xs ! i))" using R by auto
    ultimately show ?thesis using d by (simp add: visit_ok_def PlanItem_GetDur_def)
  qed
  have "leg_ok (xs ! i) (xs ! Suc i)" if i: "Suc i < length xs" for i
  proof -
    obtain date tr where t: "GetTraffic bp (pl_deptID (xs ! i)) (pl_arvID (xs ! Suc i)) date = Some tr"
      "pl_departTraffic (xs ! i) = Some tr" "pl_arriveTraffic (xs ! Suc i) = Some tr"
      "is_place (xs ! Suc i) \<longrightarrow> pl_departTime (xs ! i) + tr_time tr \<le> pl_arriveTime (xs ! Suc i)"
      "is_key (xs ! Suc i) \<and> is_place (xs ! i) \<longrightarrow> pl_departTime (xs ! i) + tr_time tr \<le> pl_arriveTime (xs ! Suc i)"
      using step [OF i] unfolding step_ok_def by blast
    moreover have "0 \<le> tr_time tr" using assms(2) t(1) unfolding times_ok_def by blast
    ultimately show ?thesis using kinds [of i] kinds [of "Suc i"] i by (auto simp: leg_ok_def trafT_def)
  qed
  then show ?thesis using ne key visit R by (auto simp: itin_ok_def hd_conv_nth)
qed

lemma enrich_demo_ok: "itin_ok enrich_demo"
  by (simp add: itin_ok_def enrich_demo_def visit_ok_def leg_ok_def is_key_def has_flag_def flag_simps PlanItem_new_def
      PlanItem_GetDur_def DurS_new_def trafT_def place0_def nth_Cons split: nat.splits)

section \<open>Property\<close>

text \<open>C6: Adjusting the times of a whole itinerary. When the itinerary starts at a key node, its trips and opening windows are
  respected and its visits last between their compressed and their extended duration, at least ten seconds,
  \<open>TimeEnrich\<close> ends and returns 0. It changes only times, and no time of a key node; the result is again such an
  itinerary, with every visit inside its window and the trips still possible.\<close>

theorem TimeEnrich_correct:
  assumes "pv_ok path" "itin_ok (pv_items path)"
    and "\<And>xs l. mset (levelSort xs l) = mset l" "\<And>xs l. mset (rateSort xs l) = mset l"
  shows "\<exists>N ys. (\<forall>n \<ge> N. TimeEnrich n levelSort rateSort path = Some (0, with_items ys path)) \<and> enriched (pv_items path) ys"
  by (rule TimeEnrich_ends [OF assms])

theorem TimeEnrich_correct_witness:
  "\<exists>N ys. (\<forall>n \<ge> N. TimeEnrich n (\<lambda>_ l. l) (\<lambda>_ l. rev l) (PathView_new\<lparr>pv_item_list := enrich_demo, pv_len := 3\<rparr>) =
      Some (0, with_items ys (PathView_new\<lparr>pv_item_list := enrich_demo, pv_len := 3\<rparr>))) \<and> enriched enrich_demo ys"
proof -
  let ?p = "PathView_new\<lparr>pv_item_list := enrich_demo, pv_len := 3\<rparr>"
  have "pv_ok ?p" "pv_items ?p = enrich_demo" by (simp_all add: pv_ok_def pv_items_def enrich_demo_def)
  then show ?thesis using TimeEnrich_correct [of ?p "\<lambda>_ l. l" "\<lambda>_ l. rev l"] enrich_demo_ok by simp
qed

end
