(* ===== verification/RouteSearch.thy ===== *)
theory RouteSearch
  imports PathEnrich SPath StdHeap
begin

text \<open>
  The last stage of the bag planner (Route/bag/RouteWorker.cpp and RouteSearch.cpp). A worker turns a candidate into an
  itinerary (\<open>RouteWorker_DoRoute\<close>: \<open>AdaptOrder\<close>, \<open>DoRoute\<close>, \<open>TimeEnrich\<close>). The search runs a worker per candidate, drops
  invalid and repeated routes, measures and scores the rest (\<open>EvalObj\<close>, \<open>DoEval\<close>), copies the best into the plan and tries
  to move full days to the front (\<open>AdjustTight\<close>, with the backtracking \<open>Perm\<close> over the days). \<open>double\<close> values are
  rationals; the sorts of \<open>std::sort\<close> are parameters, the fuel is that of \<open>TimeEnrich\<close>. Each worker writes only its own path,
  so their order does not matter and the jobs are run one by one.

  The specification: \<open>itinerary\<close> is a complete valid itinerary, \<open>worked\<close> what a worker leaves, \<open>rearranged\<close> another order
  of some days, \<open>runs\<close> the maximal runs of legs of one date, \<open>search_result\<close> the outcome of the search.
\<close>

section \<open>RouteWorker\<close>

type_synonym stretch_sort = "planitem list \<Rightarrow> stretchitem list \<Rightarrow> stretchitem list"

definition RouteWorker_DoRoute ::
  "nat \<Rightarrow> stretch_sort \<Rightarrow> stretch_sort \<Rightarrow> bagplan \<Rightarrow> spath \<Rightarrow> pathview \<Rightarrow> (int \<times> pathview) option" where
  "RouteWorker_DoRoute fuel levelSort rateSort bg dfsPath path = do {
     (ret, orderList) \<leftarrow> AdaptOrder bg (Some dfsPath) [];
     (ret1, path1) \<leftarrow> (if ret = 0 then map_option (\<lambda>(r, st, p). (r, p)) (DoRoute (bg_base bg) orderList (TrafRoute_new, path))
                     else Some (ret, path));
     (ret2, path2) \<leftarrow> (if ret1 = 0 then TimeEnrich fuel levelSort rateSort path1 else Some (ret1, path1));
     Some (ret2, path2\<lparr>pv_hashFrom := sp_hash dfsPath\<rparr>) }"

section \<open>Evaluation\<close>

definition hot_scale :: "int \<Rightarrow> int \<Rightarrow> rat" where
  "hot_scale dur rcmdDur =
     (let hotScale = (if dur < rcmdDur then of_int dur / of_int (rcmdDur + 1) else 1)
      in if hotScale < 3 / 10 then 0 else hotScale)"

fun hot_loop :: "baseplan \<Rightarrow> planitem list \<Rightarrow> rat \<Rightarrow> nat set \<Rightarrow> (rat \<times> nat set) option" where
  "hot_loop bp [] hotSum planned = Some (hotSum, planned)"
| "hot_loop bp (it # its) hotSum planned =
     (if lp_isVar (pl_place it) then do {
        d \<leftarrow> pl_durS it;
        let dur = pl_departTime it - pl_arriveTime it;
        hot_loop bp its (hotSum + hot_scale dur (ds_rcmd d) * of_int (GetHot bp (pl_place it)) * of_int dur / 3600)
          (insert (lp_addr (pl_place it)) planned) }
      else hot_loop bp its hotSum planned)"

definition is_walk :: "traffic option \<Rightarrow> bool" where
  "is_walk t \<longleftrightarrow> (case t of Some tr \<Rightarrow> tr_mode tr = traf_mode_int TRAF_MODE_WALKING | None \<Rightarrow> False)"

definition m_maxWalkDay :: int where "m_maxWalkDay = 3000"

fun walk_loop :: "planitem list \<Rightarrow> int \<Rightarrow> int \<Rightarrow> int" where
  "walk_loop [] walkPlus walkBlock = walkPlus"
| "walk_loop (it # its) walkPlus walkBlock =
     (let plus1 = (if is_key it \<and> walkBlock > m_maxWalkDay \<and> walkBlock - m_maxWalkDay > walkPlus then walkBlock - m_maxWalkDay else walkPlus);
          block1 = (if is_key it then 0 else walkBlock)
      in walk_loop its plus1 (if is_walk (pl_departTraffic it) then block1 + trafD (pl_departTraffic it) else block1))"

definition EvalObj :: "baseplan \<Rightarrow> pathview \<Rightarrow> pathview option" where
  "EvalObj bp path = do {
     let xs = pv_items path;
     (hotSum, planned) \<leftarrow> hot_loop bp xs 0 {};
     Some (path\<lparr>pv_hotValue := hotSum, pv_missLevel := eval_miss bp planned,
       pv_trafDist := foldl (\<lambda>s it. s + trafD (pl_departTraffic it)) 0 xs,
       pv_trafDur := foldl (\<lambda>s it. s + trafT (pl_departTraffic it)) 0 xs,
       pv_trafBusCnt := foldl (\<lambda>s it. if pl_departTraffic it \<noteq> None \<and> \<not> is_walk (pl_departTraffic it) then s + 1 else s) 0 xs,
       pv_walkDistPlus := walk_loop xs 0 0\<rparr>) }"

definition route_score :: "rat \<Rightarrow> int \<Rightarrow> pathview \<Rightarrow> rat" where
  "route_score hotMax distMax path =
     (let hotRatio = 8 / 10; distBottom = 5 * 1000;
          hotValueS = (pv_hotValue path + 1) / (hotMax + 1);
          trafDistS = max 0 (1 - (of_int (pv_trafDist path) + distBottom) / (of_int distMax + distBottom))
      in hotRatio * hotValueS + (1 - hotRatio) * trafDistS)"

definition DoEval :: "baseplan \<Rightarrow> pathview list \<Rightarrow> pathview list option" where
  "DoEval bp routeList =
     (if routeList = [] then Some []
      else do {
        ps \<leftarrow> those (map (EvalObj bp) routeList);
        let hotMax = Max (set (map pv_hotValue ps));
        let distMax = Max (set (map pv_trafDist ps));
        Some (map (\<lambda>p. p\<lparr>pv_score := route_score hotMax distMax p\<rparr>) ps) })"

section \<open>Moving full days to the front\<close>

record dayitem =
  di_date :: string
  di_usedDur :: int
  di_orderList :: "placeorder list"

record usedstate =
  us_day :: int
  us_usedTime :: int
  us_date :: string
  us_orderList :: "placeorder list"
  us_dayList :: "dayitem list"

definition order_type :: "u32 \<Rightarrow> u8" where
  "order_type t =
     (if t = ucast NODE_FUNC_PLACE_REST_LUNCH then NODE_FUNC_PLACE_REST_LUNCH
      else if t = ucast NODE_FUNC_PLACE_REST_SUPPER then NODE_FUNC_PLACE_REST_SUPPER
      else NODE_FUNC_PLACE_VIEW_SHOP)"

definition day_of :: "usedstate \<Rightarrow> dayitem" where
  "day_of s = \<lparr>di_date = us_date s, di_usedDur = us_usedTime s, di_orderList = us_orderList s\<rparr>"

definition change_day :: "string \<Rightarrow> usedstate \<Rightarrow> usedstate" where
  "change_day date s =
     (if us_date s \<noteq> date then
        (let s1 = (if us_day s \<noteq> -1 then s\<lparr>us_dayList := us_dayList s @ [day_of s], us_usedTime := 0\<rparr> else s)
         in s1\<lparr>us_orderList := [], us_date := date, us_day := us_day s + 1\<rparr>)
      else s)"

definition used_step :: "planitem \<times> planitem \<Rightarrow> usedstate \<Rightarrow> usedstate" where
  "used_step = (\<lambda>(lItem, pItem) s.
     let s1 = change_day (pl_departDate lItem) s;
         trafT0 = (if pl_arriveTraffic pItem \<noteq> None then trafT (pl_arriveTraffic pItem) else trafT (pl_departTraffic lItem));
         placeUsed = (if is_place pItem then pl_departTime pItem - pl_arriveTime pItem else 0);
         s2 = (if is_place pItem \<or> is_place lItem then s1\<lparr>us_usedTime := us_usedTime s1 + (placeUsed + trafT0)\<rparr> else s1)
     in if \<not> is_key pItem \<and> \<not> same_place (pl_place pItem) m_attachRest
        then s2\<lparr>us_orderList := us_orderList s2 @ [\<lparr>po_place = pl_place pItem, po_date = us_date s2,
               po_index = int (length (us_orderList s2)), po_type = order_type (pl_type pItem)\<rparr>]\<rparr>
        else s2)"

definition used_start :: usedstate where
  "used_start = \<lparr>us_day = -1, us_usedTime = 0, us_date = '''', us_orderList = [], us_dayList = []\<rparr>"

definition CalUsedDurPerDay :: "pathview \<Rightarrow> dayitem list" where
  "CalUsedDurPerDay path =
     (let xs = pv_items path; s = fold used_step (zip xs (tl xs)) used_start
      in if int (length (us_dayList s)) < us_day s + 1 then us_dayList s @ [day_of s] else us_dayList s)"

definition DayItem_Compare :: "dayitem \<Rightarrow> dayitem \<Rightarrow> bool" where
  "DayItem_Compare l r \<longleftrightarrow> di_usedDur l > di_usedDur r"

definition SwapTwoDays :: "nat \<Rightarrow> nat \<Rightarrow> 'a list \<Rightarrow> 'a list" where
  "SwapTwoDays lDay rDay dayList =
     (if lDay = rDay then dayList else dayList[lDay := dayList ! rDay, rDay := dayList ! lDay])"

definition perm_orders :: "string list \<Rightarrow> dayitem list \<Rightarrow> placeorder list" where
  "perm_orders dateList dayList =
     concat (map2 (\<lambda>day date. map (\<lambda>po. po\<lparr>po_date := date\<rparr>) (di_orderList day)) dayList dateList)"

definition perm_leaf ::
  "baseplan \<Rightarrow> string list \<Rightarrow> pathview \<times> dayitem list \<Rightarrow> (int \<times> pathview \<times> dayitem list) option" where
  "perm_leaf bp dateList = (\<lambda>(newPath, dayList). do {
     (ret, st, p) \<leftarrow> DoRoute bp (perm_orders dateList dayList) (TrafRoute_new, newPath);
     if ret = 0 \<and> pv_isValid p then Some (0, p, dayList) else Some (1, PathView_Reset p, dayList) })"

text \<open>The loop over the day to put first; \<open>rec\<close> arranges the days after it.\<close>

fun perm_loop ::
  "('p \<times> 'a list \<Rightarrow> (int \<times> 'p \<times> 'a list) option) \<Rightarrow> nat \<Rightarrow> nat list \<Rightarrow> 'p \<times> 'a list \<Rightarrow> (int \<times> 'p \<times> 'a list) option" where
  "perm_loop rec dayStart [] st = Some (1, st)"
| "perm_loop rec dayStart (i # is) (newPath, dayList) = do {
     (ret, newPath1, dayList1) \<leftarrow> rec (newPath, if i \<noteq> dayStart then SwapTwoDays dayStart i dayList else dayList);
     if ret = 0 then Some (0, newPath1, dayList1)
     else perm_loop rec dayStart is (newPath1, if i \<noteq> dayStart then SwapTwoDays i dayStart dayList1 else dayList1) }"

text \<open>The first argument is the number of days left, \<open>dayEnd - dayStart\<close>.\<close>

primrec Perm ::
  "nat \<Rightarrow> baseplan \<Rightarrow> string list \<Rightarrow> nat \<Rightarrow> pathview \<times> dayitem list \<Rightarrow> (int \<times> pathview \<times> dayitem list) option" where
  "Perm 0 bp dateList dayStart = perm_leaf bp dateList"
| "Perm (Suc n) bp dateList dayStart = perm_loop (Perm n bp dateList (Suc dayStart)) dayStart [dayStart..<dayStart + Suc n]"

fun trim_end :: "dayitem list \<Rightarrow> nat \<Rightarrow> nat" where
  "trim_end dayList 0 = 0"
| "trim_end dayList (Suc k) = (if di_usedDur (dayList ! k) = 0 then trim_end dayList k else Suc k)"

definition sort_range :: "('a list \<Rightarrow> 'a list) \<Rightarrow> nat \<Rightarrow> nat \<Rightarrow> 'a list \<Rightarrow> 'a list" where
  "sort_range srt a b xs = (if b > a then take a xs @ srt (take (b - a) (drop a xs)) @ drop b xs else xs)"

definition AdjustTight ::
  "nat \<Rightarrow> stretch_sort \<Rightarrow> stretch_sort \<Rightarrow> (dayitem list \<Rightarrow> dayitem list) \<Rightarrow> bagplan \<Rightarrow> pathview \<Rightarrow> (int \<times> pathview) option" where
  "AdjustTight fuel levelSort rateSort daySort bg path =
     (let dayList = CalUsedDurPerDay path; dateList = map di_date dayList in
      if length dayList > 8 \<or> length dayList \<le> 1 then Some (0, path)
      else
        (let startDay = 1;
             endDay = trim_end dayList (length dayList - 1);
             sorted = sort_range daySort startDay endDay dayList
         in if map di_date sorted = dateList then Some (0, path)
            else do {
              (ret, newPath, days) \<leftarrow> Perm (endDay - startDay) (bg_base bg) dateList startDay
                 (snd (PathView_Init (PathView_Length path) PathView_new), sorted);
              if ret = 0 then do {
                let path1 = PathView_Copy (newPath\<lparr>pv_hashFrom := pv_hashFrom path\<rparr>) path;
                (ret1, path2) \<leftarrow> TimeEnrich fuel levelSort rateSort path1;
                path3 \<leftarrow> PathView_Dump (bg_base bg) path2;
                Some (0, path3) }
              else Some (0, path) }))"

section \<open>Search\<close>

definition PathViewScoreCmp :: "pathview \<Rightarrow> pathview \<Rightarrow> bool" where
  "PathViewScoreCmp pa pb =
     (if pv_missLevel pa \<noteq> pv_missLevel pb then pv_missLevel pa < pv_missLevel pb else pv_score pa > pv_score pb)"

fun take_routes :: "pathview list \<Rightarrow> string list \<Rightarrow> pathview list" where
  "take_routes [] pathStrSet = []"
| "take_routes (path # ps) pathStrSet =
     (if \<not> pv_isValid path then take_routes ps pathStrSet
      else if PathView_GetIDStr path \<in> set pathStrSet then take_routes ps pathStrSet
      else path # take_routes ps (PathView_GetIDStr path # pathStrSet))"

definition RouteSearch_DoSearch ::
  "nat \<Rightarrow> stretch_sort \<Rightarrow> stretch_sort \<Rightarrow> (dayitem list \<Rightarrow> dayitem list) \<Rightarrow> (pathview list \<Rightarrow> pathview list)
     \<Rightarrow> bagplan \<Rightarrow> spath list \<Rightarrow> pathview \<Rightarrow> (int \<times> pathview) option" where
  "RouteSearch_DoSearch fuel levelSort rateSort daySort pathSort bg dfsList planList = do {
     jobs \<leftarrow> those (map (\<lambda>p. map_option snd (RouteWorker_DoRoute fuel levelSort rateSort bg p PathView_new)) dfsList);
     routeList \<leftarrow> DoEval (bg_base bg) (take_routes jobs []);
     case pathSort routeList of
       [] \<Rightarrow> Some (0, planList)
     | best # _ \<Rightarrow> do {
         (r, plan) \<leftarrow> AdjustTight fuel levelSort rateSort daySort bg (PathView_Copy best planList);
         Some (0, plan) } }"

text \<open>Two paths that differ in what earlier items left in their slots.\<close>

definition twin :: "bool \<Rightarrow> pathview \<Rightarrow> pathview \<Rightarrow> bool" where
  "twin v p q \<longleftrightarrow> pv_ok p \<and> pv_ok q \<and> pv_abs p = pv_abs q \<and> pv_isValid p = v \<and> pv_isValid q = v"

definition twin_res :: "bool \<Rightarrow> (int \<times> trafroute \<times> pathview) option \<Rightarrow> (int \<times> trafroute \<times> pathview) option \<Rightarrow> bool" where
  "twin_res v = rel_option (\<lambda>(r, s, p) (r', s', q). r = r' \<and> s = s' \<and> twin v p q \<and>
     (\<forall>l. tf_lastItem s = Some l \<longrightarrow> l < pv_len p))"

definition blank_path :: "pathview \<Rightarrow> bool" where
  "blank_path p \<longleftrightarrow> pv_ok p \<and> pv_len p = 0 \<and> \<not> pv_isValid p"

text \<open>Specification: the arrangements of the days \<open>s\<close> to \<open>s + n - 1\<close> in the order in which the code tries them.\<close>

fun arrangements :: "nat \<Rightarrow> nat \<Rightarrow> 'a list \<Rightarrow> 'a list list" where
  "arrangements 0 s xs = [xs]"
| "arrangements (Suc n) s xs = concat (map (\<lambda>i. arrangements n (Suc s) (SwapTwoDays s i xs)) [s..<s + Suc n])"

text \<open>Two arrangements of the same days that agree before \<open>s\<close> and from \<open>s + n\<close> on.\<close>

definition rearranged :: "nat \<Rightarrow> nat \<Rightarrow> 'a list \<Rightarrow> 'a list \<Rightarrow> bool" where
  "rearranged n s xs ys \<longleftrightarrow> mset ys = mset xs \<and> (\<forall>k. k < s \<or> s + n \<le> k \<longrightarrow> ys ! k = xs ! k)"

definition days_route :: "baseplan \<Rightarrow> string list \<Rightarrow> dayitem list \<Rightarrow> bool" where
  "days_route bp dateList days \<longleftrightarrow> (case DoRoute bp (perm_orders dateList days) (TrafRoute_new, PathView_new) of
     Some (ret, st, p) \<Rightarrow> ret = 0 | None \<Rightarrow> False)"

definition day_routed :: "baseplan \<Rightarrow> string list \<Rightarrow> dayitem list \<Rightarrow> pathview \<Rightarrow> bool" where
  "day_routed bp dateList days path \<longleftrightarrow> pv_ok path \<and> pv_isValid path \<and> routed bp (perm_orders dateList days) (pv_items path) \<and>
     (\<exists>st p. DoRoute bp (perm_orders dateList days) (TrafRoute_new, PathView_new) = Some (0, st, p) \<and> pv_abs path = pv_abs p)"

text \<open>The outcome of a search of the arrangements \<open>cands\<close> that ends with \<open>days\<close> when all fail.\<close>

definition searched :: "baseplan \<Rightarrow> string list \<Rightarrow> dayitem list list \<Rightarrow> dayitem list \<Rightarrow> (int \<times> pathview \<times> dayitem list) option \<Rightarrow> bool" where
  "searched bp dateList cands days res \<longleftrightarrow> (case find (days_route bp dateList) cands of
     Some ys \<Rightarrow> \<exists>p. res = Some (0, p, ys) \<and> day_routed bp dateList ys p
   | None \<Rightarrow> \<exists>p. res = Some (1, p, days) \<and> blank_path p)"

definition day_dates_ok :: "baseplan \<Rightarrow> string list \<Rightarrow> bool" where
  "day_dates_ok bp dateList \<longleftrightarrow> (\<forall>date \<in> set dateList. \<forall>kn \<in> set (bp_KeyNode bp). compareDayStr date (kn_trafDate kn) \<noteq> None)"

text \<open>Specification: the legs of an itinerary, cut into runs that depart on the same date.\<close>

fun runs :: "('a \<Rightarrow> 'b) \<Rightarrow> 'a list \<Rightarrow> 'a list list" where
  "runs f [] = []"
| "runs f (x # xs) = (case runs f xs of [] \<Rightarrow> [[x]]
     | g # gs \<Rightarrow> if f x = f (hd g) then (x # g) # gs else [x] # g # gs)"

definition counted :: "planitem \<Rightarrow> bool" where
  "counted it \<longleftrightarrow> \<not> is_key it \<and> \<not> same_place (pl_place it) m_attachRest"

definition leg_used :: "planitem \<times> planitem \<Rightarrow> int" where
  "leg_used = (\<lambda>(l, p). if is_place p \<or> is_place l
     then (if is_place p then pl_departTime p - pl_arriveTime p else 0)
       + (if pl_arriveTraffic p \<noteq> None then trafT (pl_arriveTraffic p) else trafT (pl_departTraffic l))
     else 0)"

definition visit_orders :: "string \<Rightarrow> planitem list \<Rightarrow> placeorder list" where
  "visit_orders date its = map (\<lambda>(i, it). \<lparr>po_place = pl_place it, po_date = date, po_index = int i, po_type = order_type (pl_type it)\<rparr>)
     (enumerate 0 its)"

definition leg_date :: "planitem \<times> planitem \<Rightarrow> string" where
  "leg_date l = pl_departDate (fst l)"

definition run_day :: "(planitem \<times> planitem) list \<Rightarrow> dayitem" where
  "run_day g = \<lparr>di_date = leg_date (hd g), di_usedDur = sum_list (map leg_used g),
     di_orderList = visit_orders (leg_date (hd g)) (filter counted (map snd g))\<rparr>"

text \<open>What a step adds to the day it is in.\<close>

definition extend_day :: "planitem \<times> planitem \<Rightarrow> dayitem \<Rightarrow> dayitem" where
  "extend_day l d = d\<lparr>di_usedDur := di_usedDur d + leg_used l, di_orderList := di_orderList d @
     (if counted (snd l) then [\<lparr>po_place = pl_place (snd l), po_date = di_date d,
        po_index = int (length (di_orderList d)), po_type = order_type (pl_type (snd l))\<rparr>] else [])\<rparr>"

text \<open>A complete itinerary: valid, consistent, with the key nodes of the request and the given places, in order.\<close>

definition stamped :: "baseplan \<Rightarrow> planitem \<Rightarrow> bool" where
  "stamped bp it \<longleftrightarrow> (\<exists>t. \<exists>kn \<in> set (bp_KeyNode bp). 0 \<le> t \<and> t \<le> kn_close kn \<and> pl_departDate it = date8 t (bp_TimeZone bp))"

definition itinerary :: "baseplan \<Rightarrow> lyplace list \<Rightarrow> pathview \<Rightarrow> bool" where
  "itinerary bp places path \<longleftrightarrow> pv_ok path \<and> pv_isValid path \<and> itin_ok (pv_items path) \<and>
     (\<forall>it \<in> set (pv_items path). is_place it \<noteq> is_key it) \<and> (\<forall>it \<in> set (pv_items path). stamped bp it) \<and>
     list_all2 key_at (bp_KeyNode bp) (filter is_key (pv_items path)) \<and>
     map pl_place (filter (Not \<circ> is_key) (pv_items path)) = places \<and> (\<forall>p \<in> set places. lp_isVar p)"

text \<open>A request that can be planned: consistent key nodes, and dates from the epoch to the last key node that compare with those
  of the key nodes.\<close>

definition plan_ok :: "baseplan \<Rightarrow> bool" where
  "plan_ok bp \<longleftrightarrow> keys_ok bp \<and> times_ok bp \<and> bp_KeyNode bp \<noteq> [] \<and>
     (\<forall>kn \<in> set (bp_KeyNode bp). 0 \<le> ds_zip (kn_durS kn)) \<and>
     (\<forall>kn \<in> set (bp_KeyNode bp). \<forall>kn' \<in> set (bp_KeyNode bp). compareDayStr (kn_close_date kn) (kn_trafDate kn') \<noteq> None \<and>
        (\<forall>t. 0 \<le> t \<and> t \<le> kn_close kn \<longrightarrow> compareDayStr (date8 t (bp_TimeZone bp)) (kn_trafDate kn') \<noteq> None))"

definition cand_places :: "bagplan \<Rightarrow> spath \<Rightarrow> lyplace list" where
  "cand_places bg p = map (\<lambda>i. bg_posPList bg ! unat (pos_at p i)) [0..<nat (sp_len p)]"

definition same_kind :: "planitem \<Rightarrow> planitem \<Rightarrow> bool" where
  "same_kind x y \<longleftrightarrow> pl_place y = pl_place x \<and> pl_type y = pl_type x \<and> pl_durS y = pl_durS x \<and> pl_departDate y = pl_departDate x \<and>
     (is_key x \<longrightarrow> pl_arriveTime y = pl_arriveTime x \<and> pl_departTime y = pl_departTime x)"

definition worked :: "bagplan \<Rightarrow> spath \<Rightarrow> int \<times> pathview \<Rightarrow> bool" where
  "worked bg p = (\<lambda>(ret, path). ret \<in> {0, 1} \<and> pv_ok path \<and> pv_hashFrom path = sp_hash p \<and> pv_isValid path = (ret = 0) \<and>
     (ret = 0 \<longrightarrow> itinerary (bg_base bg) (filter lp_isVar (cand_places bg p)) path))"

definition dates_good :: "baseplan \<Rightarrow> pathview \<Rightarrow> bool" where
  "dates_good bp path \<longleftrightarrow> (\<forall>it \<in> set (pv_items path). pl_departDate it \<noteq> '''' \<and>
     (\<forall>kn \<in> set (bp_KeyNode bp). compareDayStr (pl_departDate it) (kn_trafDate kn) \<noteq> None))"

definition day_places :: "dayitem list \<Rightarrow> lyplace list" where
  "day_places days = concat (map (map po_place \<circ> di_orderList) days)"

text \<open>The itinerary as it was, or one whose days between the first and the last are arranged anew.\<close>

definition adjusted :: "baseplan \<Rightarrow> pathview \<Rightarrow> pathview \<Rightarrow> bool" where
  "adjusted bp path path' \<longleftrightarrow> path' = path \<or>
     (\<exists>days. rearranged (length (CalUsedDurPerDay path) - 2) 1 (CalUsedDurPerDay path) days \<and>
       pv_hashFrom path' = pv_hashFrom path \<and> itinerary bp (filter lp_isVar (day_places days)) path')"

text \<open>A route, measured and given its score among the measured routes \<open>ps\<close>.\<close>

definition scored :: "baseplan \<Rightarrow> pathview list \<Rightarrow> pathview \<Rightarrow> pathview \<Rightarrow> bool" where
  "scored bp ps p r \<longleftrightarrow> (\<exists>q \<in> set ps. EvalObj bp p = Some q \<and>
     r = q\<lparr>pv_score := route_score (Max (set (map pv_hotValue ps))) (Max (set (map pv_trafDist ps))) q\<rparr>)"

text \<open>What the worker of each candidate leaves, the routes taken from it, and the one the search continues with.\<close>

definition best_route :: "bagplan \<Rightarrow> pathview list \<Rightarrow> pathview \<Rightarrow> bool" where
  "best_route bg jobs best \<longleftrightarrow> (\<exists>routes. DoEval (bg_base bg) (take_routes jobs []) = Some routes \<and> best \<in> set routes \<and>
     (\<forall>r \<in> set routes. \<not> PathViewScoreCmp r best))"

definition search_result :: "bagplan \<Rightarrow> spath list \<Rightarrow> pathview list \<Rightarrow> pathview \<Rightarrow> pathview \<Rightarrow> bool" where
  "search_result bg dfsList jobs planList plan \<longleftrightarrow>
     (if \<forall>p \<in> set jobs. \<not> pv_isValid p then plan = planList
      else \<exists>best. best_route bg jobs best \<and>
        (\<exists>p \<in> set dfsList. pv_hashFrom best = sp_hash p \<and> itinerary (bg_base bg) (filter lp_isVar (cand_places bg p)) best) \<and>
        adjusted (bg_base bg) (PathView_Copy best planList) plan)"

text \<open>A request with two key nodes on one date, and an itinerary of it.\<close>

definition tight_date :: string where "tight_date = toDateStr 100 8"

definition tight_key :: keynode where
  "tight_key = KeyNode_new 0 place0 0 100 tight_date 0 0 0 0 0 0 0 NODE_FUNC_KEY_HOTEL_SLEEP 0 False 8"

definition tight_plan :: baseplan where
  "tight_plan = BasePlan_new\<lparr>bp_KeyNode := [tight_key, tight_key]\<rparr>"

definition tight_item :: planitem where
  "tight_item = PlanItem_new\<lparr>pl_type := NODE_FUNC_KEY_HOTEL_SLEEP, pl_durS := Some (kn_durS tight_key), pl_departDate := tight_date\<rparr>"

definition tight_path :: pathview where
  "tight_path = PathView_new\<lparr>pv_item_list := [tight_item, tight_item], pv_len := 2, pv_isValid := True\<rparr>"

text \<open>An insertion sort by \<open>PathViewScoreCmp\<close>.\<close>

primrec score_insert :: "pathview \<Rightarrow> pathview list \<Rightarrow> pathview list" where
  "score_insert p [] = [p]"
| "score_insert p (q # qs) = (if PathViewScoreCmp q p then q # score_insert p qs else p # q # qs)"

definition score_sort :: "pathview list \<Rightarrow> pathview list" where
  "score_sort ps = foldr score_insert ps []"

section \<open>Lemmas\<close>

lemma twin_len: "twin v p q \<Longrightarrow> pv_len q = pv_len p"
  by (metis length_pv_abs twin_def)

lemma Append_valid: "pv_isValid (snd (PathView_AppendWith wr p)) = pv_isValid p"
  by (simp add: PathView_AppendWith_def PathView_Grow_def PathView_IncreaseCapacity_def Let_def split: prod.split)

lemma twin_Append:
  assumes "twin v p q"
  shows "twin v (snd (PathView_Append a p)) (snd (PathView_Append a q)) \<and> pv_len (snd (PathView_Append a p)) = pv_len p + 1"
proof -
  have ok: "pv_ok p" "pv_ok q" using assms by (auto simp: twin_def)
  obtain p' s where p: "PathView_AppendWith (PlanItem_CopyArgs a) p = (0, p')" "pv_ok p'"
    "pv_items p' = pv_items p @ [PlanItem_CopyArgs a s]" "pv_len p' = pv_len p + 1" by (rule PathView_AppendWith_spec [OF ok(1)])
  obtain q' t where q: "PathView_AppendWith (PlanItem_CopyArgs a) q = (0, q')" "pv_ok q'"
    "pv_items q' = pv_items q @ [PlanItem_CopyArgs a t]" "pv_len q' = pv_len q + 1" by (rule PathView_AppendWith_spec [OF ok(2)])
  show ?thesis using p q assms Append_valid [of "PlanItem_CopyArgs a"]
    by (simp add: PathView_Append_def twin_def pv_abs_def core_CopyArgs) (metis snd_conv)
qed

lemma twin_item:
  assumes "twin v p q" "l < pv_len p"
  shows "core (pv_item_list p ! l) = core (pv_item_list q ! l)"
proof -
  have "pv_abs p ! l = pv_abs q ! l" using assms by (simp add: twin_def)
  moreover have "l < pv_len q" using assms twin_len by simp
  moreover have "l < length (pv_items p)" "l < length (pv_items q)" using assms calculation(2) by (auto simp: twin_def length_pv_items)
  ultimately show ?thesis using assms(2) by (simp add: pv_abs_def) (simp add: pv_items_def)
qed

lemma core_fields:
  assumes "core x = core y"
  shows "pl_deptID x = pl_deptID y" "pl_departTime x = pl_departTime y" "pl_place x = pl_place y" "pl_type x = pl_type y"
    "pl_arriveTime x = pl_arriveTime y" "pl_departTraffic x = pl_departTraffic y"
  using arg_cong [OF assms, of pl_deptID] arg_cong [OF assms, of pl_departTime] arg_cong [OF assms, of pl_place]
    arg_cong [OF assms, of pl_type] arg_cong [OF assms, of pl_arriveTime] arg_cong [OF assms, of pl_departTraffic]
  by (simp_all add: core_def)

lemma twin_upd:
  assumes "twin v p q" "l < pv_len p"
  shows "twin v (pv_upd (int l) (\<lambda>it. it\<lparr>pl_departTime := c, pl_departTraffic := t\<rparr>) p)
    (pv_upd (int l) (\<lambda>it. it\<lparr>pl_departTime := c, pl_departTraffic := t\<rparr>) q)"
proof -
  have comm: "core (it\<lparr>pl_departTime := c, pl_departTraffic := t\<rparr>) = (core it)\<lparr>pl_departTime := c, pl_departTraffic := t\<rparr>" for it
    by (simp add: core_def)
  have abs: "pv_abs (pv_upd (int l) (\<lambda>it. it\<lparr>pl_departTime := c, pl_departTraffic := t\<rparr>) r) =
      (pv_abs r)[l := (core (pv_item_list r ! l))\<lparr>pl_departTime := c, pl_departTraffic := t\<rparr>]" if "l < pv_len r" for r
    using that by (simp add: pv_upd_def pv_abs_def pv_items_def take_update_swap map_update comm)
  then show ?thesis using assms twin_len [OF assms(1)] twin_item [OF assms] unfolding twin_def
    by (auto simp: pv_ok_def pv_upd_def)
qed

lemma twin_resI: "twin v p q \<Longrightarrow> (\<forall>l. tf_lastItem s = Some l \<longrightarrow> l < pv_len p) \<Longrightarrow> twin_res v (Some (r, s, p)) (Some (r, s, q))"
  by (simp add: twin_res_def)

lemma twin_res_None: "twin_res v None None"
  by (simp add: twin_res_def)

lemma twin_bind: "(\<And>x. twin_res v (f x) (g x)) \<Longrightarrow> twin_res v (m \<bind> f) (m \<bind> g)"
  by (cases m) (simp_all add: twin_res_None)

lemma twin_ExpandNode:
  assumes T: "twin v p q" and L: "\<forall>l. tf_lastItem st = Some l \<longrightarrow> l < pv_len p"
  shows "twin_res v (ExpandNode bp place durS nodeType a dp ocs (st, p)) (ExpandNode bp place durS nodeType a dp ocs (st, q))"
proof -
  note same = twin_resI [OF T L]
  have slot: "last_slot (snd (PathView_Append x q')) = last_slot (snd (PathView_Append x p'))" if "twin v p' q'" for x p' q'
    using twin_len twin_Append [OF that] by (metis last_slot_def)
  have app: "twin_res v (Some (0, st\<lparr>tf_lastItem := last_slot (snd (PathView_Append x p'))\<rparr>, snd (PathView_Append x p')))
      (Some (0, st\<lparr>tf_lastItem := last_slot (snd (PathView_Append x q'))\<rparr>, snd (PathView_Append x q')))" if "twin v p' q'" for x p' q'
    unfolding slot [OF that] using twin_Append [OF that] by (intro twin_resI) (auto simp: last_slot_def)
  have item: "pl_deptID (pv_item_list q ! l) = pl_deptID (pv_item_list p ! l)"
    "pl_departTime (pv_item_list q ! l) = pl_departTime (pv_item_list p ! l)" if "tf_lastItem st = Some l" for l
    using core_fields [OF twin_item [OF T]] L that by auto
  show ?thesis
    unfolding ExpandNode_def
    using app [OF T] app [OF twin_upd [OF T]] same item L
    by (auto simp: Let_def twin_res_None split: option.split Option.bind_split)
qed

lemma twin_res_bind:
  assumes "twin_res v m m'"
    and "\<And>r s p q. twin v p q \<Longrightarrow> \<forall>l. tf_lastItem s = Some l \<longrightarrow> l < pv_len p \<Longrightarrow> twin_res w (f (r, s, p)) (f (r, s, q))"
  shows "twin_res w (m \<bind> f) (m' \<bind> f)"
  using assms by (auto simp: twin_res_def split: Option.bind_split elim!: option.rel_cases)

lemma twin_block_loop:
  "twin v p q \<Longrightarrow> \<forall>l. tf_lastItem st = Some l \<longrightarrow> l < pv_len p \<Longrightarrow>
    twin_res v (block_loop bp orders lastKey block k (st, p)) (block_loop bp orders lastKey block k (st, q))"
proof (induction k arbitrary: st p q)
  case 0
  then show ?case by (simp add: twin_resI)
next
  case (Suc k)
  note same = twin_resI [OF Suc.prems]
  show ?case
    using same Suc.IH [OF Suc.prems(1), of "st\<lparr>tf_placeIdx := tf_placeIdx st + 1\<rparr>"] Suc.prems(2)
    by (auto simp: Let_def split: option.split intro!: twin_res_bind [OF twin_ExpandNode [OF Suc.prems]] Suc.IH twin_resI)
qed

lemma twin_ExpandBlock:
  "twin v p q \<Longrightarrow> \<forall>l. tf_lastItem st = Some l \<longrightarrow> l < pv_len p \<Longrightarrow>
    twin_res v (ExpandBlock bp orders (st, p)) (ExpandBlock bp orders (st, q))"
  by (auto simp: ExpandBlock_def split: option.split intro: twin_resI twin_block_loop)

lemma twin_ExpandKeynode:
  assumes T: "twin v p q" and L: "\<forall>l. tf_lastItem st = Some l \<longrightarrow> l < pv_len p"
  shows "twin_res v (ExpandKeynode bp orders (st, p)) (ExpandKeynode bp orders (st, q))"
proof -
  define rest where "rest = (\<lambda>(ret :: int, st1 :: trafroute, path1 :: pathview).
     if ret \<noteq> 0 then Some (ret, st1, path1) else Some (0, st1\<lparr>tf_keyIdx := tf_keyIdx st1 + 1\<rparr>, path1))"
  have step: "twin_res v (ExpandNode bp pl d t a b ocs (st, p) \<bind> rest) (ExpandNode bp pl d t a b ocs (st, q) \<bind> rest)" for pl d t a b ocs
    by (rule twin_res_bind [OF twin_ExpandNode [OF T L]]) (simp add: rest_def twin_resI)
  show ?thesis
    unfolding ExpandKeynode_def rest_def [symmetric] prod.case
    by (intro twin_bind) (simp add: twin_resI [OF T L] step)
qed

lemma twin_route_loop:
  "twin v p q \<Longrightarrow> \<forall>l. tf_lastItem st = Some l \<longrightarrow> l < pv_len p \<Longrightarrow>
    twin_res v (route_loop fuel bp orders (st, p)) (route_loop fuel bp orders (st, q))"
proof (induction fuel arbitrary: st p q)
  case 0
  then show ?case by (simp add: twin_res_None)
next
  case (Suc fuel)
  then show ?case
    by (auto intro!: twin_resI twin_res_bind [OF twin_ExpandKeynode] twin_res_bind [OF twin_ExpandBlock])
qed

lemma blank_new: "blank_path PathView_new" "blank_path (snd (PathView_Init n PathView_new))"
  by (simp_all add: blank_path_def PathView_new_def PathView_Reset_def PathView_Init_def pv_ok_def)

lemma blank_Reset: "pv_ok p \<Longrightarrow> blank_path (PathView_Reset p)"
  by (simp add: blank_path_def PathView_Reset_def pv_ok_def)

lemma Eval_abs:
  assumes "Eval bp p = Some p'" "twin v p q" "Eval bp q = Some q'"
  shows "twin v p' q'"
  using assms Eval_frame [OF assms(1)] Eval_frame [OF assms(3)] by (simp add: twin_def pv_ok_def pv_abs_def pv_items_def)

lemma DoRoute_same:
  assumes "keys_ok bp" "dates_ok bp orders" "blank_path p" "blank_path q"
  obtains ret st p' q' where "DoRoute bp orders (TrafRoute_new, p) = Some (ret, st, p')"
    "DoRoute bp orders (TrafRoute_new, q) = Some (ret, st, q')" "ret \<in> {0, 1}" "twin (ret = 0) p' q'"
    "ret = 0 \<longrightarrow> routed bp orders (pv_items p')"
proof -
  obtain ret st p' where P: "DoRoute bp orders (TrafRoute_new, p) = Some (ret, st, p')" "ret \<in> {0, 1}"
    "ret = 0 \<longrightarrow> routed bp orders (pv_items p')"
    using DoRoute_routes [OF assms(1,2), of p TrafRoute_new] assms(3) by (auto simp: blank_path_def)
  obtain ret' st' q' where Q: "DoRoute bp orders (TrafRoute_new, q) = Some (ret', st', q')"
    using DoRoute_routes [OF assms(1,2), of q TrafRoute_new] assms(4) by (auto simp: blank_path_def)
  define n where "n = int (length orders) + GetKeyNum bp"
  define st0 where "st0 = TrafRoute_new\<lparr>tf_keyNum := GetKeyNum bp, tf_placeNum := int (length orders), tf_placeIdx := 0, tf_keyIdx := 0\<rparr>"
  have "twin False (snd (PathView_Init n p)) (snd (PathView_Init n q))"
    using assms(3,4) by (auto simp: twin_def blank_path_def pv_abs_def pv_items_def PathView_Init_def PathView_Reset_def pv_ok_def)
  then have "twin_res False (route_loop (nat (GetKeyNum bp) + 1) bp orders (st0, snd (PathView_Init n p)))
      (route_loop (nat (GetKeyNum bp) + 1) bp orders (st0, snd (PathView_Init n q)))"
    by (rule twin_route_loop) (simp add: st0_def TrafRoute_new_def)
  then obtain r s p1 q1 where R: "route_loop (nat (GetKeyNum bp) + 1) bp orders (st0, snd (PathView_Init n p)) = Some (r, s, p1)"
    "route_loop (nat (GetKeyNum bp) + 1) bp orders (st0, snd (PathView_Init n q)) = Some (r, s, q1)" "twin False p1 q1"
    using P(1) by (auto simp: twin_res_def DoRoute_def Let_def st0_def n_def elim!: option.rel_cases simp del: route_loop.simps)
  show thesis
  proof (cases "r \<noteq> 0 \<or> tf_placeIdx s < tf_placeNum s \<or> tf_keyIdx s < tf_keyNum s")
    case True
    then have "ret = 1 \<and> st = s \<and> p' = p1" "ret' = 1 \<and> st' = s \<and> q' = q1"
      using P(1) Q R(1,2) by (auto simp: DoRoute_def Let_def simp del: route_loop.simps simp flip: st0_def n_def)
    then show thesis using that P Q R(3) by simp
  next
    case False
    then have E: "ret = 0" "st = s" "Eval bp (p1\<lparr>pv_isValid := True\<rparr>) = Some p'" "ret' = 0" "st' = s" "Eval bp (q1\<lparr>pv_isValid := True\<rparr>) = Some q'"
      using P(1) Q R(1,2) by (auto simp: DoRoute_def Let_def PathView_Dump_def simp del: route_loop.simps simp flip: st0_def n_def split: bind_splits)
    have "twin True (p1\<lparr>pv_isValid := True\<rparr>) (q1\<lparr>pv_isValid := True\<rparr>)"
      using R(3) by (simp add: twin_def pv_ok_def pv_abs_def pv_items_def)
    then have "twin True p' q'" using Eval_abs E(3,6) by blast
    then show thesis using that P Q E by simp
  qed
qed

section \<open>Arranging the days\<close>

lemma SwapTwoDays_twice: "i < length xs \<Longrightarrow> j < length xs \<Longrightarrow> SwapTwoDays i j (SwapTwoDays j i xs) = xs"
  by (auto simp: SwapTwoDays_def list_eq_iff_nth_eq nth_list_update)

lemma SwapTwoDays_length [simp]: "length (SwapTwoDays i j xs) = length xs"
  by (simp add: SwapTwoDays_def)

lemma mset_SwapTwoDays: "i < length xs \<Longrightarrow> j < length xs \<Longrightarrow> mset (SwapTwoDays i j xs) = mset xs"
  by (simp add: SwapTwoDays_def mset_swap)

lemma SwapTwoDays_outside: "k \<noteq> i \<Longrightarrow> k \<noteq> j \<Longrightarrow> SwapTwoDays i j xs ! k = xs ! k"
  by (simp add: SwapTwoDays_def)

lemma SwapTwoDays_if: "(if i \<noteq> s then SwapTwoDays s i xs else xs) = SwapTwoDays s i xs"
  by (simp add: SwapTwoDays_def)

lemma arrangements_sound:
  "s + n \<le> length xs \<Longrightarrow> ys \<in> set (arrangements n s xs) \<Longrightarrow> rearranged n s xs ys"
proof (induction n arbitrary: s xs ys)
  case (Suc n)
  then obtain i where i: "s \<le> i" "i < s + Suc n" "ys \<in> set (arrangements n (Suc s) (SwapTwoDays s i xs))"
    by (auto simp del: upt_Suc)
  then have "rearranged n (Suc s) (SwapTwoDays s i xs) ys" using Suc.IH [of "Suc s" "SwapTwoDays s i xs"] Suc.prems(1) by simp
  then show ?case using i Suc.prems(1) by (auto simp: rearranged_def mset_SwapTwoDays SwapTwoDays_outside)
qed (simp add: rearranged_def)

lemma arrangements_complete:
  "s + n \<le> length xs \<Longrightarrow> rearranged n s xs ys \<Longrightarrow> ys \<in> set (arrangements n s xs)"
proof (induction n arbitrary: s xs)
  case 0
  have "length ys = length xs" using 0(2) by (metis rearranged_def size_mset)
  then have "ys = xs" using 0(2) by (intro nth_equalityI) (auto simp: rearranged_def)
  then show ?case by simp
next
  case (Suc n)
  note m = Suc.prems(2) [unfolded rearranged_def]
  have len: "length ys = length xs" using m by (metis size_mset)
  have split: "zs = take s zs @ take (Suc n) (drop s zs) @ drop (s + Suc n) zs" for zs :: "'a list"
    by (metis append_take_drop_id drop_drop add.commute)
  have "take s ys = take s xs" "drop (s + Suc n) ys = drop (s + Suc n) xs"
    using m len Suc.prems(1) by (auto intro!: nth_equalityI)
  then have mid: "mset (take (Suc n) (drop s ys)) = mset (take (Suc n) (drop s xs))"
    using m split [of ys] split [of xs] by (metis add_left_cancel add_right_cancel mset_append)
  have "ys ! s \<in> set (take (Suc n) (drop s ys))"
    using Suc.prems(1) len by (auto simp: in_set_conv_nth intro!: exI [of _ 0])
  then have "ys ! s \<in> set (take (Suc n) (drop s xs))" using mid mset_eq_setD by metis
  then obtain j where j: "j < Suc n" "xs ! (s + j) = ys ! s" using Suc.prems(1) by (auto simp: in_set_conv_nth)
  define zs where "zs = SwapTwoDays s (s + j) xs"
  have z: "mset zs = mset xs" "length zs = length xs" "zs ! s = ys ! s" "\<forall>k. k < s \<or> s + Suc n \<le> k \<longrightarrow> zs ! k = xs ! k"
    unfolding zs_def using Suc.prems(1) j by (simp_all add: mset_SwapTwoDays SwapTwoDays_outside) (auto simp: SwapTwoDays_def nth_list_update)
  have "rearranged n (Suc s) zs ys" using m z by (auto simp: rearranged_def less_Suc_eq)
  then have "ys \<in> set (arrangements n (Suc s) zs)" using Suc.IH [of "Suc s" zs] Suc.prems(1) z by simp
  moreover have "s + j \<in> set [s..<s + Suc n]" using j by (simp del: upt_Suc)
  ultimately show ?case unfolding zs_def by (auto simp del: upt_Suc)
qed

lemma find_append: "find P (xs @ ys) = (case find P xs of None \<Rightarrow> find P ys | Some x \<Rightarrow> Some x)"
  by (induction xs) auto

lemma perm_orders_dates: "day_dates_ok bp dateList \<Longrightarrow> dates_ok bp (perm_orders dateList days)"
  by (auto simp: day_dates_ok_def dates_ok_def perm_orders_def dest!: set_zip_rightD)

lemma perm_leaf_searched:
  assumes "keys_ok bp" "day_dates_ok bp dateList" "blank_path p"
  shows "searched bp dateList [days] days (perm_leaf bp dateList (p, days))"
proof -
  obtain ret st p' q' where D: "DoRoute bp (perm_orders dateList days) (TrafRoute_new, p) = Some (ret, st, p')"
    "DoRoute bp (perm_orders dateList days) (TrafRoute_new, PathView_new) = Some (ret, st, q')" "ret \<in> {0, 1}" "twin (ret = 0) p' q'"
    "ret = 0 \<longrightarrow> routed bp (perm_orders dateList days) (pv_items p')"
    by (rule DoRoute_same [OF assms(1) perm_orders_dates [OF assms(2)] assms(3) blank_new(1)])
  then show ?thesis
    by (auto simp: searched_def perm_leaf_def days_route_def day_routed_def twin_def blank_Reset)
qed

lemma perm_loop_searched:
  assumes rec: "\<And>p ys. blank_path p \<Longrightarrow> length ys = length xs \<Longrightarrow> searched bp dateList (cands ys) ys (rec (p, ys))"
    and s: "s < length xs"
  shows "blank_path p \<Longrightarrow> \<forall>i \<in> set is. i < length xs \<Longrightarrow>
    searched bp dateList (concat (map (\<lambda>i. cands (SwapTwoDays s i xs)) is)) xs (perm_loop rec s is (p, xs))"
proof (induction "is" arbitrary: p)
  case Nil
  then show ?case by (simp add: searched_def)
next
  case (Cons i "is")
  have R: "searched bp dateList (cands (SwapTwoDays s i xs)) (SwapTwoDays s i xs) (rec (p, SwapTwoDays s i xs))"
    by (rule rec) (use Cons.prems in auto)
  have undo: "(if i \<noteq> s then SwapTwoDays i s (SwapTwoDays s i xs) else SwapTwoDays s i xs) = xs"
    using Cons.prems(2) s by (simp add: SwapTwoDays_twice) (simp add: SwapTwoDays_def)
  show ?case
  proof (cases "find (days_route bp dateList) (cands (SwapTwoDays s i xs))")
    case None
    then obtain p1 where p1: "rec (p, SwapTwoDays s i xs) = Some (1, p1, SwapTwoDays s i xs)" "blank_path p1"
      using R by (auto simp: searched_def)
    then have "perm_loop rec s (i # is) (p, xs) = perm_loop rec s is (p1, xs)"
      by (simp add: SwapTwoDays_if undo)
    then show ?thesis using Cons.IH [OF p1(2)] Cons.prems(2) None by (simp add: searched_def find_append)
  next
    case (Some ys)
    then show ?thesis using R by (auto simp: searched_def find_append SwapTwoDays_if)
  qed
qed

lemma Perm_searched:
  assumes "keys_ok bp" "day_dates_ok bp dateList"
  shows "blank_path p \<Longrightarrow> s + n \<le> length xs \<Longrightarrow> searched bp dateList (arrangements n s xs) xs (Perm n bp dateList s (p, xs))"
proof (induction n arbitrary: s xs p)
  case 0
  then show ?case using perm_leaf_searched [OF assms] by simp
next
  case (Suc n)
  have "searched bp dateList (concat (map (\<lambda>i. arrangements n (Suc s) (SwapTwoDays s i xs)) [s..<s + Suc n])) xs
      (perm_loop (Perm n bp dateList (Suc s)) s [s..<s + Suc n] (p, xs))"
    by (rule perm_loop_searched) (use Suc in auto)
  then show ?case by (simp del: upt_Suc)
qed

section \<open>The days of an itinerary\<close>

lemma runs_nonempty: "[] \<notin> set (runs f xs)"
  by (induction xs) (auto split: list.splits)

lemma runs_Nil: "runs f xs = [] \<longleftrightarrow> xs = []"
  by (cases xs) (auto split: list.splits)

lemma concat_runs: "concat (runs f xs) = xs"
  by (induction xs) (auto split: list.splits)

lemma runs_snoc:
  "runs f (xs @ [x]) = (if xs = [] then [[x]]
     else if f (last xs) = f x then butlast (runs f xs) @ [last (runs f xs) @ [x]] else runs f xs @ [[x]])"
proof (induction xs)
  case (Cons y ys)
  show ?case
  proof (cases "ys = []")
    case False
    then obtain g gs where g: "runs f ys = g # gs" using runs_Nil [of f ys] by (cases "runs f ys") auto
    then have "g \<noteq> []" using runs_nonempty [of f ys] by auto
    then show ?thesis using Cons.IH False g by (cases gs) auto
  qed auto
qed simp

lemma runs_date: "g \<in> set (runs f xs) \<Longrightarrow> x \<in> set g \<Longrightarrow> f x = f (hd g)"
proof (induction xs arbitrary: g)
  case (Cons y ys)
  then show ?case by (auto split: list.splits if_splits)
qed simp

lemma last_runs: "xs \<noteq> [] \<Longrightarrow> last (last (runs f xs)) = last xs"
proof -
  assume "xs \<noteq> []"
  then have r: "runs f xs \<noteq> []" by (simp add: runs_Nil)
  then have "last (runs f xs) \<noteq> []" using runs_nonempty last_in_set by metis
  moreover have "xs = concat (butlast (runs f xs)) @ last (runs f xs)"
    using r concat_runs [of f xs] by (metis append_butlast_last_id concat.simps concat_append append_Nil2)
  ultimately show ?thesis by (metis last_appendR)
qed

lemma visit_orders_snoc: "visit_orders date (its @ [it]) = visit_orders date its @
    [\<lparr>po_place = pl_place it, po_date = date, po_index = int (length its), po_type = order_type (pl_type it)\<rparr>]"
  by (simp add: visit_orders_def enumerate_append_eq)

lemma visit_orders_length: "length (visit_orders date its) = length its"
  by (simp add: visit_orders_def)

lemma used_step_day:
  "day_of (used_step l s) = extend_day l (day_of (change_day (leg_date l) s)) \<and>
   us_dayList (used_step l s) = us_dayList (change_day (leg_date l) s) \<and> us_day (used_step l s) = us_day (change_day (leg_date l) s)"
  by (cases l) (simp add: used_step_def Let_def day_of_def extend_day_def leg_used_def leg_date_def counted_def)

lemma run_day_snoc:
  assumes "g \<noteq> []" "leg_date l = leg_date (hd g)"
  shows "run_day (g @ [l]) = extend_day l (run_day g)"
  using assms by (simp add: run_day_def extend_day_def visit_orders_snoc visit_orders_length)

lemma run_day_single: "run_day [l] = extend_day l \<lparr>di_date = leg_date l, di_usedDur = 0, di_orderList = []\<rparr>"
  by (simp add: run_day_def extend_day_def visit_orders_def)

lemma used_fold:
  assumes "ls \<noteq> []" "\<forall>l \<in> set ls. leg_date l \<noteq> ''''"
  defines "s \<equiv> fold used_step ls used_start"
  shows "us_day s = int (length (runs leg_date ls)) - 1 \<and> us_dayList s @ [day_of s] = map run_day (runs leg_date ls)"
  using assms(1,2) unfolding s_def
proof (induction ls rule: rev_induct)
  case (snoc l ls)
  show ?case
  proof (cases "ls = []")
    case True
    then show ?thesis using snoc.prems used_step_day [of l used_start]
      by (simp add: used_start_def change_day_def day_of_def run_day_single)
  next
    case False
    define s where "s = fold used_step ls used_start"
    have IH: "us_day s = int (length (runs leg_date ls)) - 1" "us_dayList s @ [day_of s] = map run_day (runs leg_date ls)"
      using snoc False by (auto simp: s_def)
    have ne: "runs leg_date ls \<noteq> []" using False by (simp add: runs_Nil)
    define g where "g = last (runs leg_date ls)"
    have g: "g \<in> set (runs leg_date ls)" "g \<noteq> []" using ne runs_nonempty by (metis g_def last_in_set)+
    have day: "day_of s = run_day g" "us_dayList s = map run_day (butlast (runs leg_date ls))"
      using IH(2) ne by (metis g_def last_map last_snoc, metis butlast_snoc map_butlast)
    have date: "us_date s = leg_date (hd g)" using day(1) by (simp add: day_of_def run_day_def)
    have "leg_date (last ls) = leg_date (hd g)"
      using runs_date [OF g(1) last_in_set [OF g(2)]] last_runs [OF False, of leg_date] by (simp add: g_def)
    note last = this
    have d0: "us_day s \<noteq> -1" using IH(1) ne by simp
    show ?thesis
    proof (cases "leg_date (last ls) = leg_date l")
      case True
      then have "change_day (leg_date l) s = s" using date last by (simp add: change_day_def)
      then have "day_of (used_step l s) = run_day (g @ [l])" "us_dayList (used_step l s) = us_dayList s" "us_day (used_step l s) = us_day s"
        using used_step_day [of l s] run_day_snoc [OF g(2)] day(1) True last by simp_all
      then show ?thesis using IH(1) day(2) True False ne by (simp add: runs_snoc g_def flip: s_def)
    next
      case other: False
      then have "us_dayList (change_day (leg_date l) s) = us_dayList s @ [day_of s]" "us_day (change_day (leg_date l) s) = us_day s + 1"
        "day_of (change_day (leg_date l) s) = \<lparr>di_date = leg_date l, di_usedDur = 0, di_orderList = []\<rparr>"
        using date last d0 by (auto simp: change_day_def Let_def day_of_def)
      then show ?thesis using IH other False used_step_day [of l s] by (simp add: runs_snoc run_day_single flip: s_def)
    qed
  qed
qed simp

lemma CalUsed_runs:
  assumes "\<forall>it \<in> set (pv_items path). pl_departDate it \<noteq> ''''"
  shows "CalUsedDurPerDay path = map run_day (runs leg_date (zip (pv_items path) (tl (pv_items path))))"
proof -
  define ls where "ls = zip (pv_items path) (tl (pv_items path))"
  have d: "\<forall>l \<in> set ls. leg_date l \<noteq> ''''" using assms by (auto simp: ls_def leg_date_def dest: set_zip_leftD)
  show ?thesis
  proof (cases "ls = []")
    case True
    then show ?thesis by (simp add: CalUsedDurPerDay_def used_start_def flip: ls_def)
  next
    case False
    define s where "s = fold used_step ls used_start"
    have F: "us_day s = int (length (runs leg_date ls)) - 1" "us_dayList s @ [day_of s] = map run_day (runs leg_date ls)"
      using used_fold [OF False d] by (simp_all add: s_def)
    have "Suc (length (us_dayList s)) = length (runs leg_date ls)" using F(2) by (metis length_append_singleton length_map)
    then show ?thesis using F by (simp add: CalUsedDurPerDay_def Let_def flip: ls_def s_def)
  qed
qed

section \<open>Itineraries\<close>

lemma same_kind_lists:
  "list_all2 same_kind xs ys \<Longrightarrow> map pl_place (filter (Not \<circ> is_key) ys) = map pl_place (filter (Not \<circ> is_key) xs) \<and>
    list_all2 same_kind (filter is_key xs) (filter is_key ys) \<and>
    (\<forall>it \<in> set xs. is_place it \<noteq> is_key it) = (\<forall>it \<in> set ys. is_place it \<noteq> is_key it) \<and>
    (\<forall>it \<in> set xs. stamped bp it) = (\<forall>it \<in> set ys. stamped bp it)"
proof (induction rule: list_all2_induct)
  case (Cons x xs y ys)
  then have "is_key y = is_key x" "is_place y = is_place x" "stamped bp y = stamped bp x"
    by (simp_all add: same_kind_def is_key_def is_place_def stamped_def)
  then show ?case using Cons by (auto simp: same_kind_def)
qed simp

lemma same_kind_keys:
  assumes "list_all2 same_kind xs ys" "list_all2 key_at ks (filter is_key xs)"
  shows "list_all2 key_at ks (filter is_key ys)"
proof -
  have "list_all2 same_kind (filter is_key xs) (filter is_key ys)" using same_kind_lists [OF assms(1)] by simp
  moreover have "key_at k y" if "key_at k x" "same_kind x y" "is_key x" for k x y using that by (simp add: key_at_def same_kind_def)
  moreover have "\<forall>x \<in> set (filter is_key xs). is_key x" by simp
  ultimately show ?thesis using assms(2) unfolding list_all2_conv_all_nth by (metis nth_mem)
qed

lemma itinerary_same:
  assumes "itinerary bp places p" "list_all2 same_kind (pv_items p) (pv_items q)" "itin_ok (pv_items q)" "pv_ok q" "pv_isValid q"
  shows "itinerary bp places q"
  using assms same_kind_lists [OF assms(2), of bp] same_kind_keys [OF assms(2)] by (simp add: itinerary_def)

lemma itin_departs: "itin_ok xs \<Longrightarrow> i < length xs \<Longrightarrow> 0 \<le> pl_departTime (xs ! i)"
proof (induction i)
  case 0
  then show ?case by (auto simp: itin_ok_def)
next
  case (Suc i)
  then have d: "0 \<le> pl_departTime (xs ! i)" and leg: "leg_ok (xs ! i) (xs ! Suc i)" by (auto simp: itin_ok_def)
  show ?case
  proof (cases "is_key (xs ! Suc i)")
    case True
    then show ?thesis using Suc.prems unfolding itin_ok_def by metis
  next
    case False
    then have "visit_ok (xs ! Suc i)" using Suc.prems unfolding itin_ok_def by metis
    then show ?thesis using d leg False by (auto simp: visit_ok_def leg_ok_def PlanItem_GetDur_def)
  qed
qed

lemma routed_stamped:
  assumes R: "routed bp orders xs" and P: "plan_ok bp" and it: "it \<in> set xs"
  shows "stamped bp it"
proof -
  have "itin_ok xs" using routed_itin [OF R] P by (simp add: plan_ok_def)
  then have pos: "0 \<le> pl_departTime it" using it itin_departs by (metis in_set_conv_nth)
  have D: "in_day bp it" using R it by (simp add: routed_def)
  have "\<exists>kn \<in> set (bp_KeyNode bp). pl_departTime it \<le> kn_close kn"
  proof (cases "is_place it")
    case True
    then obtain a b date tr kn where t: "GetTraffic bp a b date = Some tr" "kn \<in> set (bp_KeyNode bp)"
      "pl_departTime it + tr_time tr \<le> kn_close kn - ds_zip (kn_durS kn)" using D by (auto simp: in_day_def)
    moreover have "0 \<le> tr_time tr" using P t(1) unfolding plan_ok_def times_ok_def by blast
    moreover have "0 \<le> ds_zip (kn_durS kn)" using P t(2) unfolding plan_ok_def by blast
    ultimately show ?thesis by (intro bexI [of _ kn]) auto
  next
    case False
    then have "it \<in> set (filter is_key xs)" using R it by (auto simp: routed_def)
    moreover have "list_all2 key_at (bp_KeyNode bp) (filter is_key xs)" using R by (simp add: routed_def)
    ultimately obtain kn where "kn \<in> set (bp_KeyNode bp)" "key_at kn it" by (metis in_set_conv_nth list_all2_conv_all_nth)
    then show ?thesis by (auto simp: key_at_def)
  qed
  then show ?thesis using pos D by (auto simp: stamped_def in_day_def)
qed

lemma routed_itinerary:
  assumes "routed bp orders (pv_items p)" "plan_ok bp" "pv_ok p" "pv_isValid p"
  shows "itinerary bp (filter lp_isVar (map po_place orders)) p"
  using assms routed_itin [OF assms(1)] routed_stamped [OF assms(1,2)] by (auto simp: itinerary_def plan_ok_def routed_def)

lemma enriched_same_kind: "enriched xs ys \<Longrightarrow> list_all2 same_kind xs ys"
  unfolding list_all2_conv_all_nth
proof (intro conjI allI impI)
  assume E: "enriched xs ys"
  then show "length xs = length ys" using retimed_length by (auto simp: enriched_def)
  fix i assume i: "i < length xs"
  obtain s t where "ys ! i = (xs ! i)\<lparr>pl_arriveTime := s, pl_departTime := t\<rparr>" using E i by (auto simp: enriched_def retimed_def)
  then have "pl_place (ys ! i) = pl_place (xs ! i)" "pl_type (ys ! i) = pl_type (xs ! i)" "pl_durS (ys ! i) = pl_durS (xs ! i)"
    "pl_departDate (ys ! i) = pl_departDate (xs ! i)" by simp_all
  moreover have "is_key (xs ! i) \<longrightarrow> ys ! i = xs ! i" using E i by (simp add: enriched_def)
  ultimately show "same_kind (xs ! i) (ys ! i)" by (auto simp: same_kind_def)
qed

lemma itinerary_enriched:
  assumes "itinerary bp places path"
    and "\<And>xs l. mset (levelSort xs l) = mset l" "\<And>xs l. mset (rateSort xs l) = mset l"
  shows "\<exists>N ys. (\<forall>n \<ge> N. TimeEnrich n levelSort rateSort path = Some (0, with_items ys path)) \<and> itinerary bp places (with_items ys path)"
proof -
  have ok: "pv_ok path" "itin_ok (pv_items path)" using assms(1) by (auto simp: itinerary_def)
  obtain N ys where N: "\<forall>n \<ge> N. TimeEnrich n levelSort rateSort path = Some (0, with_items ys path)" "enriched (pv_items path) ys"
    using TimeEnrich_ends [of path levelSort rateSort, OF ok assms(2,3)] by blast
  have len: "length ys = pv_len path" using N(2) retimed_length length_pv_items [OF ok(1)] by (auto simp: enriched_def)
  then have i: "pv_items (with_items ys path) = ys" by (rule pv_items_with_items)
  have k: "list_all2 same_kind (pv_items path) (pv_items (with_items ys path))" unfolding i by (rule enriched_same_kind [OF N(2)])
  have "itin_ok (pv_items (with_items ys path))" using N(2) by (simp add: i enriched_def)
  moreover have "pv_ok (with_items ys path)" "pv_isValid (with_items ys path)"
    using assms(1) len by (auto simp: with_items_def pv_ok_def itinerary_def)
  ultimately show ?thesis using itinerary_same [OF assms(1) k] N(1) by blast
qed

lemma itinerary_Copy:
  assumes "itinerary bp places q"
  shows "itinerary bp places (PathView_Copy q path)"
proof -
  have "pv_ok q" using assms by (simp add: itinerary_def)
  note C = PathView_Copy_items [OF this, of path]
  have k: "list_all2 same_kind (pv_items q) (pv_items (PathView_Copy q path))"
    using C by (auto simp: list_all2_conv_all_nth same_kind_def)
  have "itin_ok (pv_items (PathView_Copy q path)) = itin_ok (pv_items q)" by (rule tag_itin) (use C in auto)
  moreover have "pv_isValid (PathView_Copy q path) = pv_isValid q" by (simp add: PathView_Copy_def Let_def)
  ultimately show ?thesis using itinerary_same [OF assms k] C assms unfolding itinerary_def by blast
qed

lemma itinerary_Eval:
  assumes "itinerary bp places path"
  shows "\<exists>path'. Eval bp path = Some path' \<and> itinerary bp places path'"
proof -
  have "lp_isVar (pl_place it)" if "it \<in> set (pv_items path)" "is_place it" for it
  proof -
    have "it \<in> set (filter (Not \<circ> is_key) (pv_items path))" using that assms by (auto simp: itinerary_def)
    then have "pl_place it \<in> set (map pl_place (filter (Not \<circ> is_key) (pv_items path)))" by (metis image_eqI list.set_map)
    then show ?thesis using assms by (auto simp: itinerary_def)
  qed
  then obtain p where p: "Eval bp path = Some p" using Eval_total by blast
  then show ?thesis using assms Eval_frame [OF p] by (auto simp: itinerary_def pv_ok_def pv_items_def)
qed

lemma itinerary_hash: "itinerary bp places (p\<lparr>pv_hashFrom := h\<rparr>) = itinerary bp places p"
  by (simp add: itinerary_def pv_ok_def pv_items_def)

section \<open>The worker\<close>

lemma worker_dates:
  assumes "adapt_ok bg p" "plan_ok (bg_base bg)"
  shows "dates_ok (bg_base bg) (map (\<lambda>i. order_at bg p i (t i)) [0..<nat (sp_len p)])"
proof -
  have "bp_KeyNode (bg_base bg) ! unat (blk_at p i) \<in> set (bp_KeyNode (bg_base bg))" if "i < nat (sp_len p)" for i
    using adapt_lookups(3) [OF assms(1) that] assms(1) by (auto simp: adapt_ok_def)
  then show ?thesis using assms(2) by (auto simp: dates_ok_def order_at_def plan_ok_def)
qed

lemma RouteWorker_ends:
  assumes "adapt_ok bg p" "plan_ok (bg_base bg)"
    and "\<And>xs l. mset (levelSort xs l) = mset l" "\<And>xs l. mset (rateSort xs l) = mset l"
  shows "\<exists>N r. (\<forall>n \<ge> N. RouteWorker_DoRoute n levelSort rateSort bg p PathView_new = Some r) \<and> worked bg p r"
proof -
  obtain ret orders where A: "AdaptOrder bg (Some p) [] = Some (ret, orders)" "ret \<in> {0, 1}"
    "ret = 0 \<longrightarrow> orders = map (\<lambda>i. order_at bg p i (meal_at bg p i)) [0..<nat (sp_len p)]"
    using AdaptOrder_spec [OF assms(1)] by blast
  have new: "pv_ok (PathView_new\<lparr>pv_hashFrom := h\<rparr>)" "\<not> pv_isValid PathView_new" for h
    using blank_new(1) by (auto simp: blank_path_def pv_ok_def)
  show ?thesis
  proof (cases "ret = 0")
    case False
    then have "\<forall>n \<ge> 0. RouteWorker_DoRoute n levelSort rateSort bg p PathView_new = Some (1, PathView_new\<lparr>pv_hashFrom := sp_hash p\<rparr>)"
      using A by (auto simp: RouteWorker_DoRoute_def)
    moreover have "worked bg p (1, PathView_new\<lparr>pv_hashFrom := sp_hash p\<rparr>)" using new by (simp add: worked_def)
    ultimately show ?thesis by blast
  next
    case True
    then have o: "orders = map (\<lambda>i. order_at bg p i (meal_at bg p i)) [0..<nat (sp_len p)]" using A by simp
    then have places: "map po_place orders = cand_places bg p" by (simp add: cand_places_def order_at_def)
    have K: "keys_ok (bg_base bg)" using assms(2) by (simp add: plan_ok_def)
    obtain r st q q' where D: "DoRoute (bg_base bg) orders (TrafRoute_new, PathView_new) = Some (r, st, q)" "r \<in> {0, 1}" "twin (r = 0) q q'"
      "r = 0 \<longrightarrow> routed (bg_base bg) orders (pv_items q)"
      using worker_dates [OF assms(1,2)] o by (rule_tac DoRoute_same [OF K _ blank_new(1) blank_new(1)]) auto
    show ?thesis
    proof (cases "r = 0")
      case False
      then have "\<forall>n \<ge> 0. RouteWorker_DoRoute n levelSort rateSort bg p PathView_new = Some (1, q\<lparr>pv_hashFrom := sp_hash p\<rparr>)"
        using A D True by (auto simp: RouteWorker_DoRoute_def)
      moreover have "worked bg p (1, q\<lparr>pv_hashFrom := sp_hash p\<rparr>)" using D(3) False by (simp add: worked_def twin_def pv_ok_def)
      ultimately show ?thesis by blast
    next
      case r: True
      then have "itinerary (bg_base bg) (filter lp_isVar (cand_places bg p)) q"
        using routed_itinerary [of "bg_base bg" orders q] D assms(2) places by (auto simp: twin_def)
      then obtain N ys where N: "\<forall>n \<ge> N. TimeEnrich n levelSort rateSort q = Some (0, with_items ys q)"
        "itinerary (bg_base bg) (filter lp_isVar (cand_places bg p)) (with_items ys q)"
        using itinerary_enriched [of "bg_base bg" _ q levelSort rateSort, OF _ assms(3,4)] by blast
      then have "\<forall>n \<ge> N. RouteWorker_DoRoute n levelSort rateSort bg p PathView_new = Some (0, (with_items ys q)\<lparr>pv_hashFrom := sp_hash p\<rparr>)"
        using A D True r by (auto simp: RouteWorker_DoRoute_def)
      moreover have "worked bg p (0, (with_items ys q)\<lparr>pv_hashFrom := sp_hash p\<rparr>)"
        using N(2) by (simp add: worked_def itinerary_hash) (simp add: itinerary_def pv_ok_def)
      ultimately show ?thesis by blast
    qed
  qed
qed

section \<open>Full days to the front\<close>

lemma date8_nonempty: "date8 t zone \<noteq> ''''"
proof -
  have "length (pad2 n) = 2" for n by simp
  then have "pad2 n \<noteq> []" for n by (metis list.size(3) zero_neq_numeral)
  then show ?thesis by (simp add: date8_def toString_def Let_def)
qed

lemma itinerary_dates: "itinerary bp places path \<Longrightarrow> plan_ok bp \<Longrightarrow> dates_good bp path"
  using date8_nonempty unfolding itinerary_def plan_ok_def stamped_def dates_good_def by metis

lemma trim_end_le: "trim_end days k \<le> k"
  by (induction k) auto

lemma perm_orders_places: "length dateList = length days \<Longrightarrow> map po_place (perm_orders dateList days) = day_places days"
proof (induction days arbitrary: dateList)
  case (Cons d days)
  then show ?case by (cases dateList) (auto simp: perm_orders_def day_places_def comp_def)
qed (simp add: perm_orders_def day_places_def)

lemma rearranged_trans: "rearranged n s xs ys \<Longrightarrow> rearranged n s ys zs \<Longrightarrow> rearranged n s xs zs"
  by (simp add: rearranged_def)

lemma rearranged_mono: "rearranged n s xs ys \<Longrightarrow> n \<le> m \<Longrightarrow> rearranged m s xs ys"
  by (auto simp: rearranged_def)

lemma sort_range_rearranged:
  assumes "\<And>l. mset (srt l) = mset l" "b \<le> length xs"
  shows "rearranged (b - a) a xs (sort_range srt a b xs)"
proof (cases "a < b")
  case True
  have l: "length (srt l) = length l" for l using assms(1) by (metis size_mset)
  have x: "xs = take a xs @ take (b - a) (drop a xs) @ drop b xs"
    using True by (metis append_take_drop_id drop_drop le_add_diff_inverse2 less_imp_le add.commute)
  have "mset (sort_range srt a b xs) = mset xs"
    using True arg_cong [OF x, of mset] assms(1) by (simp add: sort_range_def)
  moreover have "sort_range srt a b xs ! k = xs ! k" if "k < a \<or> b \<le> k" for k
    using that True assms(2) by (auto simp: sort_range_def nth_append l)
  ultimately show ?thesis using True by (simp add: rearranged_def)
qed (simp add: rearranged_def sort_range_def)

lemma CalUsed_dates: "dates_good bp path \<Longrightarrow> day_dates_ok bp (map di_date (CalUsedDurPerDay path))"
proof -
  assume g: "dates_good bp path"
  define ls where "ls = zip (pv_items path) (tl (pv_items path))"
  have "CalUsedDurPerDay path = map run_day (runs leg_date ls)" using g CalUsed_runs by (auto simp: dates_good_def ls_def)
  moreover have "\<exists>it \<in> set (pv_items path). leg_date (hd r) = pl_departDate it" if "r \<in> set (runs leg_date ls)" for r
  proof -
    have "r \<noteq> []" using that runs_nonempty by metis
    then have "hd r \<in> set (concat (runs leg_date ls))" using that hd_in_set by auto
    then have "hd r \<in> set ls" by (simp add: concat_runs)
    then have "fst (hd r) \<in> set (pv_items path)" unfolding ls_def by (metis prod.collapse set_zip_leftD)
    then show ?thesis by (auto simp: leg_date_def)
  qed
  ultimately show ?thesis using g by (force simp: day_dates_ok_def dates_good_def run_day_def)
qed

lemma AdjustTight_ends:
  assumes I: "itinerary (bg_base bg) places path" and P: "plan_ok (bg_base bg)"
    and perm: "\<And>xs l. mset (levelSort xs l) = mset l" "\<And>xs l. mset (rateSort xs l) = mset l" "\<And>l. mset (daySort l) = mset l"
  shows "\<exists>N path'. (\<forall>n \<ge> N. AdjustTight n levelSort rateSort daySort bg path = Some (0, path')) \<and> adjusted (bg_base bg) path path'"
proof -
  define days where "days = CalUsedDurPerDay path"
  define dates where "dates = map di_date days"
  define e where "e = trim_end days (length days - 1)"
  define sorted where "sorted = sort_range daySort 1 e days"
  define p0 where "p0 = snd (PathView_Init (PathView_Length path) PathView_new)"
  have same: ?thesis if "\<And>n. AdjustTight n levelSort rateSort daySort bg path = Some (0, path)"
    using that by (auto simp: adjusted_def)
  show ?thesis
  proof (cases "length days > 8 \<or> length days \<le> 1 \<or> map di_date sorted = dates")
    case True
    then show ?thesis by (intro same) (auto simp: AdjustTight_def Let_def days_def dates_def e_def sorted_def)
  next
    case False
    have e: "e \<le> length days - 1" by (simp add: e_def trim_end_le)
    have R: "rearranged (e - 1) 1 days sorted" unfolding sorted_def by (rule sort_range_rearranged) (use perm(3) e in auto)
    have len: "length sorted = length days" using R by (metis rearranged_def size_mset)
    have A: "AdjustTight n levelSort rateSort daySort bg path = do {
        (ret, newPath, days') \<leftarrow> Perm (e - 1) (bg_base bg) dates 1 (p0, sorted);
        if ret = 0 then do {
          let path1 = PathView_Copy (newPath\<lparr>pv_hashFrom := pv_hashFrom path\<rparr>) path;
          (ret1, path2) \<leftarrow> TimeEnrich n levelSort rateSort path1;
          path3 \<leftarrow> PathView_Dump (bg_base bg) path2;
          Some (0, path3) }
        else Some (0, path) }" for n
      unfolding AdjustTight_def Let_def days_def [symmetric] dates_def [symmetric] e_def [symmetric] sorted_def [symmetric] p0_def [symmetric]
      using False by auto
    have S: "searched (bg_base bg) dates (arrangements (e - 1) 1 sorted) sorted (Perm (e - 1) (bg_base bg) dates 1 (p0, sorted))"
      by (rule Perm_searched) (use P CalUsed_dates [OF itinerary_dates [OF I P]] blank_new(2) e len False in \<open>auto simp: plan_ok_def dates_def days_def p0_def\<close>)
    show ?thesis
    proof (cases "find (days_route (bg_base bg) dates) (arrangements (e - 1) 1 sorted)")
      case None
      then show ?thesis using S A by (intro same) (auto simp: searched_def)
    next
      case (Some ys)
      then obtain q where q: "Perm (e - 1) (bg_base bg) dates 1 (p0, sorted) = Some (0, q, ys)" "day_routed (bg_base bg) dates ys q"
        using S by (auto simp: searched_def)
      have "ys \<in> set (arrangements (e - 1) 1 sorted)" using Some by (metis find_Some_iff nth_mem)
      then have "rearranged (e - 1) 1 sorted ys" using arrangements_sound [of 1 "e - 1" sorted ys] e len False by auto
      then have ys: "rearranged (length days - 2) 1 days ys" using rearranged_trans [OF R] rearranged_mono e by fastforce
      then have ly: "length dates = length ys" by (metis dates_def length_map rearranged_def size_mset)
      define pl where "pl = filter lp_isVar (day_places ys)"
      have "itinerary (bg_base bg) pl q"
        using routed_itinerary [OF _ P, of "perm_orders dates ys" q] q(2) perm_orders_places [OF ly] by (simp add: day_routed_def pl_def)
      define p1 where "p1 = PathView_Copy (q\<lparr>pv_hashFrom := pv_hashFrom path\<rparr>) path"
      have I1: "itinerary (bg_base bg) pl p1" "pv_hashFrom p1 = pv_hashFrom path"
        unfolding p1_def using \<open>itinerary (bg_base bg) pl q\<close>
        by (intro itinerary_Copy) (simp_all add: itinerary_hash PathView_Copy_def Let_def)
      obtain N zs where N: "\<forall>n \<ge> N. TimeEnrich n levelSort rateSort p1 = Some (0, with_items zs p1)" "itinerary (bg_base bg) pl (with_items zs p1)"
        using itinerary_enriched [of "bg_base bg" pl p1 levelSort rateSort, OF I1(1) perm(1,2)] by blast
      obtain p3 where p3: "Eval (bg_base bg) (with_items zs p1) = Some p3" "itinerary (bg_base bg) pl p3" using itinerary_Eval [OF N(2)] by blast
      then have "pv_hashFrom p3 = pv_hashFrom path" using I1(2) by (auto simp: Eval_def Let_def with_items_def split: bind_splits)
      moreover have "\<forall>n \<ge> N. AdjustTight n levelSort rateSort daySort bg path = Some (0, p3)"
        using A q(1) N(1) p3(1) by (simp add: PathView_Dump_def flip: p1_def)
      ultimately show ?thesis using ys p3(2) unfolding adjusted_def pl_def days_def by blast
    qed
  qed
qed

section \<open>Evaluation of routes\<close>

text \<open>Both comparisons are fit for \<open>std::sort\<close>.\<close>

interpretation psc: weak_order PathViewScoreCmp UNIV
  by unfold_locales (auto simp: PathViewScoreCmp_def split: if_splits)

interpretation dic: weak_order DayItem_Compare UNIV
  by unfold_locales (auto simp: DayItem_Compare_def)

lemma hot_loop_total: "\<forall>it \<in> set its. pl_durS it \<noteq> None \<Longrightarrow> hot_loop bp its h pl \<noteq> None"
  by (induction its arbitrary: h pl) auto

lemma itinerary_durS:
  assumes "itinerary bp places p" "it \<in> set (pv_items p)"
  shows "pl_durS it \<noteq> None"
proof (cases "is_key it")
  case True
  then have "it \<in> set (filter is_key (pv_items p))" using assms(2) by simp
  then obtain kn where "key_at kn it" using assms(1) unfolding itinerary_def by (metis in_set_conv_nth list_all2_conv_all_nth)
  then show ?thesis by (simp add: key_at_def)
next
  case False
  then have "visit_ok it" using assms by (auto simp: itinerary_def itin_ok_def in_set_conv_nth split: if_splits)
  then show ?thesis by (auto simp: visit_ok_def)
qed

lemma EvalObj_frame: "EvalObj bp p = Some q \<Longrightarrow> itinerary bp' places q = itinerary bp' places p \<and> pv_items q = pv_items p \<and>
    pv_hashFrom q = pv_hashFrom p"
  by (auto simp: EvalObj_def Let_def itinerary_def pv_ok_def pv_items_def split: bind_splits)

lemma itinerary_EvalObj: "itinerary bp places p \<Longrightarrow> \<exists>q. EvalObj bp p = Some q \<and> itinerary bp places q"
proof -
  assume I: "itinerary bp places p"
  then have "hot_loop bp (pv_items p) 0 {} \<noteq> None" using itinerary_durS by (intro hot_loop_total) blast
  then obtain q where "EvalObj bp p = Some q" by (auto simp: EvalObj_def Let_def)
  then show ?thesis using EvalObj_frame I by blast
qed

lemma those_total: "\<forall>x \<in> set xs. f x \<noteq> None \<Longrightarrow> \<exists>ys. those (map f xs) = Some ys \<and> list_all2 (\<lambda>x y. f x = Some y) xs ys"
  by (induction xs) auto

lemma those_list_all2: "those (map f xs) = Some ys \<longleftrightarrow> list_all2 (\<lambda>x y. f x = Some y) xs ys"
proof (induction xs arbitrary: ys)
  case (Cons x xs)
  then show ?case by (cases ys) (auto split: option.splits)
qed auto

lemma DoEval_scored:
  assumes "DoEval bp paths = Some routes"
  shows "\<exists>ps. map pv_hotValue ps = map pv_hotValue routes \<and> map pv_trafDist ps = map pv_trafDist routes \<and>
    list_all2 (scored bp ps) paths routes"
proof (cases "paths = []")
  case True
  then show ?thesis using assms by (auto simp: DoEval_def)
next
  case False
  then obtain ps where ps: "list_all2 (\<lambda>p q. EvalObj bp p = Some q) paths ps"
    and r: "routes = map (\<lambda>p. p\<lparr>pv_score := route_score (Max (set (map pv_hotValue ps))) (Max (set (map pv_trafDist ps))) p\<rparr>) ps"
    using assms by (auto simp: DoEval_def those_list_all2 Let_def split: bind_splits)
  have "list_all2 (scored bp ps) paths routes"
    using ps unfolding r list_all2_conv_all_nth scored_def by force
  then show ?thesis unfolding r by (auto simp: comp_def)
qed

lemma DoEval_total:
  assumes "\<forall>p \<in> set paths. \<exists>q. EvalObj bp p = Some q"
  shows "\<exists>routes. DoEval bp paths = Some routes"
  using those_total [of paths "EvalObj bp"] assms by (fastforce simp: DoEval_def)

lemma route_score_bounds:
  assumes "0 \<le> pv_hotValue p" "pv_hotValue p \<le> hotMax" "0 \<le> pv_trafDist p" "pv_trafDist p \<le> distMax"
  shows "0 < route_score hotMax distMax p \<and> route_score hotMax distMax p < 1"
proof -
  define h where "h = (pv_hotValue p + 1) / (hotMax + 1)"
  define t where "t = 1 - (of_int (pv_trafDist p) + 5000) / (of_int distMax + 5000 :: rat)"
  have "0 < h" "h \<le> 1" using assms(1,2) by (auto simp: h_def)
  moreover have "0 < (of_int (pv_trafDist p) + 5000) / (of_int distMax + 5000 :: rat)"
    using assms(3,4) by (intro divide_pos_pos) (auto simp: add_nonneg_pos)
  then have "t < 1" by (simp add: t_def)
  ultimately show ?thesis by (simp add: route_score_def flip: h_def t_def) (auto simp: max_def)
qed

lemma route_score_mono:
  assumes "pv_hotValue q < pv_hotValue p" "pv_trafDist p \<le> pv_trafDist q" "0 \<le> hotMax" "0 \<le> distMax"
  shows "route_score hotMax distMax q < route_score hotMax distMax p"
proof -
  have "(pv_hotValue q + 1) / (hotMax + 1) < (pv_hotValue p + 1) / (hotMax + 1)"
    using assms by (intro divide_strict_right_mono) auto
  moreover have "(of_int (pv_trafDist p) + 5000) / (of_int distMax + 5000) \<le> (of_int (pv_trafDist q) + 5000) / (of_int distMax + 5000 :: rat)"
    using assms by (intro divide_right_mono) auto
  then have "max 0 (1 - (of_int (pv_trafDist q) + 5000) / (of_int distMax + 5000)) \<le> max 0 (1 - (of_int (pv_trafDist p) + 5000) / (of_int distMax + 5000 :: rat))"
    by (intro max.mono) auto
  ultimately have "8 / 10 * ((pv_hotValue q + 1) / (hotMax + 1)) + (1 - 8 / 10) * max 0 (1 - (of_int (pv_trafDist q) + 5000) / (of_int distMax + 5000))
      < 8 / 10 * ((pv_hotValue p + 1) / (hotMax + 1)) + (1 - 8 / 10) * max 0 (1 - (of_int (pv_trafDist p) + 5000) / (of_int distMax + 5000))"
    by (intro add_less_le_mono mult_strict_left_mono mult_left_mono) auto
  then show ?thesis by (simp add: route_score_def)
qed

section \<open>The search\<close>

lemma take_routes_spec:
  "set (take_routes js S) \<subseteq> {p \<in> set js. pv_isValid p \<and> PathView_GetIDStr p \<notin> set S} \<and>
   distinct (map PathView_GetIDStr (take_routes js S)) \<and>
   (\<forall>p \<in> set js. pv_isValid p \<longrightarrow> PathView_GetIDStr p \<in> set S \<union> PathView_GetIDStr ` set (take_routes js S))"
  by (induction js S rule: take_routes.induct) auto

lemma take_routes_Nil: "take_routes js [] = [] \<longleftrightarrow> (\<forall>p \<in> set js. \<not> pv_isValid p)"
  using take_routes_spec [of js "[]"] by (cases "take_routes js []") auto

text \<open>Workers that each end end together.\<close>

lemma workers_end:
  assumes "\<forall>x \<in> set xs. \<exists>N r. (\<forall>n \<ge> N. f n x = Some r) \<and> P x r"
  shows "\<exists>N rs. (\<forall>n \<ge> (N::nat). those (map (f n) xs) = Some rs) \<and> list_all2 P xs rs"
  using assms
proof (induction xs)
  case (Cons x xs)
  obtain N rs where N: "\<forall>n \<ge> N. those (map (f n) xs) = Some rs" "list_all2 P xs rs" using Cons by auto
  obtain M r where M: "\<forall>n \<ge> M. f n x = Some r" "P x r" using Cons.prems by auto
  have "\<forall>n \<ge> max N M. those (map (f n) (x # xs)) = Some (r # rs)" using N(1) M(1) by simp
  then show ?case using N(2) M(2) by (intro exI [of _ "max N M"] exI [of _ "r # rs"]) simp
qed simp

lemma sorted_first_best:
  assumes "sorted_wrt (\<lambda>a b. \<not> lt b a) (srt xs)" "mset (srt xs) = mset xs" "srt xs = b # bs" "\<not> lt b b"
  shows "b \<in> set xs \<and> (\<forall>x \<in> set xs. \<not> lt x b)"
  using assms mset_eq_setD [OF assms(2)] by auto

lemma itinerary_score: "itinerary bp places (p\<lparr>pv_score := s\<rparr>) = itinerary bp places p"
  by (simp add: itinerary_def pv_ok_def pv_items_def)

lemma DoEval_from:
  assumes "DoEval bp paths = Some routes" "r \<in> set routes"
  shows "\<exists>p \<in> set paths. pv_hashFrom r = pv_hashFrom p \<and> (\<forall>places. itinerary bp places r = itinerary bp places p)"
proof -
  obtain ps where "list_all2 (scored bp ps) paths routes" using DoEval_scored [OF assms(1)] by blast
  then obtain p where p: "p \<in> set paths" "scored bp ps p r" using assms(2) by (metis in_set_conv_nth list_all2_conv_all_nth)
  then obtain q s where q: "EvalObj bp p = Some q" "r = q\<lparr>pv_score := s\<rparr>" by (auto simp: scored_def)
  then show ?thesis using p(1) EvalObj_frame [OF q(1)] itinerary_score by auto
qed

lemma DoSearch_ends:
  assumes P: "plan_ok (bg_base bg)" and A: "\<forall>p \<in> set dfsList. adapt_ok bg p"
    and perm: "\<And>xs l. mset (levelSort xs l) = mset l" "\<And>xs l. mset (rateSort xs l) = mset l" "\<And>l. mset (daySort l) = mset l"
    and srt: "\<And>l. mset (pathSort l) = mset l" "\<And>l. sorted_wrt (\<lambda>a b. \<not> PathViewScoreCmp b a) (pathSort l)"
  shows "\<exists>N jobs plan. list_all2 (worked bg) dfsList jobs \<and> search_result bg dfsList (map snd jobs) planList plan \<and>
    (\<forall>n \<ge> N. those (map (\<lambda>p. RouteWorker_DoRoute n levelSort rateSort bg p PathView_new) dfsList) = Some jobs \<and>
      RouteSearch_DoSearch n levelSort rateSort daySort pathSort bg dfsList planList = Some (0, plan))"
proof -
  obtain N jobs where N: "\<forall>n \<ge> N. those (map (\<lambda>p. RouteWorker_DoRoute n levelSort rateSort bg p PathView_new) dfsList) = Some jobs"
    and W: "list_all2 (worked bg) dfsList jobs"
    using workers_end [of dfsList "\<lambda>n p. RouteWorker_DoRoute n levelSort rateSort bg p PathView_new" "worked bg"]
      RouteWorker_ends [of bg _ levelSort rateSort, OF _ P perm(1,2)] A by blast
  define js where "js = map snd jobs"
  have jobs: "those (map (\<lambda>p. map_option snd (RouteWorker_DoRoute n levelSort rateSort bg p PathView_new)) dfsList) = Some js" if "n \<ge> N" for n
    using N that unfolding js_def those_list_all2 by (simp add: list_all2_conv_all_nth) (metis prod.collapse)
  have it: "\<exists>p \<in> set dfsList. pv_hashFrom q = sp_hash p \<and> itinerary (bg_base bg) (filter lp_isVar (cand_places bg p)) q"
    if q: "q \<in> set js" "pv_isValid q" for q
  proof -
    obtain i where i: "i < length jobs" "q = snd (jobs ! i)" using q(1) unfolding js_def by (metis in_set_conv_nth length_map nth_map)
    then have "worked bg (dfsList ! i) (jobs ! i)" "dfsList ! i \<in> set dfsList" using W by (auto simp: list_all2_conv_all_nth)
    then show ?thesis using q(2) i(2) by (auto simp: worked_def split: prod.splits)
  qed
  have routes: "set (take_routes js []) \<subseteq> {p \<in> set js. pv_isValid p}" using take_routes_spec [of js "[]"] by auto
  obtain rs where rs: "DoEval (bg_base bg) (take_routes js []) = Some rs"
    using DoEval_total [of "take_routes js []" "bg_base bg"] itinerary_EvalObj it routes by blast
  have "\<exists>plan M. (\<forall>n \<ge> M. RouteSearch_DoSearch n levelSort rateSort daySort pathSort bg dfsList planList = Some (0, plan)) \<and>
        search_result bg dfsList js planList plan"
  proof (cases "pathSort rs")
    case Nil
    then have "rs = []" using srt(1) [of rs] by simp
    then have "take_routes js [] = []" using DoEval_scored [OF rs] by auto
    then have "search_result bg dfsList js planList planList" by (simp add: search_result_def take_routes_Nil)
    moreover have "\<forall>n \<ge> N. RouteSearch_DoSearch n levelSort rateSort daySort pathSort bg dfsList planList = Some (0, planList)"
      using jobs rs Nil by (simp add: RouteSearch_DoSearch_def)
    ultimately show ?thesis by blast
  next
    case (Cons best more)
    have b: "best \<in> set rs" "\<forall>r \<in> set rs. \<not> PathViewScoreCmp r best"
      using sorted_first_best [of PathViewScoreCmp pathSort rs, OF srt(2) srt(1) Cons] psc.asym [of best best] by auto
    then have B: "best_route bg js best" using rs by (auto simp: best_route_def)
    obtain q where q: "q \<in> set (take_routes js [])" "pv_hashFrom best = pv_hashFrom q"
      "\<forall>places. itinerary (bg_base bg) places best = itinerary (bg_base bg) places q" using DoEval_from [OF rs b(1)] by blast
    then obtain p where p: "p \<in> set dfsList" "pv_hashFrom best = sp_hash p" "itinerary (bg_base bg) (filter lp_isVar (cand_places bg p)) best"
      using it [of q] routes by auto
    obtain M plan where M: "\<forall>n \<ge> M. AdjustTight n levelSort rateSort daySort bg (PathView_Copy best planList) = Some (0, plan)"
      "adjusted (bg_base bg) (PathView_Copy best planList) plan"
      using AdjustTight_ends [OF itinerary_Copy [OF p(3)] P, of levelSort rateSort daySort, OF perm] by blast
    have "\<forall>n \<ge> max N M. RouteSearch_DoSearch n levelSort rateSort daySort pathSort bg dfsList planList = Some (0, plan)"
      using jobs rs Cons M(1) by (simp add: RouteSearch_DoSearch_def)
    moreover have "search_result bg dfsList js planList plan"
      using B p M(2) take_routes_Nil [of js] q(1) unfolding search_result_def by auto
    ultimately show ?thesis by blast
  qed
  then obtain plan M where "\<forall>n \<ge> max N M. RouteSearch_DoSearch n levelSort rateSort daySort pathSort bg dfsList planList = Some (0, plan)"
    "search_result bg dfsList js planList plan" by auto
  then show ?thesis using N W unfolding js_def by (metis max.bounded_iff)
qed

lemma Perm_finds:
  assumes "keys_ok bp" "day_dates_ok bp dateList" "blank_path p" "s + n \<le> length days"
  shows "if \<exists>ys. rearranged n s days ys \<and> days_route bp dateList ys
    then \<exists>p' ys. Perm n bp dateList s (p, days) = Some (0, p', ys) \<and> rearranged n s days ys \<and> day_routed bp dateList ys p'
    else \<exists>p'. Perm n bp dateList s (p, days) = Some (1, p', days) \<and> blank_path p'"
proof -
  have S: "searched bp dateList (arrangements n s days) days (Perm n bp dateList s (p, days))" by (rule Perm_searched [OF assms])
  have iff: "ys \<in> set (arrangements n s days) \<longleftrightarrow> rearranged n s days ys" for ys
    using arrangements_sound arrangements_complete assms(4) by blast
  show ?thesis
  proof (cases "find (days_route bp dateList) (arrangements n s days)")
    case None
    then have "\<not> (\<exists>ys. rearranged n s days ys \<and> days_route bp dateList ys)" using iff by (auto simp: find_None_iff)
    then show ?thesis using S None by (auto simp: searched_def)
  next
    case (Some ys)
    then have "rearranged n s days ys \<and> days_route bp dateList ys" using iff by (metis find_Some_iff nth_mem)
    then show ?thesis using S Some by (auto simp: searched_def)
  qed
qed

text \<open>The places of the days are those visited, less meals taken nearby.\<close>

lemma CalUsed_places:
  assumes "itinerary bp places path" "plan_ok bp"
  shows "day_places (CalUsedDurPerDay path) = filter (\<lambda>p. \<not> same_place p m_attachRest) places"
proof -
  define xs where "xs = pv_items path"
  define ls where "ls = zip xs (tl xs)"
  have x: "xs \<noteq> []" "is_key (hd xs)" using assms(1) by (auto simp: itinerary_def itin_ok_def xs_def hd_conv_nth)
  have orders: "map po_place (visit_orders d its) = map pl_place its" for d its
    by (auto simp: visit_orders_def comp_def case_prod_unfold simp flip: map_map [unfolded comp_def])
  have "CalUsedDurPerDay path = map run_day (runs leg_date ls)"
    using CalUsed_runs [of path] itinerary_dates [OF assms] by (auto simp: dates_good_def ls_def xs_def)
  then have "day_places (CalUsedDurPerDay path) = map pl_place (filter counted (map snd (concat (runs leg_date ls))))"
    by (simp add: day_places_def run_day_def comp_def orders filter_concat map_concat)
  also have "map snd (concat (runs leg_date ls)) = tl xs" by (simp add: concat_runs ls_def map_snd_zip_take)
  also have "filter counted (tl xs) = filter counted xs" using x by (cases xs) (auto simp: counted_def)
  also have "map pl_place (filter counted xs) = filter (\<lambda>p. \<not> same_place p m_attachRest) (map pl_place (filter (Not \<circ> is_key) xs))"
    by (induction xs) (auto simp: counted_def)
  finally show ?thesis using assms(1) by (simp add: itinerary_def xs_def)
qed

lemma adjusted_places:
  assumes "itinerary bp places path" "plan_ok bp" "adjusted bp path path'" "path' \<noteq> path"
  shows "pv_hashFrom path' = pv_hashFrom path \<and>
    (\<exists>places'. itinerary bp places' path' \<and> mset places' = mset (filter (\<lambda>p. \<not> same_place p m_attachRest) places))"
proof -
  obtain days where d: "mset days = mset (CalUsedDurPerDay path)" "pv_hashFrom path' = pv_hashFrom path"
    "itinerary bp (filter lp_isVar (day_places days)) path'"
    using assms(3,4) by (auto simp: adjusted_def rearranged_def)
  have "mset (day_places days) = mset (day_places (CalUsedDurPerDay path))"
    unfolding day_places_def mset_concat by (metis d(1) mset_map sum_mset_sum_list)
  then have "mset (filter lp_isVar (day_places days)) = mset (filter lp_isVar (filter (\<lambda>p. \<not> same_place p m_attachRest) places))"
    using CalUsed_places [OF assms(1,2)] by (metis mset_filter)
  also have "filter lp_isVar (filter (\<lambda>p. \<not> same_place p m_attachRest) places) = filter (\<lambda>p. \<not> same_place p m_attachRest) places"
    using assms(1) unfolding itinerary_def filter_id_conv by (meson filter_is_subset subsetD)
  finally show ?thesis using d by blast
qed

section \<open>An example\<close>

lemma tight_day: "0 \<le> t \<Longrightarrow> t \<le> 100 \<Longrightarrow> date8 t 8 = tight_date"
proof -
  assume t: "0 \<le> t" "t \<le> 100"
  have g: "tm_year (gmtime (s + 28800)) = 1970 \<and> tm_mon (gmtime (s + 28800)) = 1 \<and> tm_mday (gmtime (s + 28800)) = 1"
    if "0 \<le> s" "s \<le> 100" for s
  proof -
    have "(s + 28800) div 86400 = 0" using that by simp
    moreover have "split_year 0 1970 = (1970, 0)" by (subst split_year.simps) (simp add: year_len_def)
    ultimately show ?thesis by (simp add: gmtime_def Let_def month_lens_def)
  qed
  have "length (int_str 1970) = 4" using nat_str_4 [of 1970] by (simp add: int_str_def)
  then show ?thesis using g [OF t] g [of 100]
    by (simp add: date8_def toString_def tight_date_def toDateStr_def trunc_rat_def Let_def)
qed

lemma tight_key_fields: "kn_trafDate tight_key = tight_date" "kn_close_date tight_key = tight_date" "kn_place tight_key = place0"
    "kn_open tight_key = 0" "kn_close tight_key = 100" "kn_durS tight_key = DurS_new 0 0 0 0 0" "kn_type tight_key = NODE_FUNC_KEY_HOTEL_SLEEP"
    "keynode_ok tight_key"
  by (simp_all add: tight_key_def KeyNode_new_ok) (simp_all add: KeyNode_new_def key_defs tight_date_def)

lemma tight_traffic: "GetTraffic tight_plan a b date = Some tr \<Longrightarrow> 0 \<le> tr_time tr"
  by (auto simp: GetTraffic_def GetTraffic2_def Let_def tight_plan_def BasePlan_new_def blank_traffic_item_def self_traffic_item_def split: if_splits)

lemma tight_plan_ok: "plan_ok tight_plan"
  using tight_traffic tight_day
  by (auto simp: plan_ok_def keys_ok_def times_ok_def tight_plan_def BasePlan_new_def tight_key_fields key_arrival_def DurS_new_def
      has_flag_def flag_simps GetDurSP_def compareDayStr_def)

lemma tight_adapt: "adapt_ok (BagPlan_new tight_plan) demo_spath"
  by (simp add: adapt_ok_def spath_ok_def demo_spath_def sp_used_def BagPlan_new_def tight_plan_def BasePlan_new_def GetBlockNum_def)

lemma tight_items: "pv_items tight_path = [tight_item, tight_item]" "pv_ok tight_path" "is_key tight_item" "\<not> is_place tight_item"
  by (simp_all add: tight_path_def pv_items_def pv_ok_def tight_item_def is_key_def is_place_def has_flag_def flag_simps)

lemma tight_itinerary: "itinerary tight_plan [] tight_path"
proof -
  have "key_at tight_key tight_item"
    by (simp add: key_at_def key_arrival_def tight_key_fields DurS_new_def tight_item_def PlanItem_new_def)
  moreover have "leg_ok tight_item tight_item" using tight_items by (simp add: leg_ok_def tight_item_def PlanItem_new_def trafT_def)
  moreover have "0 \<le> pl_departTime tight_item" by (simp add: tight_item_def PlanItem_new_def)
  moreover have "stamped tight_plan tight_item"
    using tight_day [of 0] by (auto simp: stamped_def tight_plan_def BasePlan_new_def tight_item_def tight_key_fields intro!: exI [of _ 0])
  ultimately show ?thesis using tight_items unfolding tight_plan_def
    by (auto simp: itinerary_def itin_ok_def tight_plan_def tight_path_def less_Suc_eq)
qed

lemma BagPlan_base: "bg_base (BagPlan_new bp) = bp"
  by (simp add: BagPlan_new_def)

lemma mset_score_insert: "mset (score_insert p ps) = add_mset p (mset ps)"
  by (induction ps) auto

lemma score_insert_sorted:
  "sorted_wrt (\<lambda>a b. \<not> PathViewScoreCmp b a) ps \<Longrightarrow> sorted_wrt (\<lambda>a b. \<not> PathViewScoreCmp b a) (score_insert p ps)"
proof (induction ps)
  case (Cons q qs)
  have s: "set (score_insert p qs) = insert p (set qs)" using mset_score_insert [of p qs] by (metis set_mset_add_mset_insert set_mset_mset)
  show ?case
  proof (cases "PathViewScoreCmp q p")
    case True
    then show ?thesis using Cons psc.asym [of q p] by (auto simp: s)
  next
    case False
    then show ?thesis using Cons.prems psc.neg_trans [of _ q p] by auto
  qed
qed simp

lemma score_sort: "mset (score_sort ps) = mset ps" "sorted_wrt (\<lambda>a b. \<not> PathViewScoreCmp b a) (score_sort ps)"
  by (induction ps) (simp_all add: score_sort_def mset_score_insert score_insert_sorted)

section \<open>Properties\<close>





text \<open>C8: The backtracking over the days. \<open>Perm\<close> finds an arrangement of the days \<open>s\<close> to \<open>s + n - 1\<close> that can be routed
  on the given dates whenever there is one: it returns 0 with that arrangement and the route. Otherwise it returns 1, with the
  days as they were and an empty path.\<close>

theorem Perm_correct:
  assumes "keys_ok bp" "day_dates_ok bp dateList" "blank_path p" "s + n \<le> length days"
  shows "if \<exists>ys. rearranged n s days ys \<and> days_route bp dateList ys
    then \<exists>p' ys. Perm n bp dateList s (p, days) = Some (0, p', ys) \<and> rearranged n s days ys \<and> day_routed bp dateList ys p'
    else \<exists>p'. Perm n bp dateList s (p, days) = Some (1, p', days) \<and> blank_path p'"
  by (rule Perm_finds [OF assms])

theorem Perm_correct_witness:
  "if \<exists>ys. rearranged 1 0 [day_of used_start] ys \<and> days_route tight_plan [tight_date] ys
    then \<exists>p' ys. Perm 1 tight_plan [tight_date] 0 (PathView_new, [day_of used_start]) = Some (0, p', ys) \<and>
      rearranged 1 0 [day_of used_start] ys \<and> day_routed tight_plan [tight_date] ys p'
    else \<exists>p'. Perm 1 tight_plan [tight_date] 0 (PathView_new, [day_of used_start]) = Some (1, p', [day_of used_start]) \<and> blank_path p'"
proof (rule Perm_correct)
  show "keys_ok tight_plan" using tight_plan_ok by (simp add: plan_ok_def)
  show "day_dates_ok tight_plan [tight_date]" by (simp add: day_dates_ok_def tight_plan_def tight_key_fields compareDayStr_def)
qed (simp_all add: blank_new)

text \<open>C16: The days of an itinerary. When no departure date is empty, \<open>CalUsedDurPerDay\<close> cuts the legs of the itinerary into maximal
  runs that depart on the same date, one day each: its time is the sum over the legs and its order the places visited.\<close>

theorem CalUsedDurPerDay_runs:
  assumes "\<forall>it \<in> set (pv_items path). pl_departDate it \<noteq> ''''"
  shows "CalUsedDurPerDay path = map run_day (runs leg_date (zip (pv_items path) (tl (pv_items path))))"
  by (rule CalUsed_runs [OF assms])

theorem CalUsedDurPerDay_runs_witness: "CalUsedDurPerDay tight_path = map run_day [[(tight_item, tight_item)]]"
  using CalUsedDurPerDay_runs [of tight_path] tight_day [of 0] date8_nonempty [of 0 8] by (simp add: tight_items) (simp add: tight_item_def)

text \<open>C17: The score of a route. \<open>DoEval\<close> measures every route and gives scores strictly between 0 and 1 when no heat and no
  distance is negative; a route of more heat on no longer a way has the higher score.\<close>

theorem DoEval_correct:
  assumes "DoEval bp paths = Some routes" "\<forall>r \<in> set routes. 0 \<le> pv_hotValue r \<and> 0 \<le> pv_trafDist r"
  shows "list_all2 (\<lambda>p r. EvalObj bp p = Some (r\<lparr>pv_score := pv_score p\<rparr>)) paths routes \<and>
    (\<forall>r \<in> set routes. 0 < pv_score r \<and> pv_score r < 1) \<and>
    (\<forall>r \<in> set routes. \<forall>r' \<in> set routes. pv_hotValue r' < pv_hotValue r \<and> pv_trafDist r \<le> pv_trafDist r' \<longrightarrow> pv_score r' < pv_score r)"
proof -
  obtain ps where ps: "map pv_hotValue ps = map pv_hotValue routes" "map pv_trafDist ps = map pv_trafDist routes"
    "list_all2 (scored bp ps) paths routes" using DoEval_scored [OF assms(1)] by blast
  define hotMax where "hotMax = Max (set (map pv_hotValue ps))"
  define distMax where "distMax = Max (set (map pv_trafDist ps))"
  have max: "pv_hotValue r \<le> hotMax" "pv_trafDist r \<le> distMax" if "r \<in> set routes" for r
    using that by (auto simp: hotMax_def distMax_def ps simp del: set_map) (auto intro!: Max_ge)
  have score: "pv_score r = route_score hotMax distMax r" if r: "r \<in> set routes" for r
  proof -
    obtain p where "scored bp ps p r" using ps(3) r by (metis in_set_conv_nth list_all2_conv_all_nth)
    then show ?thesis by (auto simp: scored_def hotMax_def distMax_def route_score_def)
  qed
  have "EvalObj bp p = Some (r\<lparr>pv_score := pv_score p\<rparr>)" if s: "scored bp ps p r" for p r
  proof -
    obtain q where "EvalObj bp p = Some q" "r\<lparr>pv_score := pv_score q\<rparr> = q" using s by (auto simp: scored_def)
    moreover have "pv_score q = pv_score p" using calculation(1) by (auto simp: EvalObj_def Let_def split: bind_splits)
    ultimately show ?thesis by simp
  qed
  then have "list_all2 (\<lambda>p r. EvalObj bp p = Some (r\<lparr>pv_score := pv_score p\<rparr>)) paths routes"
    using ps(3) by (auto elim: list_all2_mono)
  moreover have "0 < pv_score r \<and> pv_score r < 1" if "r \<in> set routes" for r
    using route_score_bounds [of r hotMax distMax] max that assms(2) score by auto
  moreover have "pv_score r' < pv_score r" if "r \<in> set routes" "r' \<in> set routes" "pv_hotValue r' < pv_hotValue r" "pv_trafDist r \<le> pv_trafDist r'" for r r'
    using route_score_mono [of r' r hotMax distMax] max [OF that(1)] that score assms(2) by fastforce
  ultimately show ?thesis by blast
qed

theorem DoEval_correct_witness: "\<exists>r. DoEval tight_plan [tight_path] = Some [r] \<and> 0 < pv_score r \<and> pv_score r < 1"
proof -
  obtain r where r: "DoEval tight_plan [tight_path] = Some [r]" "pv_hotValue r = 0" "pv_trafDist r = 0"
    using tight_items
    by (auto simp: DoEval_def EvalObj_def Let_def tight_item_def PlanItem_new_def place0_def trafD_def)
  then show ?thesis using DoEval_correct [OF r(1)] by simp
qed

end
