(* ===== verification/Spec2Isabelle.thy ===== *)
theory Spec2Isabelle
  imports DFSWorker ThreadPool TimeIR RouteSearch
begin

text \<open>
  Verification of PPView, the planner of day trips inside a city (\<open>src/PPView\<close>).

  \<^bold>\<open>The program.\<close> A request names the hotels, stations and fixed visits of a stay; they become \<^emph>\<open>key nodes\<close>,
  and the free time between two of them a \<^emph>\<open>time block\<close>. The bag planner (\<open>Route/bag\<close>) chooses places for
  the blocks (\<open>MyCluster\<close>), searches the order of each day (\<open>DFS\<close>, run by \<open>DFSWorker\<close> in a thread pool), joins the days
  and hands each candidate, an \<open>SPath\<close>, to \<open>BagPlan::AdaptOrder\<close>. The order it gives is timed by \<open>TrafRoute\<close>, which
  builds an itinerary (\<open>PathView\<close>) of \<open>PlanItem\<close>s; \<open>PathEval\<close> scores it and \<open>PathUtil\<close> compresses, stretches and
  repairs its times. \<open>RouteSearch\<close> runs these steps for every candidate and keeps the best route. All of them read the request context \<open>BasePlan\<close>: places, durations, opening rules
  (\<open>TimeIR\<close>), traffic.

  \<^bold>\<open>The theories\<close>, in the order they import one another:
  \<^descr> \<open>PP_Prelude\<close>: arrays with bounds (\<open>arr_get\<close>, \<open>arr_set\<close>), C integers, flags, strings; the named collections.
  \<^descr> \<open>MyTime\<close> (\<open>common/src/MyTime.h\<close>): time stamps and their texts. Round trip; the product that overflows in 2038.
  \<^descr> \<open>ToolFunc\<close> (\<open>Route/base/ToolFunc.cpp\<close>): splitting and joining, searching, bit counting, formats. Round trips,
    equivalence of replacement with split-and-join, correctness of the binary search.
  \<^descr> \<open>PP_Types\<close> (\<open>define.h\<close>, \<open>Utils.h\<close>, \<open>Utils.cpp\<close>): places, durations, opening windows, traffic items, time blocks, key
    nodes, statistics. \<open>DurS::Fix\<close> orders the durations; the key node invariant under every setter.
  \<^descr> \<open>BasePlan\<close> (\<open>BasePlan.cpp\<close> and what it calls of \<open>LYConstData.cpp\<close>, \<open>TrafficData.cpp\<close>): the request context as a record;
    the accessors. Order of durations, traffic of repeated visits.
  \<^descr> \<open>TimeIR\<close>: opening rules of places: the check and the evaluation of a rule text on a date, against abstract rules and
    their printed form.
  \<^descr> \<open>PathView\<close> (\<open>PathView.h\<close>, \<open>PathView.cpp\<close>): the itinerary, a buffer of slots with a length and a capacity.
    Refinement: any history of operations acts on the visible items as on a list.
  \<^descr> \<open>PathEval\<close> (\<open>PathEval.cpp\<close>, \<open>PathCross.cpp\<close>): the score.
  \<^descr> \<open>PathUtil\<close>, \<open>PathStretch\<close> (\<open>PathUtil.h\<close>, \<open>PathUtil.cpp\<close>): operations, and the lemmas on compression and stretching: the
    compressed times are the earliest feasible ones; stretching ends when no visit is shorter than ten seconds
    and hangs otherwise.
  \<^descr> \<open>TrafRoute\<close> (\<open>TrafRoute.cpp\<close>): routing an order, total and correct.
  \<^descr> \<open>BagPlan\<close> (\<open>BagPlan.cpp\<close>): positions of places, node types, bit sets.
  \<^descr> \<open>SPath\<close> (\<open>SPath.h\<close>, \<open>SPath.cpp\<close>, \<open>BagPlan::AdaptOrder\<close>): candidates, hashes, comparison, the order for the router.
  \<^descr> \<open>StdHeap\<close>: \<open>std::priority_queue\<close>; the locales \<open>weak_order\<close> and \<open>prio_queue\<close>.
  \<^descr> \<open>SPathHeap\<close> (\<open>SPathHeap.cpp\<close>, \<open>SPathAlloc.h\<close>, \<open>ThreadMemPool.cpp\<close>): bounded heaps, the allocator, memory pools. The
    heap interprets \<open>weak_order\<close> with \<open>SPathCmp\<close> on the candidates with whole scores.
  \<^descr> \<open>DFS\<close> (\<open>DFS.cpp\<close>): the order of one day: the pruned search returns the best orders.
  \<^descr> \<open>DFSWorker\<close> (\<open>DFSWorker.cpp\<close>, \<open>DFSearch.cpp\<close>): joining the best orders of the days into whole candidates, and merging the
    heaps of the threads: both return the best of what they may choose from.
  \<^descr> \<open>ThreadPool\<close> (\<open>MyThreadPool.cpp\<close>, \<open>wait_list.hpp\<close>, \<open>linked_list.hpp\<close>): the intrusive list as a store of pointers that
    refines a queue (locale \<open>fifo\<close>), and the pool as a step relation: every worker is run once, by one thread.
  \<^descr> \<open>PathEnrich\<close>: the invariant \<open>itin_ok\<close> of a whole itinerary; \<open>TimeEnrich\<close> keeps it and ends.
  \<^descr> \<open>RouteSearch\<close> (\<open>RouteSearch.cpp\<close>, \<open>RouteWorker.cpp\<close>): the last stage, which composes \<open>AdaptOrder\<close>, \<open>DoRoute\<close> and
    \<open>TimeEnrich\<close>: every route is a complete valid itinerary of its candidate, the plan is the best of them or that one with
    its days arranged anew; the backtracking over the days finds an arrangement whenever there is one.

  \<^bold>\<open>Conventions.\<close> A class is a record, its methods functions on it that return the new state, an \<open>int\<close> result first.
  \<open>None\<close> of an operation stands for undefined behaviour of the C++ code: an index out of range, a null pointer, a
  failed cast; theorems that an operation returns say so. Fixed-width integers are words where the code relies on
  the width (\<open>uint8_t\<close> positions and node types, \<open>uint32_t\<close> hashes, flag words); times, distances and durations are
  unbounded integers, except in \<open>MyTime\<close>, where overflow is an error. \<open>double\<close> scores are rationals. Logging
  has no effect and is left out. Pointers that the code compares are places and candidates with an address field.

  \<^bold>\<open>Loops and fuel.\<close> Loops over a range recurse on the number of steps left. \<open>DoRoute\<close> carries fuel \<open>keyNum + 1\<close>: every
  round of its loop enters one key node. \<open>Search\<close> carries the number of nodes still to be placed. Both are proved enough.
  \<open>TimeStretch\<close> is a loop that may not end: its fuel is a parameter, with a bound for which it ends and an input on
  which no fuel is enough; \<open>TimeEnrich\<close>, the workers and \<open>AdjustTight\<close> pass it on, and their theorems give a bound from which
  the result no longer depends on it. \<open>getVecStrBetween\<close> is a partial function: \<open>None\<close> where the loop of the code repeats for ever.
  \<open>wait_worker_done\<close> polls: the worker states at its \<open>k\<close>-th look are an argument, and the number of looks is the fuel; it is
  proved to return once every worker is done.

  \<^bold>\<open>Parameters.\<close> The wall clock (\<open>IsDFSTimeOut\<close>), limits read from configuration files, uninitialised memory and the
  order in which \<open>std::sort\<close> leaves equal elements are arguments of the definitions that depend on them.

  \<^bold>\<open>Not modelled.\<close> The servers, sockets, Redis, MySQL and RabbitMQ clients, logging, JSON parsing and printing of requests
  and answers, and the loading of constant data are input and output. \<open>MyCluster\<close> and \<open>BagSearch\<close>, the heuristics that
  choose the places of a stay and start the stages one after the other, are not modelled. \<open>LightPlan\<close>, \<open>PathGenerator\<close>, \<open>DaysPlan\<close>,
  \<open>KeyNodeBuilder\<close>, \<open>TourSet\<close> and \<open>PostProcessor\<close> work on JSON values or on tables loaded from the database throughout;
  \<open>Planner\<close>, \<open>Processor\<close> and \<open>Route\<close> are glue between the parts. \<open>CrossWorker\<close> and \<open>EvalDFS\<close> have no caller. Boost and the JSON
  library are third-party code.
\<close>

end
